(* ===== verification/Prelude.thy ===== *)
theory Prelude imports Main "HOL-Library.List_Lexorder" "HOL-Library.Char_ord" begin

text \<open>
  Shared vocabulary of the development: the operations of the Rust standard library that the
  crates use on text (\<open>str\<close>), on fallible results (\<open>Result\<close>) and on ordered maps
  (\<open>BTreeMap<String, V>\<close>).

  A \<open>string\<close> is a list of \<open>char\<close>s, one per Unicode scalar value below 256; text
  outside that range is not representable. On this range every operation below agrees with
  its Rust counterpart: \<open>trim\<close> removes the eight characters below 256 that have the
  White\_Space property, and a prefix taken by byte length is compared only against text of
  the same byte length, so that counting characters gives the same answer.

  \<open>named_theorems\<close>: \<open>text_simps\<close> collects the splitting and joining facts,
  \<open>btree_simps\<close> the facts about ordered maps.
\<close>

named_theorems text_simps
named_theorems btree_simps

section \<open>Results\<close>

type_synonym ('e, 'a) result = "'e + 'a"

definition and_then :: "('e, 'a) result \<Rightarrow> ('a \<Rightarrow> ('e, 'b) result) \<Rightarrow> ('e, 'b) result" where
  "and_then r f = (case r of Inl e \<Rightarrow> Inl e | Inr a \<Rightarrow> f a)"

lemma and_then_simps [simp]:
  "and_then (Inl e) f = Inl e"
  "and_then (Inr a) f = f a"
  by (simp_all add: and_then_def)

lemma and_then_Inr_iff: "and_then r f = Inr b \<longleftrightarrow> (\<exists>a. r = Inr a \<and> f a = Inr b)"
  by (cases r) auto

definition ok_or :: "'e \<Rightarrow> 'a option \<Rightarrow> ('e, 'a) result" where
  "ok_or e v = (case v of None \<Rightarrow> Inl e | Some a \<Rightarrow> Inr a)"

lemma ok_or_simps [simp]: "ok_or e None = Inl e" "ok_or e (Some a) = Inr a"
  by (simp_all add: ok_or_def)

definition map_err :: "('e \<Rightarrow> 'f) \<Rightarrow> ('e, 'a) result \<Rightarrow> ('f, 'a) result" where
  "map_err f r = (case r of Inl e \<Rightarrow> Inl (f e) | Inr a \<Rightarrow> Inr a)"

lemma map_err_simps [simp]: "map_err f (Inl e) = Inl (f e)" "map_err f (Inr a) = Inr a"
  by (simp_all add: map_err_def)

lemma set_case_option:
  "y \<in> set (case x of None \<Rightarrow> [] | Some w \<Rightarrow> f w) \<longleftrightarrow> (\<exists>w. x = Some w \<and> y \<in> set (f w))"
  by (cases x) auto

section \<open>Text\<close>

subsection \<open>Characters\<close>

definition is_ws :: "char \<Rightarrow> bool" where
  "is_ws c \<longleftrightarrow> (let n = of_char c :: nat in (9 \<le> n \<and> n \<le> 13) \<or> n = 32 \<or> n = 133 \<or> n = 160)"

definition is_digit :: "char \<Rightarrow> bool" where
  "is_digit c \<longleftrightarrow> (let n = of_char c :: nat in 48 \<le> n \<and> n \<le> 57)"

definition digit_val :: "char \<Rightarrow> nat" where
  "digit_val c = of_char c - 48"

definition lower_char :: "char \<Rightarrow> char" where
  "lower_char c = (let n = of_char c :: nat in if 65 \<le> n \<and> n \<le> 90 then char_of (n + 32) else c)"

definition upper_char :: "char \<Rightarrow> char" where
  "upper_char c = (let n = of_char c :: nat in if 97 \<le> n \<and> n \<le> 122 then char_of (n - 32) else c)"

definition to_lower :: "string \<Rightarrow> string" where
  "to_lower s = map lower_char s"

definition to_upper :: "string \<Rightarrow> string" where
  "to_upper s = map upper_char s"

definition eq_ignore_case :: "string \<Rightarrow> string \<Rightarrow> bool" where
  "eq_ignore_case a b \<longleftrightarrow> to_lower a = to_lower b"

lemma length_to_lower [simp]: "length (to_lower s) = length s"
  by (simp add: to_lower_def)

lemma length_to_upper [simp]: "length (to_upper s) = length s"
  by (simp add: to_upper_def)

lemma to_lower_Nil [simp]: "to_lower [] = []"
  by (simp add: to_lower_def)

lemma lower_char_idem [simp]: "lower_char (lower_char c) = lower_char c"
  by (auto simp: lower_char_def Let_def)

lemma to_lower_idem [simp]: "to_lower (to_lower s) = to_lower s"
  by (simp add: to_lower_def)

lemma eq_ignore_case_refl [simp]: "eq_ignore_case s s"
  by (simp add: eq_ignore_case_def)

lemma eq_ignore_case_sym: "eq_ignore_case a b \<Longrightarrow> eq_ignore_case b a"
  by (simp add: eq_ignore_case_def)

subsection \<open>Prefixes and suffixes\<close>

definition strip_prefix :: "string \<Rightarrow> string \<Rightarrow> string option" where
  "strip_prefix p s = (if take (length p) s = p then Some (drop (length p) s) else None)"

definition strip_suffix :: "string \<Rightarrow> string \<Rightarrow> string option" where
  "strip_suffix p s = map_option rev (strip_prefix (rev p) (rev s))"

lemma strip_prefix_Some_iff [text_simps]: "strip_prefix p s = Some r \<longleftrightarrow> s = p @ r"
proof -
  have "take (length p) s = p \<Longrightarrow> p @ drop (length p) s = s"
    by (metis append_take_drop_id)
  then show ?thesis by (auto simp: strip_prefix_def)
qed

lemma strip_prefix_append [simp]: "strip_prefix p (p @ r) = Some r"
  by (simp add: strip_prefix_Some_iff)

lemma strip_suffix_Some_iff [text_simps]: "strip_suffix p s = Some r \<longleftrightarrow> s = r @ p"
proof -
  have "strip_suffix p s = Some r \<longleftrightarrow> strip_prefix (rev p) (rev s) = Some (rev r)"
    by (auto simp: strip_suffix_def)
  also have "\<dots> \<longleftrightarrow> rev s = rev (r @ p)" by (simp add: strip_prefix_Some_iff)
  finally show ?thesis by (simp only: rev_is_rev_conv)
qed

lemma strip_suffix_append [simp]: "strip_suffix p (r @ p) = Some r"
  by (simp add: strip_suffix_Some_iff)

lemma strip_prefix_Nil [simp]: "strip_prefix [] s = Some s"
  by (simp add: strip_prefix_def)

definition strip_prefix_ignoring_case :: "string \<Rightarrow> string \<Rightarrow> string option" where
  "strip_prefix_ignoring_case name prefix =
     (if length prefix \<le> length name \<and> eq_ignore_case (take (length prefix) name) prefix
      then Some (drop (length prefix) name) else None)"

subsection \<open>Trimming\<close>

definition trim_start :: "string \<Rightarrow> string" where
  "trim_start s = dropWhile is_ws s"

definition trim_end :: "string \<Rightarrow> string" where
  "trim_end s = rev (dropWhile is_ws (rev s))"

definition trim :: "string \<Rightarrow> string" where
  "trim s = trim_end (trim_start s)"

lemma trim_Nil [simp]: "trim [] = []" "trim_start [] = []" "trim_end [] = []"
  by (simp_all add: trim_def trim_start_def trim_end_def)

lemma length_trim_start: "length (trim_start s) \<le> length s"
  by (simp add: trim_start_def length_dropWhile_le)

lemma length_trim_end: "length (trim_end s) \<le> length s"
  unfolding trim_end_def length_rev by (metis length_dropWhile_le length_rev)

lemma length_trim: "length (trim s) \<le> length s"
  unfolding trim_def using length_trim_end length_trim_start le_trans by blast

lemma trim_start_id: "s \<noteq> [] \<Longrightarrow> \<not> is_ws (hd s) \<Longrightarrow> trim_start s = s"
  by (cases s) (simp_all add: trim_start_def)

lemma trim_end_id: "s \<noteq> [] \<Longrightarrow> \<not> is_ws (last s) \<Longrightarrow> trim_end s = s"
  by (cases s rule: rev_cases) (simp_all add: trim_end_def)

lemma trim_id: "s \<noteq> [] \<Longrightarrow> \<not> is_ws (hd s) \<Longrightarrow> \<not> is_ws (last s) \<Longrightarrow> trim s = s"
  by (simp add: trim_def trim_start_id trim_end_id)

lemma trim_start_ends: "trim_start s \<noteq> [] \<Longrightarrow> \<not> is_ws (hd (trim_start s))"
  by (simp add: trim_start_def hd_dropWhile)

lemma trim_end_ends: "trim_end s \<noteq> [] \<Longrightarrow> \<not> is_ws (last (trim_end s))"
  by (simp add: trim_end_def last_rev hd_dropWhile)

lemma trim_end_prefix: "\<exists>t. s = trim_end s @ t"
proof -
  have "rev s = takeWhile is_ws (rev s) @ dropWhile is_ws (rev s)" by simp
  then have "s = trim_end s @ rev (takeWhile is_ws (rev s))"
    unfolding trim_end_def by (metis rev_append rev_rev_ident)
  then show ?thesis by blast
qed

lemma hd_trim_end: "trim_end s \<noteq> [] \<Longrightarrow> hd (trim_end s) = hd s"
  using trim_end_prefix [of s] by (metis hd_append2)

lemma trim_idem [simp]: "trim (trim s) = trim s"
proof (cases "trim s = []")
  case False
  then have *: "trim_end (trim_start s) \<noteq> []" by (simp add: trim_def)
  then have "trim_start s \<noteq> []" by auto
  then have "\<not> is_ws (hd (trim s))"
    using * by (simp add: trim_def hd_trim_end trim_start_ends)
  moreover have "\<not> is_ws (last (trim s))"
    using * by (simp add: trim_def trim_end_ends)
  ultimately show ?thesis using False by (simp add: trim_id)
qed simp

subsection \<open>Splitting and joining\<close>

fun split_on :: "char \<Rightarrow> string \<Rightarrow> string list" where
  "split_on c [] = [[]]"
| "split_on c (x # xs) =
     (if x = c then [] # split_on c xs
      else (case split_on c xs of [] \<Rightarrow> [[x]] | w # ws \<Rightarrow> (x # w) # ws))"

fun join_with :: "string \<Rightarrow> string list \<Rightarrow> string" where
  "join_with sep [] = []"
| "join_with sep [w] = w"
| "join_with sep (w # v # ws) = w @ sep @ join_with sep (v # ws)"

fun split_once :: "string \<Rightarrow> string \<Rightarrow> (string \<times> string) option" where
  "split_once p [] = (if p = [] then Some ([], []) else None)"
| "split_once p (c # cs) =
     (case strip_prefix p (c # cs) of
        Some r \<Rightarrow> Some ([], r)
      | None \<Rightarrow> map_option (apfst ((#) c)) (split_once p cs))"

definition contains_text :: "string \<Rightarrow> string \<Rightarrow> bool" where
  "contains_text p s \<longleftrightarrow> split_once p s \<noteq> None"

fun replace_from :: "nat \<Rightarrow> string \<Rightarrow> string \<Rightarrow> string \<Rightarrow> string" where
  "replace_from skip p t [] = []"
| "replace_from (Suc k) p t (c # cs) = replace_from k p t cs"
| "replace_from 0 p t (c # cs) =
     (if take (length p) (c # cs) = p then t @ replace_from (length p - 1) p t cs
      else c # replace_from 0 p t cs)"

definition replace_all :: "string \<Rightarrow> string \<Rightarrow> string \<Rightarrow> string" where
  "replace_all p t s =
     (if p = [] then t @ concat (map (\<lambda>c. c # t) s) else replace_from 0 p t s)"

fun raw_lines :: "string \<Rightarrow> string list" where
  "raw_lines [] = []"
| "raw_lines (c # cs) =
     (if c = CHR 0x0A then [] # raw_lines cs
      else (case raw_lines cs of
              [] \<Rightarrow> [[c]]
            | l # ls \<Rightarrow> (c # l) # ls))"

definition strip_cr :: "string \<Rightarrow> string" where
  "strip_cr l = (case strip_suffix [CHR 0x0D] l of Some r \<Rightarrow> r | None \<Rightarrow> l)"

lemma split_on_not_Nil [simp]: "split_on c s \<noteq> []"
  by (induction s) (auto split: list.splits)

lemma split_on_Cons_other:
  "x \<noteq> c \<Longrightarrow> split_on c (x # xs) = (x # hd (split_on c xs)) # tl (split_on c xs)"
  by (cases "split_on c xs") auto

lemma split_on_free: "c \<notin> set w \<Longrightarrow> split_on c w = [w]"
  by (induction w) auto

lemma split_on_segments: "w \<in> set (split_on c s) \<Longrightarrow> c \<notin> set w"
proof (induction s arbitrary: w)
  case (Cons x xs)
  obtain v vs where v: "split_on c xs = v # vs" by (cases "split_on c xs") auto
  with Cons show ?case by (auto split: if_splits)
qed simp

lemma split_on_append_sep:
  "c \<notin> set w \<Longrightarrow> split_on c (w @ c # s) = w # split_on c s"
  by (induction w) auto

lemma join_with_Cons: "ws \<noteq> [] \<Longrightarrow> join_with sep (w # ws) = w @ sep @ join_with sep ws"
  by (cases ws) auto

lemma split_join [text_simps]:
  "ws \<noteq> [] \<Longrightarrow> (\<And>w. w \<in> set ws \<Longrightarrow> c \<notin> set w) \<Longrightarrow> split_on c (join_with [c] ws) = ws"
proof (induction ws)
  case (Cons w ws)
  then show ?case
    by (cases ws) (auto simp: split_on_free split_on_append_sep)
qed simp

lemma join_split [text_simps]: "join_with [c] (split_on c s) = s"
proof (induction s)
  case (Cons x xs)
  obtain v vs where v: "split_on c xs = v # vs" by (cases "split_on c xs") auto
  show ?case
  proof (cases "x = c")
    case True
    with Cons show ?thesis by (simp add: join_with_Cons)
  next
    case False
    with Cons v show ?thesis by (cases vs) auto
  qed
qed simp

lemma split_on_inj: "split_on c s = split_on c t \<Longrightarrow> s = t"
  by (metis join_split)

lemma split_once_Some_append: "split_once p s = Some (a, b) \<Longrightarrow> s = a @ p @ b"
proof (induction s arbitrary: a b)
  case Nil
  then show ?case by (simp split: if_splits)
next
  case (Cons c cs)
  show ?case
  proof (cases "strip_prefix p (c # cs)")
    case None
    with Cons.prems obtain a' where "split_once p cs = Some (a', b)" "a = c # a'"
      by auto
    with Cons.IH show ?thesis by simp
  next
    case (Some r)
    with Cons.prems show ?thesis by (simp add: strip_prefix_Some_iff)
  qed
qed

lemma split_once_None_iff: "split_once p s = None \<longleftrightarrow> \<not> (\<exists>a b. s = a @ p @ b)"
proof (induction s)
  case Nil
  then show ?case by simp
next
  case (Cons c cs)
  show ?case
  proof (cases "strip_prefix p (c # cs)")
    case None
    then have np: "\<not> (\<exists>b. c # cs = p @ b)"
      by (metis not_None_eq strip_prefix_Some_iff)
    have "(\<exists>a b. c # cs = a @ p @ b) \<longleftrightarrow> (\<exists>a b. cs = a @ p @ b)"
    proof
      assume "\<exists>a b. c # cs = a @ p @ b"
      then obtain a b where ab: "c # cs = a @ p @ b" by blast
      with np have "a \<noteq> []" by auto
      with ab show "\<exists>a b. cs = a @ p @ b" by (cases a) auto
    next
      assume "\<exists>a b. cs = a @ p @ b"
      then show "\<exists>a b. c # cs = a @ p @ b" by (metis append_Cons)
    qed
    with None Cons.IH show ?thesis by simp
  next
    case (Some r)
    then have "\<exists>a b. c # cs = a @ p @ b"
      by (metis append_Nil strip_prefix_Some_iff)
    with Some show ?thesis by simp
  qed
qed

lemma contains_text_iff [text_simps]: "contains_text p s \<longleftrightarrow> (\<exists>a b. s = a @ p @ b)"
  by (simp add: contains_text_def split_once_None_iff)

lemma contains_single_char [text_simps]: "contains_text [c] s \<longleftrightarrow> c \<in> set s"
  unfolding contains_text_iff in_set_conv_decomp by simp

lemma split_once_char:
  "c \<notin> set a \<Longrightarrow> split_once [c] (a @ c # b) = Some (a, b)"
  by (induction a) (auto simp: strip_prefix_def)

subsection \<open>Numbers in text\<close>

definition digits_val :: "string \<Rightarrow> nat" where
  "digits_val ds = foldl (\<lambda>n d. 10 * n + digit_val d) 0 ds"

fun show_nat :: "nat \<Rightarrow> string" where
  "show_nat n = (if n < 10 then [char_of (48 + n)] else show_nat (n div 10) @ [char_of (48 + n mod 10)])"

declare show_nat.simps [simp del]

lemma show_nat_digits: "\<forall>c \<in> set (show_nat n). is_digit c"
proof (induction n rule: show_nat.induct)
  case (1 n)
  then show ?case by (subst show_nat.simps) (auto simp: is_digit_def Let_def)
qed

lemma show_nat_not_Nil [simp]: "show_nat n \<noteq> []"
  by (subst show_nat.simps) simp

lemma digits_val_show: "digits_val (show_nat n) = n"
proof (induction n rule: show_nat.induct)
  case (1 n)
  then show ?case
    by (subst show_nat.simps) (auto simp: digits_val_def digit_val_def)
qed

lemma digit_not_ws: "is_digit c \<Longrightarrow> \<not> is_ws c"
  by (auto simp: is_digit_def is_ws_def Let_def)

section \<open>Ordered maps\<close>

text \<open>
  The interface of \<open>BTreeMap<String, V>\<close>, as the crates use it: what a lookup returns after
  each update, and what iteration in key order enumerates. The clients' facts are proved
  once, in the locale.
\<close>

locale ordered_map =
  fixes emp :: "'m"
    and get :: "'m \<Rightarrow> string \<Rightarrow> 'v option"
    and ins :: "string \<Rightarrow> 'v \<Rightarrow> 'm \<Rightarrow> 'm"
    and del :: "string \<Rightarrow> 'm \<Rightarrow> 'm"
    and entries :: "'m \<Rightarrow> (string \<times> 'v) list"
    and ok :: "'m \<Rightarrow> bool"
  assumes get_emp: "get emp k = None"
    and get_ins: "get (ins k v m) k' = (if k' = k then Some v else get m k')"
    and get_del: "ok m \<Longrightarrow> get (del k m) k' = (if k' = k then None else get m k')"
    and ok_emp: "ok emp"
    and ok_ins: "ok m \<Longrightarrow> ok (ins k v m)"
    and ok_del: "ok m \<Longrightarrow> ok (del k m)"
    and get_entries: "get m k = map_of (entries m) k"
    and entries_sorted: "ok m \<Longrightarrow> sorted_wrt (<) (map fst (entries m))"
    and entries_ext: "ok m \<Longrightarrow> ok m' \<Longrightarrow> (\<And>k. get m k = get m' k) \<Longrightarrow> m = m'"
begin

lemma get_extend:
  "get (foldl (\<lambda>m kv. ins (fst kv) (snd kv) m) m kvs) k =
     (case map_of (rev kvs) k of Some v \<Rightarrow> Some v | None \<Rightarrow> get m k)"
  by (induction kvs arbitrary: m)
    (auto simp: get_ins map_add_def split: option.splits)

lemma ok_extend: "ok m \<Longrightarrow> ok (foldl (\<lambda>m kv. ins (fst kv) (snd kv) m) m kvs)"
  by (induction kvs arbitrary: m) (auto simp: ok_ins)

lemma ins_ins_same: "ok m \<Longrightarrow> ins k v (ins k w m) = ins k v m"
  by (rule entries_ext) (auto simp: ok_ins get_ins)

lemma ins_commute: "ok m \<Longrightarrow> k \<noteq> k' \<Longrightarrow> ins k v (ins k' w m) = ins k' w (ins k v m)"
  by (rule entries_ext) (auto simp: ok_ins get_ins)

lemma del_ins_absent: "ok m \<Longrightarrow> get m k = None \<Longrightarrow> del k (ins k v m) = m"
  by (rule entries_ext) (auto simp: ok_ins ok_del get_ins get_del)

lemma keys_get: "k \<in> fst ` set (entries m) \<longleftrightarrow> get m k \<noteq> None"
  by (simp add: get_entries map_of_eq_None_iff)

lemma entries_distinct: "ok m \<Longrightarrow> distinct (map fst (entries m))"
  using entries_sorted strict_sorted_iff by blast

lemma entries_get: "ok m \<Longrightarrow> (k, v) \<in> set (entries m) \<longleftrightarrow> get m k = Some v"
  by (simp add: get_entries entries_distinct map_of_eq_Some_iff)

end

text \<open>
  The model: an association list with strictly increasing keys, so that iteration is in key
  order. Keys are compared by scalar value, which is the order of their UTF-8 encodings.
\<close>

type_synonym 'v btree = "(string \<times> 'v) list"

abbreviation bt_ok :: "'v btree \<Rightarrow> bool" where
  "bt_ok m \<equiv> sorted_wrt (<) (map fst m)"

abbreviation bt_get :: "'v btree \<Rightarrow> string \<Rightarrow> 'v option" where
  "bt_get \<equiv> map_of"

fun bt_insert :: "string \<Rightarrow> 'v \<Rightarrow> 'v btree \<Rightarrow> 'v btree" where
  "bt_insert k v [] = [(k, v)]"
| "bt_insert k v ((k', v') # m) =
     (if k < k' then (k, v) # (k', v') # m
      else if k = k' then (k, v) # m
      else (k', v') # bt_insert k v m)"

definition bt_remove :: "string \<Rightarrow> 'v btree \<Rightarrow> 'v btree" where
  "bt_remove k m = filter (\<lambda>kv. fst kv \<noteq> k) m"

definition bt_extend :: "'v btree \<Rightarrow> (string \<times> 'v) list \<Rightarrow> 'v btree" where
  "bt_extend m kvs = foldl (\<lambda>m kv. bt_insert (fst kv) (snd kv) m) m kvs"

lemma set_bt_insert: "kv \<in> set (bt_insert k v m) \<Longrightarrow> kv = (k, v) \<or> kv \<in> set m"
  by (induction k v m rule: bt_insert.induct) (auto split: if_splits)

lemma bt_get_insert [btree_simps]:
  "bt_get (bt_insert k v m) k' = (if k' = k then Some v else bt_get m k')"
  by (induction k v m rule: bt_insert.induct) auto

lemma keys_bt_insert [btree_simps]: "fst ` set (bt_insert k v m) = insert k (fst ` set m)"
  by (induction k v m rule: bt_insert.induct) auto

lemma bt_ok_insert [btree_simps]: "bt_ok m \<Longrightarrow> bt_ok (bt_insert k v m)"
proof (induction k v m rule: bt_insert.induct)
  case (2 k v k' v' m)
  have "\<forall>x \<in> set (map fst (bt_insert k v m)). k' < x" if "k' < k"
    using 2(2) that by (auto simp flip: image_set simp: keys_bt_insert)
  with 2 show ?case by (auto simp: not_less_iff_gr_or_eq)
qed simp

lemma bt_get_remove [btree_simps]:
  "bt_get (bt_remove k m) k' = (if k' = k then None else bt_get m k')"
  by (induction m) (auto simp: bt_remove_def)

lemma bt_ok_filter: "bt_ok m \<Longrightarrow> bt_ok (filter P m)"
  by (induction m) auto

lemma bt_ok_remove [btree_simps]: "bt_ok m \<Longrightarrow> bt_ok (bt_remove k m)"
  by (simp add: bt_remove_def bt_ok_filter)

lemma bt_ok_map [btree_simps]: "bt_ok (map (\<lambda>(k, v). (k, f k v)) m) = bt_ok m"
  by (simp add: comp_def case_prod_unfold)

lemma bt_get_map [btree_simps]:
  "bt_get (map (\<lambda>(k, v). (k, f v)) m) k = map_option f (bt_get m k)"
  by (induction m) auto

lemma bt_ok_distinct: "bt_ok m \<Longrightarrow> distinct (map fst m)"
  using strict_sorted_iff by blast

lemma bt_hd_less: "bt_ok ((k, v) # m) \<Longrightarrow> bt_get m j = Some w \<Longrightarrow> k < j"
  by (auto dest!: map_of_SomeD)

lemma bt_ext:
  "bt_ok m \<Longrightarrow> bt_ok m' \<Longrightarrow> (\<And>k. bt_get m k = bt_get m' k) \<Longrightarrow> m = m'"
proof (induction m arbitrary: m')
  case Nil
  then have "map_of m' = Map.empty" by (simp add: fun_eq_iff)
  then show ?case by simp
next
  case (Cons kv m)
  obtain k v where kv: "kv = (k, v)" by (cases kv)
  from Cons.prems(3)[of k] kv obtain j w n where m': "m' = (j, w) # n"
    by (cases m') auto
  have "k = j"
  proof (rule ccontr)
    assume "k \<noteq> j"
    with Cons.prems(3)[of k] Cons.prems(3)[of j] kv m'
    have "bt_get n k = Some v" "bt_get m j = Some w" by auto
    then have "j < k" "k < j"
      using Cons.prems(1,2) unfolding kv m' by (blast intro: bt_hd_less)+
    then show False by simp
  qed
  moreover from this Cons.prems(3)[of k] kv m' have "v = w" by simp
  moreover have "bt_get m i = bt_get n i" for i
  proof (cases "i = k")
    case True
    have "bt_get m k = None" "bt_get n k = None"
      using Cons.prems(1,2) kv m' \<open>k = j\<close> by (force simp: map_of_eq_None_iff)+
    with True show ?thesis by simp
  next
    case False
    with Cons.prems(3)[of i] kv m' \<open>k = j\<close> show ?thesis by simp
  qed
  then have "m = n" using Cons.IH[of n] Cons.prems(1,2) kv m' by auto
  ultimately show ?case using kv m' by simp
qed

interpretation bt: ordered_map "[]" bt_get bt_insert bt_remove "\<lambda>m. m" bt_ok
  by unfold_locales (auto simp: btree_simps intro: bt_ext)

definition bt_collect :: "(string \<times> 'v) list \<Rightarrow> 'v btree" where
  "bt_collect kvs = bt_extend [] kvs"

lemma bt_get_extend [btree_simps]:
  "bt_get (bt_extend m kvs) k = (case map_of (rev kvs) k of Some v \<Rightarrow> Some v | None \<Rightarrow> bt_get m k)"
  unfolding bt_extend_def by (rule bt.get_extend)

lemma bt_ok_extend [btree_simps]: "bt_ok m \<Longrightarrow> bt_ok (bt_extend m kvs)"
  unfolding bt_extend_def by (rule bt.ok_extend)

lemma bt_ok_collect [btree_simps]: "bt_ok (bt_collect kvs)"
  by (simp add: bt_collect_def bt_ok_extend)

lemma map_of_rev: "distinct (map fst m) \<Longrightarrow> map_of (rev m) k = map_of m k"
  using map_of_inject_set [of "rev m" m] by (simp flip: rev_map)

lemma bt_get_collect [btree_simps]: "bt_get (bt_collect kvs) k = map_of (rev kvs) k"
  by (simp add: bt_collect_def bt_get_extend split: option.splits)

lemma bt_collect_sorted [btree_simps]: "bt_ok m \<Longrightarrow> bt_collect m = m"
  by (rule bt_ext) (simp_all add: bt_ok_collect bt_get_collect map_of_rev bt_ok_distinct)

lemma set_bt_collect: "set (bt_collect kvs) \<subseteq> set kvs"
proof -
  have "set (bt_extend m kvs) \<subseteq> set m \<union> set kvs" for m :: "'a btree"
  proof (induction kvs arbitrary: m)
    case (Cons kv kvs)
    have "set (bt_insert (fst kv) (snd kv) m) \<subseteq> insert kv (set m)"
      by (auto dest!: set_bt_insert)
    with Cons [of "bt_insert (fst kv) (snd kv) m"] show ?case by (auto simp: bt_extend_def)
  qed (simp add: bt_extend_def)
  from this [of "[]"] show ?thesis by (simp add: bt_collect_def)
qed

end
