(* ===== verification/Figment.thy ===== *)
theory Figment imports Prelude "HOL-Library.Word" begin

text \<open>
  The types of the loading backend that the crate's own code constructs and matches on: the
  value tree \<open>figment::value::Value\<close> with its numbers, its two empties and its provenance
  tags, as \<open>value.rs\<close>, \<open>layer.rs\<close> and \<open>snapshot.rs\<close> spell them, and the IEEE 754
  patterns behind \<open>f32\<close> and \<open>f64\<close>.

  The backend's operations (merging providers, selecting a profile, looking a path up) are
  not defined here: they are the parameters of the theory \<open>Backend\<close>.
  \<open>usize\<close> and \<open>isize\<close> are 64 bits wide.
\<close>

section \<open>Floating-point bit patterns\<close>

type_synonym f64 = "64 word"
type_synonym f32 = "32 word"

definition f64_exponent :: "f64 \<Rightarrow> nat" where
  "f64_exponent b = unat (take_bit 11 (drop_bit 52 b))"

definition f64_mantissa :: "f64 \<Rightarrow> nat" where
  "f64_mantissa b = unat (take_bit 52 b)"

definition f64_is_nan :: "f64 \<Rightarrow> bool" where
  "f64_is_nan b \<longleftrightarrow> f64_exponent b = 2047 \<and> f64_mantissa b \<noteq> 0"

text \<open>The \<open>==\<close> of \<open>f64\<close>: no NaN equals anything, and the two zeros are equal.\<close>

definition f64_eq :: "f64 \<Rightarrow> f64 \<Rightarrow> bool" where
  "f64_eq a b \<longleftrightarrow> \<not> f64_is_nan a \<and> \<not> f64_is_nan b \<and>
     (a = b \<or> (take_bit 63 a = 0 \<and> take_bit 63 b = 0))"

lemma f64_eq_refl_iff: "f64_eq a a \<longleftrightarrow> \<not> f64_is_nan a"
  by (auto simp: f64_eq_def)

lemma f64_eq_sym: "f64_eq a b \<Longrightarrow> f64_eq b a"
  by (auto simp: f64_eq_def)

text \<open>
  \<open>n as f64\<close> for a positive integer: round to nearest, ties to even. \<open>width\<close> is the number
  of bits below the leading one.
\<close>

fun top_bit :: "nat \<Rightarrow> nat" where
  "top_bit n = (if n < 2 then 0 else Suc (top_bit (n div 2)))"

declare top_bit.simps [simp del]

definition round_half_even :: "nat \<Rightarrow> nat \<Rightarrow> nat" where
  "round_half_even n d =
     (let q = n div d; r = n mod d in
      if 2 * r < d then q else if d < 2 * r then Suc q else if even q then q else Suc q)"

definition nat_to_f64 :: "nat \<Rightarrow> f64" where
  "nat_to_f64 n =
     (if n = 0 then 0
      else
        let e = top_bit n;
            m = (if e \<le> 52 then n * 2 ^ (52 - e) else round_half_even n (2 ^ (e - 52)))
        in of_nat (m + (e + 1022) * 2 ^ 52))"

text \<open>
  \<open>f64::from(f32)\<close>: exact on every number. A NaN keeps its sign and payload; its quiet bit
  is set.
\<close>

definition f32_to_f64 :: "f32 \<Rightarrow> f64" where
  "f32_to_f64 b =
     (let s = unat (drop_bit 31 b);
          e = unat (take_bit 8 (drop_bit 23 b));
          m = unat (take_bit 23 b)
      in of_nat (s * 2 ^ 63) +
         (if e = 255 then of_nat (2047 * 2 ^ 52 + (if m = 0 then 0 else 2 ^ 51 + (m mod 2 ^ 22) * 2 ^ 29))
          else if e = 0 then
            (if m = 0 then 0
             else let t = top_bit m in
               of_nat ((t + 874) * 2 ^ 52 + (m * 2 ^ (52 - t) - 2 ^ 52)))
          else of_nat ((e + 896) * 2 ^ 52 + m * 2 ^ 29)))"

section \<open>The backend's value tree\<close>

datatype fnum =
    U8 "8 word" | U16 "16 word" | U32 "32 word" | U64 "64 word" | U128 "128 word"
  | USize "64 word"
  | I8 "8 word" | I16 "16 word" | I32 "32 word" | I64 "64 word" | I128 "128 word"
  | ISize "64 word"
  | F32 f32 | F64 f64

datatype fempty = FNone | FUnit

text \<open>
  A tag records which provider supplied a value. The crate itself writes only the default
  one; the backend's own tags are opaque.
\<close>

datatype tag = Default_tag | Provider_tag nat

datatype fvalue =
    FString tag string
  | FChar tag char
  | FBool tag bool
  | FNum tag fnum
  | FEmpty tag fempty
  | FDict tag "(string \<times> fvalue) list"
  | FArray tag "fvalue list"

type_synonym dict = "fvalue btree"

fun is_fdict :: "fvalue \<Rightarrow> bool" where
  "is_fdict (FDict _ _) = True"
| "is_fdict _ = False"

text \<open>A tree whose tables are ordered maps, at every level.\<close>

fun fvalue_ok :: "fvalue \<Rightarrow> bool" where
  "fvalue_ok (FDict _ d) \<longleftrightarrow> bt_ok d \<and> (\<forall>kv \<in> set d. fvalue_ok (snd kv))"
| "fvalue_ok (FArray _ vs) \<longleftrightarrow> (\<forall>v \<in> set vs. fvalue_ok v)"
| "fvalue_ok _ \<longleftrightarrow> True"

definition dict_ok :: "dict \<Rightarrow> bool" where
  "dict_ok d \<longleftrightarrow> bt_ok d \<and> (\<forall>kv \<in> set d. fvalue_ok (snd kv))"

lemma dict_ok_Nil [simp]: "dict_ok []"
  by (simp add: dict_ok_def)

lemma fvalue_ok_FDict [simp]: "fvalue_ok (FDict t d) = dict_ok d"
  by (simp add: dict_ok_def)

lemma dict_ok_get: "dict_ok d \<Longrightarrow> bt_get d k = Some v \<Longrightarrow> fvalue_ok v"
  by (auto simp: dict_ok_def dest!: map_of_SomeD)

lemma dict_ok_insert: "dict_ok d \<Longrightarrow> fvalue_ok v \<Longrightarrow> dict_ok (bt_insert k v d)"
  unfolding dict_ok_def by (auto simp: bt_ok_insert dest!: set_bt_insert)

declare fvalue_ok.simps(1) [simp del]

section \<open>Walking the tree\<close>

fun fwalk :: "fvalue \<Rightarrow> string list \<Rightarrow> fvalue option" where
  "fwalk v [] = Some v"
| "fwalk (FDict _ d) (s # ss) = (case bt_get d s of None \<Rightarrow> None | Some w \<Rightarrow> fwalk w ss)"
| "fwalk _ (s # ss) = None"

abbreviation dict_at :: "dict \<Rightarrow> string list \<Rightarrow> fvalue option" where
  "dict_at d p \<equiv> fwalk (FDict Default_tag d) p"

lemma fwalk_tag: "p \<noteq> [] \<Longrightarrow> fwalk (FDict t d) p = dict_at d p"
  by (cases p) auto

lemma fwalk_not_dict: "\<not> is_fdict v \<Longrightarrow> fwalk v (s # ss) = None"
  by (cases v) auto

lemma fwalk_append: "fwalk v (p @ q) = (case fwalk v p of None \<Rightarrow> None | Some w \<Rightarrow> fwalk w q)"
  by (induction v p rule: fwalk.induct) (auto split: option.splits)

lemma fwalk_ok: "fvalue_ok v \<Longrightarrow> fwalk v p = Some w \<Longrightarrow> fvalue_ok w"
  by (induction v p rule: fwalk.induct) (auto split: option.splits dest: dict_ok_get)

lemma is_fdict_iff: "is_fdict v \<longleftrightarrow> (\<exists>t d. v = FDict t d)"
  by (cases v) auto

end
