(* ===== verification/Errors.thy ===== *)
theory Errors imports Prelude begin

text \<open>
  \<open>dynamic-config/src/error.rs\<close>: the crate's one error type, its categories, and the origins
  a value is traced back to. A path is a list of segments, outermost first.
\<close>

datatype error_kind =
    KIo | KParse | KMissing | KType | KEnv | KInvalid | KRemote | KAuth | KDecrypt | KBackend

fun kind_as_str :: "error_kind \<Rightarrow> string" where
  "kind_as_str KIo = ''io''"
| "kind_as_str KParse = ''parse''"
| "kind_as_str KMissing = ''missing''"
| "kind_as_str KType = ''type''"
| "kind_as_str KEnv = ''env''"
| "kind_as_str KInvalid = ''invalid''"
| "kind_as_str KRemote = ''remote''"
| "kind_as_str KAuth = ''auth''"
| "kind_as_str KDecrypt = ''decrypt''"
| "kind_as_str KBackend = ''backend''"

datatype origin =
    OFile string | OEnv string | OInline | ORemote string | ORuntime string | OUnknown

fun origin_display :: "origin \<Rightarrow> string" where
  "origin_display (OFile path) = ''in '' @ path"
| "origin_display (OEnv name) = ''from '' @ name"
| "origin_display OInline = ''in an inline source''"
| "origin_display (ORemote store) = ''from '' @ store"
| "origin_display (ORuntime layer) = ''set as '' @ layer"
| "origin_display OUnknown = ''origin unknown''"

record error =
  err_kind :: error_kind
  err_path :: "string list"
  err_origin :: origin
  err_message :: string

definition error_new :: "error_kind \<Rightarrow> string \<Rightarrow> error" where
  "error_new kind message =
     \<lparr>err_kind = kind, err_path = [], err_origin = OUnknown, err_message = message\<rparr>"

definition prepend_key :: "string \<Rightarrow> error \<Rightarrow> error" where
  "prepend_key key e = e\<lparr>err_path := key # err_path e\<rparr>"

definition with_origin :: "origin \<Rightarrow> error \<Rightarrow> error" where
  "with_origin origin e = (if err_origin e = OUnknown then e\<lparr>err_origin := origin\<rparr> else e)"

definition path_of :: "error \<Rightarrow> string" where
  "path_of e = join_with ''.'' (err_path e)"

definition error_unsupported :: "string \<Rightarrow> error" where
  "error_unsupported path =
     with_origin (OFile path)
       (error_new KBackend
          (''the extension names no supported format; expected `.json`, `.toml`, '' @
           ''`.yaml` or `.yml`''))"

definition error_display :: "error \<Rightarrow> string" where
  "error_display e =
     (if err_path e = [] then err_message e else path_of e @ '': '' @ err_message e) @
     (if err_origin e \<noteq> OUnknown then '' ('' @ origin_display (err_origin e) @ '')'' else [])"

definition ok_or_invalid :: "(string, 'a) result \<Rightarrow> (error, unit) result" where
  "ok_or_invalid outcome =
     (case outcome of Inl e \<Rightarrow> Inl (error_new KInvalid e) | Inr _ \<Rightarrow> Inr ())"

lemma with_origin_first: "with_origin a (with_origin b e) = with_origin (if b = OUnknown then a else b) e"
  by (simp add: with_origin_def)

lemma error_new_simps [simp]:
  "err_kind (error_new k m) = k" "err_path (error_new k m) = []"
  "err_origin (error_new k m) = OUnknown" "err_message (error_new k m) = m"
  by (simp_all add: error_new_def)

lemma prepend_key_simps [simp]:
  "err_kind (prepend_key k e) = err_kind e" "err_path (prepend_key k e) = k # err_path e"
  "err_origin (prepend_key k e) = err_origin e" "err_message (prepend_key k e) = err_message e"
  by (simp_all add: prepend_key_def)

lemma with_origin_simps [simp]:
  "err_kind (with_origin a e) = err_kind e" "err_path (with_origin a e) = err_path e"
  "err_message (with_origin a e) = err_message e"
  "err_origin (with_origin a e) = (if err_origin e = OUnknown then a else err_origin e)"
  by (simp_all add: with_origin_def)

end
