(* ===== verification/Backend.thy ===== *)
theory Backend imports Figment Errors "HOL-Library.Sublist" begin

text \<open>
  The loading backend (the \<open>figment\<close> crate) as the loader sees it. Its types are those the
  loader's code names: a provider with its metadata and its data, an error with its kind and
  path. Its operations are the fields of the record \<open>backend_ops\<close>, a parameter of every
  definition that merges, selects or looks up.

  What the loader relies on is the locale \<open>backend\<close>, whose assumptions state documented
  behaviour: a new figment is empty, a value that a merged provider supplies displaces what was
  there and is traced to that provider, and a provider that says nothing about a path changes
  nothing about it. They speak only about providers that fill section profiles, so a foreign
  provider that writes the \<open>default\<close> or \<open>global\<close> profile is outside them. The locale is
  interpreted on a reference implementation that merges tables deeply and tags each value
  with its provider.

  A profile compares without regard to ASCII case, so its canonical form is the lower-cased
  text.
\<close>

section \<open>The vocabulary\<close>

datatype md_source = Source_file string | Source_code | Source_custom string

record metadata =
  md_name :: string
  md_source :: "md_source option"

definition metadata_named :: "string \<Rightarrow> metadata" where
  "metadata_named name = \<lparr>md_name = name, md_source = None\<rparr>"

datatype actual =
    A_bool bool | A_unsigned nat | A_signed int | A_float f64 | A_char char | A_str string
  | A_bytes string | A_unit | A_option | A_newtype_struct | A_seq | A_map | A_enum
  | A_unit_variant | A_newtype_variant | A_tuple_variant | A_struct_variant | A_other string

datatype ferror_kind =
    F_message string
  | F_invalid_type actual string
  | F_invalid_value actual string
  | F_missing_field string
  | F_invalid_length nat string
  | F_isize_out_of_range int
  | F_usize_out_of_range nat
  | F_other

record ferror =
  fe_kind :: ferror_kind
  fe_path :: "string list"
  fe_metadata :: "metadata option"
  fe_text :: string

definition ferror_from :: "string \<Rightarrow> ferror" where
  "ferror_from text = \<lparr>fe_kind = F_message text, fe_path = [], fe_metadata = None, fe_text = text\<rparr>"

type_synonym profile = string

definition profile_from :: "string \<Rightarrow> profile" where
  "profile_from name = to_lower name"

definition default_profile :: profile where
  "default_profile = ''default''"

definition global_profile :: profile where
  "global_profile = ''global''"

record provider =
  p_metadata :: metadata
  p_data :: "(ferror, dict btree) result"

record 'f backend_ops =
  fnew :: 'f
  fmerge :: "'f \<Rightarrow> provider \<Rightarrow> 'f"
  fselect :: "'f \<Rightarrow> profile \<Rightarrow> 'f"
  find_value :: "'f \<Rightarrow> string \<Rightarrow> (ferror, fvalue) result"
  find_metadata :: "'f \<Rightarrow> string \<Rightarrow> metadata option"
  extract_dict :: "'f \<Rightarrow> (ferror, dict) result"

definition fcontains :: "'f backend_ops \<Rightarrow> 'f \<Rightarrow> string \<Rightarrow> bool" where
  "fcontains B f path = (case find_value B f path of Inl _ \<Rightarrow> False | Inr _ \<Rightarrow> True)"

section \<open>Sections\<close>

text \<open>\<open>loader/mod.rs\<close>: every section is a profile of its own, out of the way of the backend's two.\<close>

definition section_prefix :: string where
  "section_prefix = ''section:''"

definition section_profile :: "string \<Rightarrow> string" where
  "section_profile key = section_prefix @ key"

abbreviation section_of :: "string \<Rightarrow> profile" where
  "section_of key \<equiv> profile_from (section_profile key)"

definition section_provider :: "metadata \<Rightarrow> string \<Rightarrow> dict \<Rightarrow> provider" where
  "section_provider md key values = \<lparr>p_metadata = md, p_data = Inr [(section_of key, values)]\<rparr>"

definition is_section :: "profile \<Rightarrow> bool" where
  "is_section s \<longleftrightarrow> s \<noteq> default_profile \<and> s \<noteq> global_profile"

lemma section_of_not_backend: "section_of key \<noteq> default_profile" "section_of key \<noteq> global_profile"
  by (simp_all add: profile_from_def section_profile_def section_prefix_def default_profile_def
      global_profile_def to_lower_def lower_char_def)

lemma is_section_of [simp]: "is_section (section_of key)"
  using section_of_not_backend by (simp add: is_section_def)

lemma section_of_eq_iff: "section_of a = section_of b \<longleftrightarrow> eq_ignore_case a b"
  by (simp add: profile_from_def section_profile_def to_lower_def eq_ignore_case_def)

section \<open>What a provider says about a path\<close>

fun untag :: "fvalue \<Rightarrow> fvalue" where
  "untag (FString _ s) = FString Default_tag s"
| "untag (FChar _ c) = FChar Default_tag c"
| "untag (FBool _ b) = FBool Default_tag b"
| "untag (FNum _ n) = FNum Default_tag n"
| "untag (FEmpty _ e) = FEmpty Default_tag e"
| "untag (FDict _ d) = FDict Default_tag (map (\<lambda>(k, v). (k, untag v)) d)"
| "untag (FArray _ vs) = FArray Default_tag (map untag vs)"

lemma is_fdict_untag [simp]: "is_fdict (untag v) = is_fdict v"
  by (cases v) auto

abbreviation path_segments :: "string \<Rightarrow> string list" where
  "path_segments path \<equiv> split_on CHR ''.'' path"

definition usable_path :: "string \<Rightarrow> bool" where
  "usable_path path \<longleftrightarrow> [] \<notin> set (path_segments path)"

text \<open>
  A table supplies a leaf at a path, or it is silent there: nothing at the path and no leaf
  above it.
\<close>

definition dict_supplies :: "dict \<Rightarrow> string list \<Rightarrow> fvalue \<Rightarrow> bool" where
  "dict_supplies d p v \<longleftrightarrow> dict_at d p = Some v \<and> \<not> is_fdict v"

fun dict_silent :: "dict \<Rightarrow> string list \<Rightarrow> bool" where
  "dict_silent d [] = False"
| "dict_silent d [s] = (bt_get d s = None)"
| "dict_silent d (s # ss) =
     (case bt_get d s of None \<Rightarrow> True | Some (FDict _ d') \<Rightarrow> dict_silent d' ss | Some _ \<Rightarrow> False)"

definition section_dict :: "provider \<Rightarrow> profile \<Rightarrow> dict" where
  "section_dict p s = (case p_data p of Inl _ \<Rightarrow> [] | Inr m \<Rightarrow>
     (case bt_get m s of None \<Rightarrow> [] | Some d \<Rightarrow> d))"

definition sectioned :: "provider \<Rightarrow> bool" where
  "sectioned p \<longleftrightarrow> (case p_data p of Inl _ \<Rightarrow> False
     | Inr m \<Rightarrow> bt_ok m \<and> (\<forall>(s, d) \<in> set m. is_section s \<and> dict_ok d))"

lemma dict_silent_Nil [simp]: "p \<noteq> [] \<Longrightarrow> dict_silent [] p"
  by (cases "([] :: dict, p)" rule: dict_silent.cases) auto

lemma sectioned_section_provider [simp]:
  "sectioned (section_provider md key d) \<longleftrightarrow> dict_ok d"
  by (simp add: sectioned_def section_provider_def)

lemma section_dict_section_provider [simp]:
  "section_dict (section_provider md key d) (section_of key') = (if eq_ignore_case key key' then d else [])"
  by (auto simp: section_dict_def section_provider_def section_of_eq_iff eq_ignore_case_def)

lemma section_provider_simps [simp]:
  "p_metadata (section_provider md key d) = md"
  "p_data (section_provider md key d) = Inr [(section_of key, d)]"
  by (simp_all add: section_provider_def)

lemma sectioned_dict_ok: "sectioned p \<Longrightarrow> dict_ok (section_dict p s)"
  by (auto simp: sectioned_def section_dict_def split: sum.splits option.splits dest!: map_of_SomeD)

lemma sectioned_data: "sectioned p \<Longrightarrow> \<exists>m. p_data p = Inr m"
  by (auto simp: sectioned_def split: sum.splits)

section \<open>The contract\<close>

locale backend =
  fixes B :: "'f backend_ops" and good :: "'f \<Rightarrow> bool"
  assumes good_new: "good (fnew B)"
    and good_merge: "good f \<Longrightarrow> sectioned p \<Longrightarrow> good (fmerge B f p)"
    and new_value: "is_section s \<Longrightarrow> usable_path path \<Longrightarrow>
      \<exists>e. find_value B (fselect B (fnew B) s) path = Inl e"
    and new_metadata: "is_section s \<Longrightarrow> usable_path path \<Longrightarrow>
      find_metadata B (fselect B (fnew B) s) path = None"
    and supplied_value: "good f \<Longrightarrow> sectioned p \<Longrightarrow> is_section s \<Longrightarrow> usable_path path \<Longrightarrow>
      dict_supplies (section_dict p s) (path_segments path) v \<Longrightarrow>
      \<exists>w. find_value B (fselect B (fmerge B f p) s) path = Inr w \<and> untag w = untag v"
    and supplied_metadata: "good f \<Longrightarrow> sectioned p \<Longrightarrow> is_section s \<Longrightarrow> usable_path path \<Longrightarrow>
      dict_supplies (section_dict p s) (path_segments path) v \<Longrightarrow>
      find_metadata B (fselect B (fmerge B f p) s) path = Some (p_metadata p)"
    and silent_value: "good f \<Longrightarrow> sectioned p \<Longrightarrow> is_section s \<Longrightarrow> usable_path path \<Longrightarrow>
      dict_silent (section_dict p s) (path_segments path) \<Longrightarrow>
      find_value B (fselect B (fmerge B f p) s) path = find_value B (fselect B f s) path"
    and silent_metadata: "good f \<Longrightarrow> sectioned p \<Longrightarrow> is_section s \<Longrightarrow> usable_path path \<Longrightarrow>
      dict_silent (section_dict p s) (path_segments path) \<Longrightarrow>
      find_metadata B (fselect B (fmerge B f p) s) path = find_metadata B (fselect B f s) path"
    and found_ok: "good f \<Longrightarrow> is_section s \<Longrightarrow> find_value B (fselect B f s) path = Inr v \<Longrightarrow> fvalue_ok v"
    and extracts: "good f \<Longrightarrow> is_section s \<Longrightarrow> \<exists>d. extract_dict B (fselect B f s) = Inr d \<and> dict_ok d"
    and extract_at: "good f \<Longrightarrow> is_section s \<Longrightarrow> usable_path path \<Longrightarrow>
      extract_dict B (fselect B f s) = Inr d \<Longrightarrow>
      map_option untag (dict_at d (path_segments path)) =
        (case find_value B (fselect B f s) path of Inl _ \<Rightarrow> None | Inr v \<Rightarrow> Some (untag v))"
begin

lemma good_fold: "good f \<Longrightarrow> (\<And>p. p \<in> set ps \<Longrightarrow> sectioned p) \<Longrightarrow> good (foldl (fmerge B) f ps)"
  by (induction ps arbitrary: f) (auto intro: good_merge)

text \<open>Providers that say nothing about a path can be left out.\<close>

lemma fold_silent:
  assumes "good f" "is_section s" "usable_path path"
    and "\<And>p. p \<in> set ps \<Longrightarrow> sectioned p \<and> dict_silent (section_dict p s) (path_segments path)"
  shows "find_value B (fselect B (foldl (fmerge B) f ps) s) path = find_value B (fselect B f s) path
    \<and> find_metadata B (fselect B (foldl (fmerge B) f ps) s) path = find_metadata B (fselect B f s) path"
  using assms
proof (induction ps arbitrary: f)
  case (Cons p ps)
  have "sectioned p" "dict_silent (section_dict p s) (path_segments path)" using Cons.prems(4) by auto
  with Cons.IH [of "fmerge B f p"] Cons.prems show ?case
    by (simp add: good_merge silent_value silent_metadata)
qed simp

text \<open>The last provider that supplies a leaf wins, in value and in provenance.\<close>

lemma last_supplier_wins:
  assumes "good f" "is_section s" "usable_path path"
    and "\<And>q. q \<in> set (ps @ p # qs) \<Longrightarrow> sectioned q"
    and "dict_supplies (section_dict p s) (path_segments path) v"
    and "\<And>q. q \<in> set qs \<Longrightarrow> dict_silent (section_dict q s) (path_segments path)"
  shows "(\<exists>w. find_value B (fselect B (foldl (fmerge B) f (ps @ p # qs)) s) path = Inr w \<and> untag w = untag v)
    \<and> find_metadata B (fselect B (foldl (fmerge B) f (ps @ p # qs)) s) path = Some (p_metadata p)"
proof -
  have g: "good (foldl (fmerge B) f ps)" using assms(1,4) by (intro good_fold) auto
  have p: "sectioned p" using assms(4) by auto
  have "good (fmerge B (foldl (fmerge B) f ps) p)" using g p by (rule good_merge)
  then show ?thesis
    using fold_silent [of "fmerge B (foldl (fmerge B) f ps) p" s path qs] assms g p
      supplied_value [of "foldl (fmerge B) f ps" p s path v]
      supplied_metadata [of "foldl (fmerge B) f ps" p s path v] by simp
qed

end

section \<open>A reference implementation\<close>

text \<open>
  Tables merge key by key, anything else replaces; every value carries the index of the
  provider that supplied it. A lookup in a selected figment reads that profile's table.
\<close>

fun fsize :: "fvalue \<Rightarrow> nat" where
  "fsize (FDict _ d) = Suc (sum_list (map (\<lambda>kv. Suc (fsize (snd kv))) d))"
| "fsize _ = 1"

function ref_merge_value :: "fvalue \<Rightarrow> fvalue \<Rightarrow> fvalue"
  and ref_merge_dict :: "dict \<Rightarrow> dict \<Rightarrow> dict" where
  "ref_merge_value a b =
     (case (a, b) of (FDict t x, FDict t' y) \<Rightarrow> FDict t' (ref_merge_dict x y) | (x, y) \<Rightarrow> y)"
| "ref_merge_dict base [] = base"
| "ref_merge_dict base ((k, v) # rest) =
     ref_merge_dict (bt_insert k (case bt_get base k of Some e \<Rightarrow> ref_merge_value e v | None \<Rightarrow> v) base) rest"
  by pat_completeness auto
termination
  by (relation "measure (case_sum (\<lambda>(a, b). fsize b)
        (\<lambda>(base, rest). sum_list (map (\<lambda>kv. Suc (fsize (snd kv))) rest)))") auto

declare ref_merge_value.simps [simp del]

fun retag :: "tag \<Rightarrow> fvalue \<Rightarrow> fvalue" where
  "retag t (FString _ s) = FString t s"
| "retag t (FChar _ c) = FChar t c"
| "retag t (FBool _ b) = FBool t b"
| "retag t (FNum _ n) = FNum t n"
| "retag t (FEmpty _ e) = FEmpty t e"
| "retag t (FDict _ d) = FDict t (map (\<lambda>(k, v). (k, retag t v)) d)"
| "retag t (FArray _ vs) = FArray t (map (retag t) vs)"

fun tag_of :: "fvalue \<Rightarrow> tag" where
  "tag_of (FString t _) = t"
| "tag_of (FChar t _) = t"
| "tag_of (FBool t _) = t"
| "tag_of (FNum t _) = t"
| "tag_of (FEmpty t _) = t"
| "tag_of (FDict t _) = t"
| "tag_of (FArray t _) = t"

record ref_figment =
  rf_metadata :: "metadata list"
  rf_data :: "(ferror, dict btree) result"
  rf_profile :: profile

definition ref_new :: ref_figment where
  "ref_new = \<lparr>rf_metadata = [], rf_data = Inr [], rf_profile = default_profile\<rparr>"

definition ref_dict :: "dict btree \<Rightarrow> profile \<Rightarrow> dict" where
  "ref_dict m s = (case bt_get m s of None \<Rightarrow> [] | Some d \<Rightarrow> d)"

definition retag_dict :: "tag \<Rightarrow> dict \<Rightarrow> dict" where
  "retag_dict t d = map (\<lambda>(k, v). (k, retag t v)) d"

definition ref_merge :: "ref_figment \<Rightarrow> provider \<Rightarrow> ref_figment" where
  "ref_merge f p =
     (case (rf_data f, p_data p) of
        (Inr m, Inr n) \<Rightarrow>
          f\<lparr>rf_metadata := rf_metadata f @ [p_metadata p],
            rf_data := Inr (foldl (\<lambda>m (s, d). bt_insert s
              (ref_merge_dict (ref_dict m s) (retag_dict (Provider_tag (length (rf_metadata f))) d)) m) m n)\<rparr>
      | (Inl _, _) \<Rightarrow> f
      | (_, Inl e) \<Rightarrow> f\<lparr>rf_data := Inl e\<rparr>)"

definition ref_select :: "ref_figment \<Rightarrow> profile \<Rightarrow> ref_figment" where
  "ref_select f s = f\<lparr>rf_profile := s\<rparr>"

definition ref_value :: "ref_figment \<Rightarrow> string \<Rightarrow> (ferror, fvalue) result" where
  "ref_value f path =
     (case rf_data f of Inl e \<Rightarrow> Inl e
      | Inr m \<Rightarrow> ok_or (ferror_from (''missing field `'' @ path @ ''`''))
          (dict_at (ref_dict m (rf_profile f)) (path_segments path)))"

definition ref_metadata :: "ref_figment \<Rightarrow> string \<Rightarrow> metadata option" where
  "ref_metadata f path =
     (case ref_value f path of Inl _ \<Rightarrow> None
      | Inr v \<Rightarrow> (case tag_of v of Default_tag \<Rightarrow> None
          | Provider_tag i \<Rightarrow> if i < length (rf_metadata f) then Some (rf_metadata f ! i) else None))"

definition ref_extract :: "ref_figment \<Rightarrow> (ferror, dict) result" where
  "ref_extract f = (case rf_data f of Inl e \<Rightarrow> Inl e | Inr m \<Rightarrow> Inr (ref_dict m (rf_profile f)))"

definition ref_backend :: "ref_figment backend_ops" where
  "ref_backend = \<lparr>fnew = ref_new, fmerge = ref_merge, fselect = ref_select, find_value = ref_value,
     find_metadata = ref_metadata, extract_dict = ref_extract\<rparr>"

definition ref_good :: "ref_figment \<Rightarrow> bool" where
  "ref_good f \<longleftrightarrow> (case rf_data f of Inl _ \<Rightarrow> False
     | Inr m \<Rightarrow> \<forall>s. dict_ok (ref_dict m s) \<and>
         (\<forall>p v i. dict_at (ref_dict m s) p = Some v \<longrightarrow> tag_of v = Provider_tag i \<longrightarrow>
            i < length (rf_metadata f)))"

lemma ref_merge_value_replaces: "\<not> (is_fdict a \<and> is_fdict b) \<Longrightarrow> ref_merge_value a b = b"
  by (auto simp: ref_merge_value.simps split: fvalue.splits)

lemma ref_merge_value_dicts [simp]: "ref_merge_value (FDict t a) (FDict t' b) = FDict t' (ref_merge_dict a b)"
  by (simp add: ref_merge_value.simps)

lemma ref_merge_dict_get:
  "distinct (map fst d) \<Longrightarrow>
   bt_get (ref_merge_dict base d) k =
     (case bt_get d k of None \<Rightarrow> bt_get base k
      | Some v \<Rightarrow> Some (case bt_get base k of Some e \<Rightarrow> ref_merge_value e v | None \<Rightarrow> v))"
proof (induction d arbitrary: base)
  case (Cons kv d)
  obtain j v where kv: "kv = (j, v)" by (cases kv)
  with Cons.prems have "bt_get d j = None" by (auto simp: map_of_eq_None_iff)
  with Cons kv show ?case by (auto simp: bt_get_insert split: option.splits)
qed simp

lemma ref_merge_ok:
  "fvalue_ok a \<Longrightarrow> fvalue_ok b \<Longrightarrow> fvalue_ok (ref_merge_value a b)"
  "dict_ok base \<Longrightarrow> dict_ok d \<Longrightarrow> dict_ok (ref_merge_dict base d)"
proof (induction a b and base d rule: ref_merge_value_ref_merge_dict.induct)
  case (1 a b)
  then show ?case
    by (cases "is_fdict a \<and> is_fdict b") (auto simp: is_fdict_iff ref_merge_value_replaces)
next
  case (3 base k v rest)
  have tl: "dict_ok rest" "fvalue_ok v" using 3(4) by (auto simp: dict_ok_def)
  have "dict_ok (bt_insert k (case bt_get base k of Some e \<Rightarrow> ref_merge_value e v | None \<Rightarrow> v) base)"
    using 3(1,3) tl by (auto intro!: dict_ok_insert dest: dict_ok_get split: option.splits)
  with 3(2) tl show ?case by simp
qed simp

lemma dict_ok_distinct: "dict_ok d \<Longrightarrow> distinct (map fst d)"
  by (simp add: dict_ok_def bt_ok_distinct)

lemma ref_merge_supplied:
  "dict_ok d \<Longrightarrow> dict_supplies d p v \<Longrightarrow> dict_at (ref_merge_dict base d) p = Some v"
proof (induction p arbitrary: base d)
  case (Cons s ss)
  from Cons.prems(2) obtain w where w: "bt_get d s = Some w" "fwalk w ss = Some v" "\<not> is_fdict v"
    by (auto simp: dict_supplies_def split: option.splits)
  have g: "bt_get (ref_merge_dict base d) s =
      Some (case bt_get base s of Some e \<Rightarrow> ref_merge_value e w | None \<Rightarrow> w)"
    using Cons.prems(1) w(1) by (simp add: ref_merge_dict_get dict_ok_distinct)
  have "fwalk (ref_merge_value e w) ss = Some v" for e
  proof (cases "is_fdict e \<and> is_fdict w")
    case True
    then obtain t a t' b where ab: "e = FDict t a" "w = FDict t' b" by (auto simp: is_fdict_iff)
    show ?thesis
    proof (cases ss)
      case (Cons s' ss')
      have "dict_ok b" using dict_ok_get [OF \<open>dict_ok d\<close> w(1)] ab by simp
      with Cons.IH [of b a] w ab Cons show ?thesis
        by (simp add: dict_supplies_def fwalk_tag [of "s' # ss'"])
    qed (use w ab in auto)
  qed (use w in \<open>auto simp: ref_merge_value_replaces\<close>)
  with w g show ?case by (simp split: option.splits)
qed (auto simp: dict_supplies_def)

lemma dict_silent_at: "dict_silent d p \<Longrightarrow> dict_at d p = None"
  by (induction d p rule: dict_silent.induct) (auto split: option.splits fvalue.splits simp: fwalk_tag)

lemma ref_merge_silent:
  "dict_ok d \<Longrightarrow> dict_silent d p \<Longrightarrow> dict_at (ref_merge_dict base d) p = dict_at base p"
proof (induction d p arbitrary: base rule: dict_silent.induct)
  case (3 d s x xs)
  show ?case
  proof (cases "bt_get d s")
    case None
    with 3(2) show ?thesis by (simp add: ref_merge_dict_get dict_ok_distinct)
  next
    case (Some w)
    with 3(3) obtain t d' where w: "w = FDict t d'" by (cases w) auto
    have ok: "dict_ok d'" using dict_ok_get [OF 3(2) Some] w by simp
    have sil: "dict_silent d' (x # xs)" using 3(3) Some w by simp
    have IH: "dict_at (ref_merge_dict b d') (x # xs) = dict_at b (x # xs)" for b
      using 3(1) [OF Some w ok sil] .
    show ?thesis
    proof (cases "bt_get base s")
      case None
      have "dict_at d' (x # xs) = None"
        using sil by (rule dict_silent_at)
      with None Some w 3(2) show ?thesis by (simp add: ref_merge_dict_get dict_ok_distinct)
    next
      case e: (Some e)
      show ?thesis
      proof (cases "is_fdict e")
        case True
        then obtain t' b where "e = FDict t' b" by (auto simp: is_fdict_iff)
        with e Some w 3(2) IH [of b] show ?thesis by (simp add: ref_merge_dict_get dict_ok_distinct)
      next
        case False
        have "dict_at d' (x # xs) = None" using sil by (rule dict_silent_at)
        with e Some w 3(2) False show ?thesis
          by (simp add: ref_merge_dict_get dict_ok_distinct ref_merge_value_replaces fwalk_not_dict)
      qed
    qed
  qed
qed (auto simp: ref_merge_dict_get dict_ok_distinct split: option.splits)


lemma retag_walk: "fwalk (retag t v) p = map_option (retag t) (fwalk v p)"
proof (induction p arbitrary: v)
  case (Cons s ss)
  then show ?case by (cases v) (simp_all add: bt_get_map split: option.splits)
qed simp

lemma retag_dict_walk: "p \<noteq> [] \<Longrightarrow> dict_at (retag_dict t d) p = map_option (retag t) (dict_at d p)"
  using retag_walk [of t "FDict t d" p] fwalk_tag [of p t d] fwalk_tag [of p t "retag_dict t d"]
  by (simp add: retag_dict_def)

lemma is_fdict_retag [simp]: "is_fdict (retag t v) = is_fdict v"
  by (cases v) auto

lemma untag_retag [simp]: "untag (retag t v) = untag v"
  by (induction v) auto

lemma tag_of_retag [simp]: "tag_of (retag t v) = t"
  by (cases v) auto

lemma fvalue_ok_retag: "fvalue_ok v \<Longrightarrow> fvalue_ok (retag t v)"
proof (induction v)
  case (FDict t' d)
  then show ?case by (fastforce simp: dict_ok_def comp_def case_prod_unfold)
qed auto

lemma dict_ok_retag: "dict_ok d \<Longrightarrow> dict_ok (retag_dict t d)"
  using fvalue_ok_retag [of "FDict t d" t] by (simp add: retag_dict_def)

lemma dict_silent_retag: "dict_silent (retag_dict t d) p = dict_silent d p"
  by (induction d p rule: dict_silent.induct)
    (auto simp: retag_dict_def bt_get_map split: option.splits fvalue.splits)

lemma dict_supplies_retag:
  "p \<noteq> [] \<Longrightarrow> dict_supplies d p v \<Longrightarrow> dict_supplies (retag_dict t d) p (retag t v)"
  by (simp add: dict_supplies_def retag_dict_walk)

lemma ref_merge_tags:
  "dict_ok d \<Longrightarrow> p \<noteq> [] \<Longrightarrow> dict_at (ref_merge_dict base d) p = Some v \<Longrightarrow>
   \<exists>u. (dict_at base p = Some u \<or> dict_at d p = Some u) \<and> tag_of v = tag_of u"
proof (induction p arbitrary: base d)
  case (Cons s ss)
  note get = ref_merge_dict_get [OF dict_ok_distinct [OF Cons.prems(1)], of base s]
  show ?case
  proof (cases "bt_get d s")
    case None
    with Cons.prems(3) get show ?thesis by (auto split: option.splits)
  next
    case w: (Some w)
    show ?thesis
    proof (cases "bt_get base s")
      case None
      with w Cons.prems(3) get show ?thesis by (auto split: option.splits)
    next
      case e: (Some e)
      with w Cons.prems(3) get have v: "fwalk (ref_merge_value e w) ss = Some v" by simp
      show ?thesis
      proof (cases "is_fdict e \<and> is_fdict w")
        case True
        then obtain t a t' b where ab: "e = FDict t a" "w = FDict t' b" by (auto simp: is_fdict_iff)
        show ?thesis
        proof (cases ss)
          case Nil
          with v ab e w show ?thesis by auto
        next
          case ss: (Cons x xs)
          have "dict_ok b" using dict_ok_get [OF Cons.prems(1) w] ab by simp
          with Cons.IH [of b a] v ab ss e w show ?thesis by (simp add: fwalk_tag [of "x # xs"])
        qed
      next
        case False
        with v w show ?thesis by (auto simp: ref_merge_value_replaces)
      qed
    qed
  qed
qed simp

lemma ref_dict_insert: "ref_dict (bt_insert s d m) s' = (if s' = s then d else ref_dict m s')"
  by (simp add: ref_dict_def bt_get_insert)

lemma ref_merge_fold:
  "distinct (map fst n) \<Longrightarrow>
   ref_dict (foldl (\<lambda>m (s, d). bt_insert s (ref_merge_dict (ref_dict m s) (retag_dict t d)) m) m n) s =
     ref_merge_dict (ref_dict m s) (retag_dict t (ref_dict n s))"
proof (induction n arbitrary: m)
  case Nil
  then show ?case by (simp add: ref_dict_def retag_dict_def)
next
  case (Cons sd n)
  obtain s' d where sd: "sd = (s', d)" by (cases sd)
  with Cons.prems have "s = s' \<Longrightarrow> ref_dict n s = []"
    by (auto simp: ref_dict_def map_of_eq_None_iff split: option.splits)
      (metis image_eqI fst_conv map_of_SomeD)
  with Cons sd show ?case by (auto simp: ref_dict_insert) (simp_all add: ref_dict_def retag_dict_def)
qed

lemma ref_good_data: "ref_good f \<Longrightarrow> \<exists>m. rf_data f = Inr m \<and> (\<forall>s. dict_ok (ref_dict m s))"
  by (auto simp: ref_good_def split: sum.splits)

lemma ref_merge_data:
  assumes "rf_data f = Inr m" "sectioned p"
  shows "\<exists>m'. rf_data (ref_merge f p) = Inr m' \<and> (\<forall>s. ref_dict m' s =
    ref_merge_dict (ref_dict m s) (retag_dict (Provider_tag (length (rf_metadata f))) (section_dict p s)))"
proof -
  obtain n where n: "p_data p = Inr n" using sectioned_data [OF assms(2)] by blast
  then have "bt_ok n" using assms(2) by (simp add: sectioned_def)
  then have d: "distinct (map fst n)" by (rule bt_ok_distinct)
  have "section_dict p s = ref_dict n s" for s by (simp add: section_dict_def ref_dict_def n)
  with assms(1) n ref_merge_fold [OF d] show ?thesis by (simp add: ref_merge_def)
qed

lemma ref_good_merge: "ref_good f \<Longrightarrow> sectioned p \<Longrightarrow> ref_good (ref_merge f p)"
proof -
  assume f: "ref_good f" and p: "sectioned p"
  obtain m where m: "rf_data f = Inr m" "\<And>s. dict_ok (ref_dict m s)" using ref_good_data [OF f] by blast
  let ?t = "Provider_tag (length (rf_metadata f))"
  obtain m' where m': "rf_data (ref_merge f p) = Inr m'"
    "\<And>s. ref_dict m' s = ref_merge_dict (ref_dict m s) (retag_dict ?t (section_dict p s))"
    using ref_merge_data [OF m(1) p] by blast
  have d: "dict_ok (retag_dict ?t (section_dict p s))" for s
    using p by (intro dict_ok_retag sectioned_dict_ok)
  have len: "length (rf_metadata (ref_merge f p)) = Suc (length (rf_metadata f))"
    using m(1) sectioned_data [OF p] by (auto simp: ref_merge_def)
  have "i < Suc (length (rf_metadata f))"
    if at: "dict_at (ref_dict m' s) q = Some v" and tag: "tag_of v = Provider_tag i" for s q v i
  proof (cases q)
    case Nil
    with at tag show ?thesis by auto
  next
    case (Cons x xs)
    then obtain u where u: "dict_at (ref_dict m s) q = Some u \<or>
        dict_at (retag_dict ?t (section_dict p s)) q = Some u" "tag_of v = tag_of u"
      using ref_merge_tags [OF d, of q "ref_dict m s" s v] at m'(2) by auto
    from u(1) show ?thesis
    proof
      assume "dict_at (ref_dict m s) q = Some u"
      with f m(1) tag u(2) show ?thesis by (fastforce simp: ref_good_def)
    next
      assume "dict_at (retag_dict ?t (section_dict p s)) q = Some u"
      with Cons have "map_option (retag ?t) (dict_at (section_dict p s) q) = Some u"
        by (simp only: retag_dict_walk list.distinct not_False_eq_True)
      with tag u(2) show ?thesis by auto
    qed
  qed
  then show ?thesis using m(2) d m' len by (auto simp: ref_good_def ref_merge_ok)
qed

lemma ref_value_at:
  "rf_data f = Inr m \<Longrightarrow> ref_value (ref_select f s) path =
     ok_or (ferror_from (''missing field `'' @ path @ ''`'')) (dict_at (ref_dict m s) (path_segments path))"
  by (simp add: ref_value_def ref_select_def)

lemma ref_metadata_at:
  "rf_data f = Inr m \<Longrightarrow> ref_metadata (ref_select f s) path =
     (case dict_at (ref_dict m s) (path_segments path) of None \<Rightarrow> None
      | Some v \<Rightarrow> (case tag_of v of Default_tag \<Rightarrow> None
          | Provider_tag i \<Rightarrow> if i < length (rf_metadata f) then Some (rf_metadata f ! i) else None))"
proof -
  have "rf_metadata (ref_select f s) = rf_metadata f" by (simp add: ref_select_def)
  then show "rf_data f = Inr m \<Longrightarrow> ?thesis"
    by (simp add: ref_metadata_def ref_value_at ok_or_def split: option.splits tag.splits)
qed

lemma ref_merge_metadata:
  "rf_data f = Inr m \<Longrightarrow> sectioned p \<Longrightarrow> rf_metadata (ref_merge f p) = rf_metadata f @ [p_metadata p]"
  using sectioned_data [of p] by (auto simp: ref_merge_def)

lemma ref_merge_supplies:
  assumes "ref_good f" "sectioned p" "dict_supplies (section_dict p s) (path_segments path) v"
  shows "\<exists>w. ref_value (ref_select (ref_merge f p) s) path = Inr w \<and> untag w = untag v \<and>
      ref_metadata (ref_select (ref_merge f p) s) path = Some (p_metadata p)"
proof -
  obtain m where m: "rf_data f = Inr m" "\<And>s. dict_ok (ref_dict m s)" using ref_good_data [OF assms(1)] by blast
  let ?t = "Provider_tag (length (rf_metadata f))"
  obtain m' where m': "rf_data (ref_merge f p) = Inr m'"
    "\<And>s. ref_dict m' s = ref_merge_dict (ref_dict m s) (retag_dict ?t (section_dict p s))"
    using ref_merge_data [OF m(1) assms(2)] by blast
  have "dict_at (ref_dict m' s) (path_segments path) = Some (retag ?t v)"
    unfolding m'(2) using assms(2,3)
    by (intro ref_merge_supplied dict_ok_retag sectioned_dict_ok dict_supplies_retag) auto
  then show ?thesis
    by (simp add: ref_value_at [OF m'(1)] ref_metadata_at [OF m'(1)] ref_merge_metadata [OF m(1) assms(2)])
qed

lemma ref_merge_quiet:
  assumes "ref_good f" "sectioned p" "dict_silent (section_dict p s) (path_segments path)"
  shows "ref_value (ref_select (ref_merge f p) s) path = ref_value (ref_select f s) path \<and>
    ref_metadata (ref_select (ref_merge f p) s) path = ref_metadata (ref_select f s) path"
proof -
  obtain m where m: "rf_data f = Inr m" using ref_good_data [OF assms(1)] by blast
  let ?t = "Provider_tag (length (rf_metadata f))"
  obtain m' where m': "rf_data (ref_merge f p) = Inr m'"
    "\<And>s. ref_dict m' s = ref_merge_dict (ref_dict m s) (retag_dict ?t (section_dict p s))"
    using ref_merge_data [OF m assms(2)] by blast
  have at: "dict_at (ref_dict m' s) (path_segments path) = dict_at (ref_dict m s) (path_segments path)"
    unfolding m'(2) using assms(2,3)
    by (intro ref_merge_silent dict_ok_retag sectioned_dict_ok) (simp_all add: dict_silent_retag)
  have "i < length (rf_metadata f)"
    if "dict_at (ref_dict m s) (path_segments path) = Some v" "tag_of v = Provider_tag i" for v i
    using assms(1) m that unfolding ref_good_def by fastforce
  then show ?thesis
    by (auto simp: ref_value_at [OF m'(1)] ref_value_at [OF m] ref_metadata_at [OF m'(1)] ref_metadata_at [OF m]
        ref_merge_metadata [OF m assms(2)] at nth_append split: option.splits tag.splits
        dest: less_SucI)
qed

interpretation ref: backend ref_backend ref_good
proof (unfold_locales, goal_cases)
  case 1
  have "dict_at [] p = Some v \<Longrightarrow> tag_of v = Default_tag" for p v
    by (cases p) auto
  then show ?case by (auto simp: ref_backend_def ref_good_def ref_new_def ref_dict_def)
next
  case (2 f p)
  then show ?case by (simp add: ref_backend_def ref_good_merge)
next
  case (3 s path)
  then show ?case
    by (cases "path_segments path")
      (auto simp: ref_backend_def ref_select_def ref_new_def ref_value_def ref_dict_def)
next
  case (4 s path)
  then show ?case
    by (cases "path_segments path")
      (auto simp: ref_backend_def ref_select_def ref_new_def ref_value_def ref_metadata_def ref_dict_def)
next
  case (5 f p s path v)
  then show ?case using ref_merge_supplies [of f p s path v] by (auto simp: ref_backend_def)
next
  case (6 f p s path v)
  then show ?case using ref_merge_supplies [of f p s path v] by (auto simp: ref_backend_def)
next
  case (7 f p s path)
  then show ?case using ref_merge_quiet [of f p s path] by (auto simp: ref_backend_def)
next
  case (8 f p s path)
  then show ?case using ref_merge_quiet [of f p s path] by (auto simp: ref_backend_def)
next
  case (9 f s path v)
  obtain m where m: "rf_data f = Inr m" "\<And>s. dict_ok (ref_dict m s)" using ref_good_data [OF 9(1)] by blast
  have "fvalue_ok (FDict Default_tag (ref_dict m s))" using m(2) by simp
  moreover have "dict_at (ref_dict m s) (path_segments path) = Some v"
    using 9(3) by (simp add: ref_backend_def ref_value_at [OF m(1)] ok_or_def split: option.splits)
  ultimately show ?case by (rule fwalk_ok)
next
  case (10 f s)
  then show ?case using ref_good_data [of f]
    by (auto simp: ref_backend_def ref_extract_def ref_select_def)
next
  case (11 f s path d)
  then show ?case using ref_good_data [of f]
    by (auto simp: ref_backend_def ref_extract_def ref_select_def ref_value_def ok_or_def
        split: option.splits)
qed

end
