(* ===== verification/Values.thy ===== *)
theory Values imports Figment begin

text \<open>
  \<open>dynamic-config/src/value.rs\<close>: the owned mirror of the resolved configuration tree.

  The type \<open>cvalue\<close> with its accessors, the dotted-path walk, the listing of leaf paths,
  the deep merge, the overlap report, the hash stream, the shape-only \<open>Debug\<close> output, the
  serde visitor and serializer, and the walks from and to the backend's tree.

  An \<open>i128\<close> is an \<open>int\<close>; \<open>value_ok\<close> says that every integer is in range and every table is
  an ordered map, and every operation is proved to keep it.
\<close>

section \<open>The tree\<close>

datatype cvalue =
    Null
  | Bool bool
  | Integer int
  | Float f64
  | String string
  | Array "cvalue list"
  | Table "(string \<times> cvalue) list"

type_synonym table = "cvalue btree"

definition i64_ok :: "int \<Rightarrow> bool" where
  "i64_ok n \<longleftrightarrow> -(2 ^ 63) \<le> n \<and> n < 2 ^ 63"

definition u64_ok :: "int \<Rightarrow> bool" where
  "u64_ok n \<longleftrightarrow> 0 \<le> n \<and> n < 2 ^ 64"

definition i128_ok :: "int \<Rightarrow> bool" where
  "i128_ok n \<longleftrightarrow> -(2 ^ 127) \<le> n \<and> n < 2 ^ 127"

lemma i64_i128: "i64_ok n \<Longrightarrow> i128_ok n"
  by (simp add: i64_ok_def i128_ok_def)

lemma u64_i128: "u64_ok n \<Longrightarrow> i128_ok n"
  by (simp add: u64_ok_def i128_ok_def)

fun value_ok :: "cvalue \<Rightarrow> bool" where
  "value_ok (Integer n) \<longleftrightarrow> i128_ok n"
| "value_ok (Array vs) \<longleftrightarrow> (\<forall>v \<in> set vs. value_ok v)"
| "value_ok (Table t) \<longleftrightarrow> bt_ok t \<and> (\<forall>kv \<in> set t. value_ok (snd kv))"
| "value_ok _ \<longleftrightarrow> True"

fun is_table :: "cvalue \<Rightarrow> bool" where
  "is_table (Table _) = True"
| "is_table _ = False"

lemma is_table_iff: "is_table v \<longleftrightarrow> (\<exists>t. v = Table t)"
  by (cases v) auto

definition table_ok :: "table \<Rightarrow> bool" where
  "table_ok t \<longleftrightarrow> value_ok (Table t)"

lemma table_ok_Nil [simp]: "table_ok []"
  by (simp add: table_ok_def)

lemma table_ok_bt: "table_ok t \<Longrightarrow> bt_ok t"
  by (simp add: table_ok_def)

lemma table_ok_get: "table_ok t \<Longrightarrow> bt_get t k = Some v \<Longrightarrow> value_ok v"
  by (auto simp: table_ok_def dest!: map_of_SomeD)

lemma table_ok_insert: "table_ok t \<Longrightarrow> value_ok v \<Longrightarrow> table_ok (bt_insert k v t)"
  by (auto simp: table_ok_def bt_ok_insert dest!: set_bt_insert)

lemma table_ok_tl: "table_ok (kv # t) \<Longrightarrow> table_ok t \<and> value_ok (snd kv)"
  by (auto simp: table_ok_def)

section \<open>Reading by path\<close>

fun walk :: "cvalue \<Rightarrow> string list \<Rightarrow> cvalue option" where
  "walk v [] = Some v"
| "walk (Table t) (s # ss) =
     (case bt_get t s of None \<Rightarrow> None | Some w \<Rightarrow> walk w ss)"
| "walk _ (s # ss) = None"

definition value_get :: "cvalue \<Rightarrow> string \<Rightarrow> cvalue option" where
  "value_get v path = (if path = [] then Some v else walk v (split_on CHR ''.'' path))"

lemma walk_append: "walk v (p @ q) = (case walk v p of None \<Rightarrow> None | Some w \<Rightarrow> walk w q)"
  by (induction v p rule: walk.induct) (auto split: option.splits)

lemma walk_nontable: "\<not> is_table v \<Longrightarrow> walk v (s # ss) = None"
  by (cases v) auto

lemma walk_ok: "value_ok v \<Longrightarrow> walk v p = Some w \<Longrightarrow> value_ok w"
  by (induction v p rule: walk.induct)
    (auto split: option.splits dest!: map_of_SomeD)

section \<open>Accessors\<close>

fun as_bool :: "cvalue \<Rightarrow> bool option" where
  "as_bool (Bool b) = Some b"
| "as_bool _ = None"

fun as_integer :: "cvalue \<Rightarrow> int option" where
  "as_integer (Integer n) = Some n"
| "as_integer _ = None"

definition try_i64 :: "int \<Rightarrow> int option" where
  "try_i64 n = (if i64_ok n then Some n else None)"

definition try_u64 :: "int \<Rightarrow> int option" where
  "try_u64 n = (if u64_ok n then Some n else None)"

definition as_i64 :: "cvalue \<Rightarrow> int option" where
  "as_i64 v = Option.bind (as_integer v) try_i64"

definition as_u64 :: "cvalue \<Rightarrow> int option" where
  "as_u64 v = Option.bind (as_integer v) try_u64"

fun as_float :: "cvalue \<Rightarrow> f64 option" where
  "as_float (Float b) = Some b"
| "as_float _ = None"

fun as_str :: "cvalue \<Rightarrow> string option" where
  "as_str (String s) = Some s"
| "as_str _ = None"

fun as_array :: "cvalue \<Rightarrow> cvalue list option" where
  "as_array (Array vs) = Some vs"
| "as_array _ = None"

fun as_table :: "cvalue \<Rightarrow> table option" where
  "as_table (Table t) = Some t"
| "as_table _ = None"

section \<open>Leaf paths\<close>

text \<open>
  The out-parameter \<open>found\<close> of the source is the result; \<open>path\<close> is the stack of keys.
\<close>

fun leaves :: "cvalue \<Rightarrow> string list \<Rightarrow> string list list" where
  "leaves (Table t) path =
     (if t \<noteq> [] then concat (map (\<lambda>kv. leaves (snd kv) (path @ [fst kv])) t) else [path])"
| "leaves v path = [path]"

definition leaf_paths :: "cvalue \<Rightarrow> string list" where
  "leaf_paths v =
     (case v of
        Table t \<Rightarrow> concat (map (\<lambda>kv. map (join_with ''.'') (leaves (snd kv) [fst kv])) t)
      | _ \<Rightarrow> [])"

fun is_leaf :: "cvalue \<Rightarrow> bool" where
  "is_leaf (Table t) = (t = [])"
| "is_leaf _ = True"

section \<open>Merging\<close>

fun tree_size :: "cvalue \<Rightarrow> nat" where
  "tree_size (Table t) = Suc (sum_list (map (\<lambda>kv. Suc (tree_size (snd kv))) t))"
| "tree_size _ = 1"

function value_merge :: "cvalue \<Rightarrow> cvalue \<Rightarrow> cvalue"
  and merge_entries :: "table \<Rightarrow> table \<Rightarrow> table" where
  "value_merge self other =
     (case (self, other) of
        (Table base, Table overlay) \<Rightarrow> Table (merge_entries base overlay)
      | (base, overlay) \<Rightarrow> overlay)"
| "merge_entries base [] = base"
| "merge_entries base ((k, v) # rest) =
     merge_entries
       (case bt_get base k of
          Some existing \<Rightarrow> bt_insert k (value_merge existing v) base
        | None \<Rightarrow> bt_insert k v base) rest"
  by pat_completeness auto
termination
  by (relation "measure (case_sum (\<lambda>(a, b). tree_size b)
        (\<lambda>(base, rest). sum_list (map (\<lambda>kv. Suc (tree_size (snd kv))) rest)))") auto

declare value_merge.simps [simp del]

lemma value_merge_tables [simp]:
  "value_merge (Table a) (Table b) = Table (merge_entries a b)"
  by (simp add: value_merge.simps)

lemma value_merge_replaces: "\<not> (is_table a \<and> is_table b) \<Longrightarrow> value_merge a b = b"
  by (auto simp: value_merge.simps split: cvalue.splits)

section \<open>Overlaps\<close>

fun overlaps :: "cvalue \<Rightarrow> cvalue \<Rightarrow> string list \<Rightarrow> string list list" where
  "overlaps (Table left) right path =
     (case right of
        Table r \<Rightarrow>
          concat (map (\<lambda>kv. case bt_get r (fst kv) of
                              None \<Rightarrow> []
                            | Some other \<Rightarrow> overlaps (snd kv) other (path @ [fst kv])) left)
      | _ \<Rightarrow> [path])"
| "overlaps left right path = [path]"

definition overlapping_paths :: "cvalue \<Rightarrow> cvalue \<Rightarrow> string list" where
  "overlapping_paths self other = sort (map (join_with ''.'') (overlaps self other []))"

section \<open>What a merge does\<close>

lemma merge_entries_get:
  "distinct (map fst ov) \<Longrightarrow>
   bt_get (merge_entries base ov) k =
     (case bt_get ov k of
        None \<Rightarrow> bt_get base k
      | Some v \<Rightarrow> Some (case bt_get base k of Some e \<Rightarrow> value_merge e v | None \<Rightarrow> v))"
proof (induction ov arbitrary: base)
  case (Cons kv ov)
  obtain j v where kv: "kv = (j, v)" by (cases kv)
  with Cons.prems have "bt_get ov j = None" by (auto simp: map_of_eq_None_iff)
  with Cons kv show ?case
    by (auto simp: bt_get_insert split: option.splits)
qed simp

lemma merge_entries_bt_ok: "bt_ok base \<Longrightarrow> bt_ok (merge_entries base ov)"
proof (induction ov arbitrary: base)
  case (Cons kv ov)
  then show ?case by (cases kv) (auto simp: bt_ok_insert split: option.splits)
qed simp

lemma merge_ok_aux:
  "value_ok a \<Longrightarrow> value_ok b \<Longrightarrow> value_ok (value_merge a b)"
  "table_ok base \<Longrightarrow> table_ok rest \<Longrightarrow> table_ok (merge_entries base rest)"
proof (induction a b and base rest rule: value_merge_merge_entries.induct)
  case (1 a b)
  then show ?case
    by (cases "is_table a \<and> is_table b")
      (auto simp: is_table_iff table_ok_def value_merge_replaces)
next
  case (3 base k v rest)
  note split_tl = table_ok_tl [OF 3(4)]
  have "table_ok (case bt_get base k of
          Some existing \<Rightarrow> bt_insert k (value_merge existing v) base
        | None \<Rightarrow> bt_insert k v base)"
    using 3 split_tl by (auto intro!: table_ok_insert dest: table_ok_get split: option.splits)
  with 3(2) split_tl show ?case by simp
qed simp

fun blocked :: "cvalue \<Rightarrow> string list \<Rightarrow> bool" where
  "blocked v [] = False"
| "blocked (Table t) (s # ss) =
     (case bt_get t s of None \<Rightarrow> False | Some w \<Rightarrow> blocked w ss)"
| "blocked _ (s # ss) = True"

lemma blocked_nontable: "\<not> is_table v \<Longrightarrow> p \<noteq> [] \<Longrightarrow> blocked v p"
  by (cases v; cases p) auto

lemma walk_Some_not_blocked: "walk v p = Some w \<Longrightarrow> \<not> blocked v p"
  by (induction v p rule: walk.induct) (auto split: option.splits)

lemma merge_walk:
  "value_ok a \<Longrightarrow> value_ok b \<Longrightarrow>
   walk (value_merge a b) p =
     (case walk b p of
        Some w \<Rightarrow> Some (case walk a p of Some u \<Rightarrow> value_merge u w | None \<Rightarrow> w)
      | None \<Rightarrow> if blocked b p then None else walk a p)"
proof (induction p arbitrary: a b)
  case (Cons s ss)
  show ?case
  proof (cases "is_table a \<and> is_table b")
    case True
    then obtain ta tb where t: "a = Table ta" "b = Table tb" by (auto simp: is_table_iff)
    with Cons.prems have ok: "table_ok ta" "table_ok tb" by (simp_all add: table_ok_def)
    then have get: "bt_get (merge_entries ta tb) s =
        (case bt_get tb s of None \<Rightarrow> bt_get ta s
         | Some v \<Rightarrow> Some (case bt_get ta s of Some e \<Rightarrow> value_merge e v | None \<Rightarrow> v))"
      by (simp add: merge_entries_get table_ok_bt bt_ok_distinct)
    have "value_ok x" if "bt_get ta s = Some x \<or> bt_get tb s = Some x" for x
      using ok that by (auto dest: table_ok_get)
    then show ?thesis
      by (auto simp: t get Cons.IH split: option.splits)
  next
    case False
    then show ?thesis
      by (cases "is_table b")
        (auto simp: value_merge_replaces walk_nontable blocked_nontable split: option.splits
           dest: walk_Some_not_blocked)
  qed
qed simp

lemma walk_ext: "(\<And>p. walk a p = walk b p) \<Longrightarrow> a = b"
  by (metis option.inject walk.simps(1))

lemma merge_entries_ext:
  assumes "table_ok a" "table_ok b" "bt_ok c"
    and "\<And>k. (case bt_get b k of
        None \<Rightarrow> bt_get a k
      | Some v \<Rightarrow> Some (case bt_get a k of Some e \<Rightarrow> value_merge e v | None \<Rightarrow> v)) = bt_get c k"
  shows "merge_entries a b = c"
  using assms
  by (intro bt_ext) (auto simp: merge_entries_get merge_entries_bt_ok table_ok_bt bt_ok_distinct)

lemma merge_idem: "value_ok a \<Longrightarrow> value_merge a a = a"
proof (induction a)
  case (Table t)
  have ok: "table_ok t" using Table.prems by (simp add: table_ok_def)
  have "value_merge v v = v" if "bt_get t k = Some v" for k v
    using Table.IH [of "(k, v)" v] map_of_SomeD [OF that] table_ok_get [OF ok that] by auto
  then have "merge_entries t t = t"
    by (intro merge_entries_ext) (auto simp: ok table_ok_bt split: option.splits)
  then show ?case by simp
qed (simp_all add: value_merge_replaces)

lemma walk_table_Cons:
  "walk (Table t) (k # q) = Some u \<longleftrightarrow> (\<exists>v. bt_get t k = Some v \<and> walk v q = Some u)"
  by (auto split: option.splits)

lemma overlaps_iff:
  "path' \<in> set (overlaps a b path) \<longleftrightarrow>
     (\<exists>p u w. path' = path @ p \<and> walk a p = Some u \<and> walk b p = Some w \<and>
        \<not> (is_table u \<and> is_table w))"
  if "value_ok a"
  using that
proof (induction a b path arbitrary: path' rule: overlaps.induct)
  case (1 left right path)
  show ?case
  proof (cases right)
    case (Table r)
    have ok: "table_ok left" using 1(2) by (simp add: table_ok_def)
    have d: "(k, v) \<in> set left \<longleftrightarrow> bt_get left k = Some v" for k v
      using ok by (simp add: table_ok_bt bt_ok_distinct map_of_eq_Some_iff)
    have IH: "path' \<in> set (overlaps v other (path @ [k])) \<longleftrightarrow>
        (\<exists>p u w. path' = path @ k # p \<and> walk v p = Some u \<and> walk other p = Some w \<and>
          \<not> (is_table u \<and> is_table w))"
      if "bt_get left k = Some v" "bt_get r k = Some other" for k v other path'
      using 1(1) [OF Table, of "(k, v)" other path'] that table_ok_get [OF ok that(1)]
      by (auto simp: d)
    have "path' \<in> set (overlaps (Table left) right path) \<longleftrightarrow>
        (\<exists>k v other. bt_get left k = Some v \<and> bt_get r k = Some other \<and>
           path' \<in> set (overlaps v other (path @ [k])))"
    proof -
      have "path' \<in> set (overlaps (Table left) right path) \<longleftrightarrow>
          (\<exists>k v. (k, v) \<in> set left \<and> path' \<in> set (case bt_get r k of None \<Rightarrow> []
             | Some other \<Rightarrow> overlaps v other (path @ [k])))"
        using Table by (simp add: Bex_def)
      then show ?thesis unfolding d set_case_option by blast
    qed
    also have "\<dots> \<longleftrightarrow> (\<exists>k v other. bt_get left k = Some v \<and> bt_get r k = Some other \<and>
        (\<exists>p u w. path' = path @ k # p \<and> walk v p = Some u \<and> walk other p = Some w \<and>
          \<not> (is_table u \<and> is_table w)))"
      by (intro ex_cong1 conj_cong refl IH)
    also have "\<dots> \<longleftrightarrow> (\<exists>p u w. path' = path @ p \<and> walk (Table left) p = Some u \<and>
        walk right p = Some w \<and> \<not> (is_table u \<and> is_table w))" (is "?L \<longleftrightarrow> ?R")
    proof
      assume ?L
      then obtain k v other p u w where "path' = path @ k # p" "\<not> (is_table u \<and> is_table w)"
        "walk (Table left) (k # p) = Some u" "walk right (k # p) = Some w"
        unfolding Table walk_table_Cons by blast
      then show ?R by blast
    next
      assume ?R
      then obtain p u w where *: "path' = path @ p" "walk (Table left) p = Some u"
        "walk right p = Some w" "\<not> (is_table u \<and> is_table w)" by blast
      with Table obtain k q where "p = k # q" by (cases p) auto
      with * show ?L unfolding Table \<open>p = k # q\<close> walk_table_Cons by blast
    qed
    finally show ?thesis .
  qed (use 1 in \<open>auto simp: walk_nontable elim!: walk.elims\<close>)
qed (auto elim!: walk.elims)

section \<open>Equality\<close>

fun value_eq :: "cvalue \<Rightarrow> cvalue \<Rightarrow> bool"
  and values_eq :: "cvalue list \<Rightarrow> cvalue list \<Rightarrow> bool"
  and table_eq :: "table \<Rightarrow> table \<Rightarrow> bool" where
  "value_eq Null Null = True"
| "value_eq (Bool a) (Bool b) = (a = b)"
| "value_eq (Integer a) (Integer b) = (a = b)"
| "value_eq (Float a) (Float b) = f64_eq a b"
| "value_eq (String a) (String b) = (a = b)"
| "value_eq (Array a) (Array b) = values_eq a b"
| "value_eq (Table a) (Table b) = table_eq a b"
| "value_eq _ _ = False"
| "values_eq [] [] = True"
| "values_eq (a # as) (b # bs) = (value_eq a b \<and> values_eq as bs)"
| "values_eq _ _ = False"
| "table_eq [] [] = True"
| "table_eq ((j, a) # as) ((k, b) # bs) = (j = k \<and> value_eq a b \<and> table_eq as bs)"
| "table_eq _ _ = False"

fun no_nan :: "cvalue \<Rightarrow> bool" where
  "no_nan (Float b) \<longleftrightarrow> \<not> f64_is_nan b"
| "no_nan (Array vs) \<longleftrightarrow> (\<forall>v \<in> set vs. no_nan v)"
| "no_nan (Table t) \<longleftrightarrow> (\<forall>kv \<in> set t. no_nan (snd kv))"
| "no_nan _ \<longleftrightarrow> True"

lemma values_eq_refl: "(\<And>v. v \<in> set vs \<Longrightarrow> value_eq v v) \<Longrightarrow> values_eq vs vs"
  by (induction vs) auto

lemma table_eq_refl: "(\<And>k v. (k, v) \<in> set t \<Longrightarrow> value_eq v v) \<Longrightarrow> table_eq t t"
  by (induction t) fastforce+

lemma value_eq_refl: "no_nan v \<Longrightarrow> value_eq v v"
  by (induction v) (auto simp: f64_eq_refl_iff intro!: values_eq_refl table_eq_refl)

lemma value_eq_shape: "value_eq a b \<Longrightarrow> is_table a = is_table b"
  by (cases a; cases b) auto

lemma table_eq_keys: "table_eq a b \<Longrightarrow> map fst a = map fst b"
  by (induction a arbitrary: b) (force elim: table_eq.elims)+

lemma table_eq_get:
  "table_eq a b \<Longrightarrow> bt_get a k = Some v \<Longrightarrow> \<exists>w. bt_get b k = Some w \<and> value_eq v w"
proof (induction a arbitrary: b)
  case (Cons kv a)
  then show ?case by (cases b; cases kv) (auto split: if_splits)
qed simp

lemma table_eq_iff:
  assumes "bt_ok a" "bt_ok b"
  shows "table_eq a b \<longleftrightarrow>
    (\<forall>k. case (bt_get a k, bt_get b k) of
       (None, None) \<Rightarrow> True | (Some v, Some w) \<Rightarrow> value_eq v w | _ \<Rightarrow> False)"
    (is "_ \<longleftrightarrow> (\<forall>k. ?same a b k)")
proof
  assume eq: "table_eq a b"
  show "\<forall>k. ?same a b k"
  proof
    fix k
    have "(bt_get a k = None) = (bt_get b k = None)"
      using table_eq_keys [OF eq] by (metis image_set map_of_eq_None_iff)
    with table_eq_get [OF eq, of k] show "?same a b k" by (auto split: option.splits)
  qed
next
  assume "\<forall>k. ?same a b k"
  with assms show "table_eq a b"
  proof (induction a arbitrary: b)
    case Nil
    then have "bt_get b = Map.empty" by (auto simp: fun_eq_iff split: option.splits)
    then show ?case by simp
  next
    case (Cons ka a)
    obtain k v where ka: "ka = (k, v)" by (cases ka)
    from Cons.prems(3) [rule_format, of k] ka have "bt_get b k \<noteq> None"
      by (auto split: option.splits)
    then obtain j w b' where b: "b = (j, w) # b'" by (cases b) auto
    have "k = j"
    proof (rule ccontr)
      assume "k \<noteq> j"
      with Cons.prems(3) [rule_format, of k] Cons.prems(3) [rule_format, of j] ka b
      obtain x y where "bt_get b' k = Some x" "bt_get a j = Some y"
        by (auto split: option.splits)
      then have "j < k" "k < j"
        using Cons.prems(1,2) unfolding ka b by (blast intro: bt_hd_less)+
      then show False by simp
    qed
    with Cons.prems(3) [rule_format, of k] ka b have vw: "value_eq v w" by simp
    have absent: "bt_get a k = None" "bt_get b' k = None"
      using Cons.prems(1,2) ka b \<open>k = j\<close> by (force simp: map_of_eq_None_iff)+
    have "?same a b' i" for i
      using Cons.prems(3) [rule_format, of i] absent ka b \<open>k = j\<close>
      by (cases "i = k") (auto split: option.splits if_splits)
    then have "table_eq a b'" using Cons.IH [of b'] Cons.prems(1,2) ka b by simp
    with vw ka b \<open>k = j\<close> show ?case by simp
  qed
qed

section \<open>Hashing\<close>

text \<open>What each \<open>hash\<close> call feeds the hasher, in order.\<close>

datatype hash_token =
    HDiscriminant nat | HBool bool | HI128 int | HU64 f64 | HStr string | HLen nat

fun value_hash :: "cvalue \<Rightarrow> hash_token list" where
  "value_hash Null = [HDiscriminant 0]"
| "value_hash (Bool b) = [HDiscriminant 1, HBool b]"
| "value_hash (Integer n) = [HDiscriminant 2, HI128 n]"
| "value_hash (Float b) = [HDiscriminant 3, HU64 b]"
| "value_hash (String s) = [HDiscriminant 4, HStr s]"
| "value_hash (Array vs) = HDiscriminant 5 # HLen (length vs) # concat (map value_hash vs)"
| "value_hash (Table t) =
     HDiscriminant 6 # HLen (length t) #
       concat (map (\<lambda>kv. HStr (fst kv) # value_hash (snd kv)) t)"

lemma value_hash_list_prefix_free:
  assumes "\<And>v w r s. v \<in> set vs \<Longrightarrow> value_hash v @ r = value_hash w @ s \<Longrightarrow> v = w \<and> r = s"
    and "length vs = length ws"
    and "concat (map value_hash vs) @ r = concat (map value_hash ws) @ s"
  shows "vs = ws \<and> r = s"
  using assms(2,1,3)
proof (induction vs ws arbitrary: r s rule: list_induct2)
  case (Cons v vs w ws)
  have "v = w \<and> concat (map value_hash vs) @ r = concat (map value_hash ws) @ s"
    using Cons.prems(1) [of v "concat (map value_hash vs) @ r" w] Cons.prems(2) by simp
  moreover from this have "vs = ws \<and> r = s"
    by (intro Cons.IH) (use Cons.prems(1) in auto)
  ultimately show ?case by simp
qed simp

lemma value_hash_table_prefix_free:
  assumes "\<And>kv w r s. kv \<in> set t \<Longrightarrow> value_hash (snd kv) @ r = value_hash w @ s \<Longrightarrow> snd kv = w \<and> r = s"
    and "length t = length u"
    and "concat (map (\<lambda>kv. HStr (fst kv) # value_hash (snd kv)) t) @ r =
         concat (map (\<lambda>kv. HStr (fst kv) # value_hash (snd kv)) u) @ s"
  shows "t = u \<and> r = s"
  using assms(2,1,3)
proof (induction t u arbitrary: r s rule: list_induct2)
  case (Cons x xs y ys)
  let ?c = "\<lambda>t. concat (map (\<lambda>kv. HStr (fst kv) # value_hash (snd kv)) t)"
  from Cons.prems(2) have "fst x = fst y"
    "value_hash (snd x) @ ?c xs @ r = value_hash (snd y) @ ?c ys @ s" by simp_all
  moreover from Cons.prems(1) [OF _ this(2)] have "snd x = snd y" "?c xs @ r = ?c ys @ s" by simp_all
  moreover from Cons.IH [OF Cons.prems(1) this(2)] have "xs = ys \<and> r = s" by simp
  ultimately show ?case by (simp add: prod_eq_iff)
qed simp

lemma value_hash_prefix_free: "value_hash a @ r = value_hash b @ s \<Longrightarrow> a = b \<and> r = s"
proof (induction a arbitrary: b r s)
  case (Array vs)
  then obtain ws where "b = Array ws" by (cases b) auto
  with Array show ?case
    using value_hash_list_prefix_free [of vs ws r s] by auto
next
  case (Table t)
  then obtain u where b: "b = Table u" by (cases b) auto
  have "snd kv = w \<and> r = s" if "kv \<in> set t" "value_hash (snd kv) @ r = value_hash w @ s" for kv w r s
    using Table.IH [OF that(1) _ that(2)] by (cases kv) auto
  with b Table.prems show ?case
    using value_hash_table_prefix_free [of t u r s] by auto
next
  case Null then show ?case by (cases b) auto
next
  case (Bool x) then show ?case by (cases b) auto
next
  case (Integer x) then show ?case by (cases b) auto
next
  case (Float x) then show ?case by (cases b) auto
next
  case (String x) then show ?case by (cases b) auto
qed

section \<open>Debug output\<close>

text \<open>The builder calls \<open>fmt\<close> makes: a written string, a list, a map.\<close>

datatype debug_out =
    DWrite string | DList "debug_out list" | DMap "(string \<times> debug_out) list"

fun value_debug :: "cvalue \<Rightarrow> debug_out" where
  "value_debug Null = DWrite ''Null''"
| "value_debug (Bool _) = DWrite ''Bool(***)''"
| "value_debug (Integer _) = DWrite ''Integer(***)''"
| "value_debug (Float _) = DWrite ''Float(***)''"
| "value_debug (String _) = DWrite ''String(***)''"
| "value_debug (Array vs) = DList (map value_debug vs)"
| "value_debug (Table t) = DMap (map (\<lambda>kv. (fst kv, value_debug (snd kv))) t)"

text \<open>A tree with every payload wiped: what may be seen of it.\<close>

fun shape_of :: "cvalue \<Rightarrow> cvalue" where
  "shape_of Null = Null"
| "shape_of (Bool _) = Bool False"
| "shape_of (Integer _) = Integer 0"
| "shape_of (Float _) = Float 0"
| "shape_of (String _) = String []"
| "shape_of (Array vs) = Array (map shape_of vs)"
| "shape_of (Table t) = Table (map (\<lambda>kv. (fst kv, shape_of (snd kv))) t)"

lemma map_eq_map_transfer:
  assumes "map f xs = map f ys" "\<And>x y. x \<in> set xs \<Longrightarrow> f x = f y \<Longrightarrow> g x = g y"
  shows "map g xs = map g ys"
proof (rule nth_equalityI)
  have len: "length xs = length ys" using assms(1) by (rule map_eq_imp_length_eq)
  then show "length (map g xs) = length (map g ys)" by simp
  fix i
  assume "i < length (map g xs)"
  with assms len show "map g xs ! i = map g ys ! i"
    by (metis length_map nth_map nth_mem)
qed

lemma value_debug_shape: "value_debug a = value_debug b \<longleftrightarrow> shape_of a = shape_of b"
proof
  show "shape_of a = shape_of b" if "value_debug a = value_debug b"
    using that
  proof (induction a arbitrary: b)
    case (Array vs)
    then obtain ws where b: "b = Array ws" by (cases b) auto
    from Array.prems b have "map value_debug vs = map value_debug ws" by simp
    then have "map shape_of vs = map shape_of ws"
      by (rule map_eq_map_transfer) (rule Array.IH)
    with b show ?case by simp
  next
    case (Table t)
    then obtain u where b: "b = Table u" by (cases b) auto
    have IH: "shape_of v = shape_of w" if "(k, v) \<in> set t" "value_debug v = value_debug w" for k v w
      using Table.IH [OF that(1) _ that(2)] by simp
    have "map (\<lambda>kv. (fst kv, value_debug (snd kv))) t = map (\<lambda>kv. (fst kv, value_debug (snd kv))) u"
      using Table.prems b by simp
    then have "map (\<lambda>kv. (fst kv, shape_of (snd kv))) t = map (\<lambda>kv. (fst kv, shape_of (snd kv))) u"
      by (rule map_eq_map_transfer) (auto intro: IH)
    with b show ?case by simp
  next
    case Null then show ?case by (cases b) auto
  next
    case (Bool x) then show ?case by (cases b) auto
  next
    case (Integer x) then show ?case by (cases b) auto
  next
    case (Float x) then show ?case by (cases b) auto
  next
    case (String x) then show ?case by (cases b) auto
  qed
next
  have "value_debug (shape_of v) = value_debug v" for v
    by (induction v) auto
  then show "value_debug a = value_debug b" if "shape_of a = shape_of b"
    using that by metis
qed

section \<open>Through serde\<close>

text \<open>The calls a serializer receives, which a self-describing deserializer replays.\<close>

datatype sde =
    SdUnit | SdNone | SdSome sde | SdNewtype sde
  | SdBool bool | SdI64 int | SdU64 int | SdI128 int | SdU128 int | SdF64 f64
  | SdChar char | SdStr string | SdString string
  | SdSeq "sde list" | SdMap "(string \<times> sde) list"

fun visit :: "sde \<Rightarrow> cvalue" where
  "visit (SdBool b) = Bool b"
| "visit (SdI64 n) = Integer n"
| "visit (SdI128 n) = Integer n"
| "visit (SdU64 n) = Integer n"
| "visit (SdU128 n) = (if i128_ok n then Integer n else Float (nat_to_f64 (nat n)))"
| "visit (SdF64 b) = Float b"
| "visit (SdChar c) = String [c]"
| "visit (SdStr s) = String s"
| "visit (SdString s) = String s"
| "visit SdUnit = Null"
| "visit SdNone = Null"
| "visit (SdSome d) = visit d"
| "visit (SdNewtype d) = visit d"
| "visit (SdSeq ds) = Array (map visit ds)"
| "visit (SdMap kvs) = Table (bt_collect (map (\<lambda>kv. (fst kv, visit (snd kv))) kvs))"

fun serialize :: "cvalue \<Rightarrow> sde" where
  "serialize Null = SdUnit"
| "serialize (Bool b) = SdBool b"
| "serialize (Integer n) =
     (case (try_i64 n, try_u64 n) of
        (Some narrow, _) \<Rightarrow> SdI64 narrow
      | (_, Some wide) \<Rightarrow> SdU64 wide
      | _ \<Rightarrow> SdI128 n)"
| "serialize (Float b) = SdF64 b"
| "serialize (String s) = SdStr s"
| "serialize (Array vs) = SdSeq (map serialize vs)"
| "serialize (Table t) = SdMap (map (\<lambda>kv. (fst kv, serialize (snd kv))) t)"

lemma visit_serialize: "value_ok v \<Longrightarrow> visit (serialize v) = v"
proof (induction v)
  case (Table t)
  then have "map (\<lambda>kv. (fst kv, visit (serialize (snd kv)))) t = t"
    by (intro map_idI) force
  with Table.prems show ?case by (simp add: comp_def bt_collect_sorted)
qed (auto simp: try_i64_def try_u64_def map_idI)

section \<open>From and to the backend's tree\<close>

fun num_value :: "fnum \<Rightarrow> cvalue" where
  "num_value (U8 n) = Integer (uint n)"
| "num_value (U16 n) = Integer (uint n)"
| "num_value (U32 n) = Integer (uint n)"
| "num_value (U64 n) = Integer (uint n)"
| "num_value (USize n) = Integer (uint n)"
| "num_value (U128 n) =
     (if i128_ok (uint n) then Integer (uint n) else Float (nat_to_f64 (unat n)))"
| "num_value (I8 n) = Integer (sint n)"
| "num_value (I16 n) = Integer (sint n)"
| "num_value (I32 n) = Integer (sint n)"
| "num_value (I64 n) = Integer (sint n)"
| "num_value (ISize n) = Integer (sint n)"
| "num_value (I128 n) = Integer (sint n)"
| "num_value (F32 b) = Float (f32_to_f64 b)"
| "num_value (F64 b) = Float b"

fun from_figment :: "fvalue \<Rightarrow> cvalue" where
  "from_figment (FString _ s) = String s"
| "from_figment (FChar _ c) = String [c]"
| "from_figment (FBool _ b) = Bool b"
| "from_figment (FNum _ n) = num_value n"
| "from_figment (FEmpty _ _) = Null"
| "from_figment (FDict _ d) = Table (bt_collect (map (\<lambda>kv. (fst kv, from_figment (snd kv))) d))"
| "from_figment (FArray _ vs) = Array (map from_figment vs)"

definition narrowed :: "int \<Rightarrow> fnum" where
  "narrowed n =
     (case try_i64 n of
        Some narrow \<Rightarrow> I64 (word_of_int narrow)
      | None \<Rightarrow> (case try_u64 n of
          Some wide \<Rightarrow> U64 (word_of_int wide)
        | None \<Rightarrow> I128 (word_of_int n)))"

fun to_figment :: "cvalue \<Rightarrow> fvalue" where
  "to_figment Null = FEmpty Default_tag FNone"
| "to_figment (Bool b) = FBool Default_tag b"
| "to_figment (Integer n) = FNum Default_tag (narrowed n)"
| "to_figment (Float b) = FNum Default_tag (F64 b)"
| "to_figment (String s) = FString Default_tag s"
| "to_figment (Array vs) = FArray Default_tag (map to_figment vs)"
| "to_figment (Table t) =
     FDict Default_tag (bt_collect (map (\<lambda>kv. (fst kv, to_figment (snd kv))) t))"

lemma num_value_ok: "value_ok (num_value n)"
  by (cases n) (auto simp: i128_ok_def
      intro: order_trans [OF _ uint_ge_0] order_trans [OF _ sint_ge] less_le_trans [OF uint_lt2p]
        less_le_trans [OF sint_lt])

lemma from_figment_ok: "value_ok (from_figment f)"
proof (induction f)
  case (FDict t d)
  have "value_ok (snd kv)"
    if "kv \<in> set (bt_collect (map (\<lambda>kv. (fst kv, from_figment (snd kv))) d))" for kv
  proof -
    from that set_bt_collect obtain k f where "(k, f) \<in> set d" "kv = (k, from_figment f)"
      by fastforce
    with FDict show ?thesis by auto
  qed
  then show ?case by (simp add: bt_ok_collect)
qed (auto simp: num_value_ok)

lemma sint_of_int_64: "i64_ok n \<Longrightarrow> sint (word_of_int n :: 64 word) = n"
  by (simp add: sint_sbintrunc' i64_ok_def signed_take_bit_int_eq_self)

lemma sint_of_int_128: "i128_ok n \<Longrightarrow> sint (word_of_int n :: 128 word) = n"
  by (simp add: sint_sbintrunc' i128_ok_def signed_take_bit_int_eq_self)

lemma uint_of_int_64: "u64_ok n \<Longrightarrow> uint (word_of_int n :: 64 word) = n"
  by (simp add: uint_word_of_int u64_ok_def)

lemma num_value_narrowed: "i128_ok n \<Longrightarrow> num_value (narrowed n) = Integer n"
  by (simp add: narrowed_def try_i64_def try_u64_def sint_of_int_64 sint_of_int_128 uint_of_int_64)

lemma from_to_figment: "value_ok v \<Longrightarrow> from_figment (to_figment v) = v"
proof (induction v)
  case (Table t)
  let ?t = "map (\<lambda>kv. (fst kv, to_figment (snd kv))) t"
  have ok: "bt_ok ?t" using Table.prems by (simp add: comp_def)
  from Table have "map (\<lambda>kv. (fst kv, from_figment (to_figment (snd kv)))) t = t"
    by (intro map_idI) force
  with Table.prems ok show ?case by (simp add: comp_def bt_collect_sorted)
qed (auto simp: num_value_narrowed map_idI)

lemma to_figment_ok: "value_ok v \<Longrightarrow> fvalue_ok (to_figment v)"
proof (induction v)
  case (Table t)
  let ?t = "map (\<lambda>kv. (fst kv, to_figment (snd kv))) t"
  have "bt_ok ?t" using Table.prems by (simp add: comp_def)
  with Table show ?case by (auto simp: dict_ok_def bt_collect_sorted)
qed auto

section \<open>Leaf paths and overlaps, exactly\<close>

fun keys_clean :: "cvalue \<Rightarrow> bool" where
  "keys_clean (Table t) \<longleftrightarrow>
     (\<forall>kv \<in> set t. fst kv \<noteq> [] \<and> CHR ''.'' \<notin> set (fst kv) \<and> keys_clean (snd kv))"
| "keys_clean _ \<longleftrightarrow> True"

lemma leaves_iff:
  assumes "value_ok v"
  shows "path' \<in> set (leaves v path) \<longleftrightarrow> (\<exists>p w. path' = path @ p \<and> walk v p = Some w \<and> is_leaf w)"
  using assms
proof (induction v path arbitrary: path' rule: leaves.induct)
  case (1 t path)
  have ok: "table_ok t" using 1(2) by (simp add: table_ok_def)
  have d: "(k, v) \<in> set t \<longleftrightarrow> bt_get t k = Some v" for k v
    using ok by (simp add: table_ok_bt bt_ok_distinct map_of_eq_Some_iff)
  show ?case
  proof (cases "t = []")
    case False
    have IH: "path' \<in> set (leaves v (path @ [k])) \<longleftrightarrow>
        (\<exists>p w. path' = path @ k # p \<and> walk v p = Some w \<and> is_leaf w)"
      if "bt_get t k = Some v" for k v
      using 1(1) [OF False, of "(k, v)" path'] that table_ok_get [OF ok that] by (simp add: d)
    have "path' \<in> set (leaves (Table t) path) \<longleftrightarrow>
        (\<exists>k v. (k, v) \<in> set t \<and> path' \<in> set (leaves v (path @ [k])))"
      using False by force
    also have "\<dots> \<longleftrightarrow> (\<exists>k v. bt_get t k = Some v \<and>
        (\<exists>p w. path' = path @ k # p \<and> walk v p = Some w \<and> is_leaf w))"
      unfolding d by (intro ex_cong1 conj_cong refl IH)
    also have "\<dots> \<longleftrightarrow> (\<exists>p w. path' = path @ p \<and> walk (Table t) p = Some w \<and> is_leaf w)"
      (is "?L \<longleftrightarrow> ?R")
    proof
      assume ?L
      then obtain k v p w where "path' = path @ k # p" "is_leaf w" "walk (Table t) (k # p) = Some w"
        unfolding walk_table_Cons by blast
      then show ?R by blast
    next
      assume ?R
      then obtain p w where *: "path' = path @ p" "walk (Table t) p = Some w" "is_leaf w" by blast
      with False obtain k q where "p = k # q" by (cases p) auto
      with * show ?L unfolding \<open>p = k # q\<close> walk_table_Cons by blast
    qed
    finally show ?thesis .
  qed (auto elim!: walk.elims)
qed (auto elim!: walk.elims)

lemma walk_clean:
  "keys_clean v \<Longrightarrow> walk v p = Some w \<Longrightarrow> s \<in> set p \<Longrightarrow> s \<noteq> [] \<and> CHR ''.'' \<notin> set s"
proof (induction v p rule: walk.induct)
  case (2 t k ks)
  then obtain v where v: "bt_get t k = Some v" by (auto split: option.splits)
  then have "(k, v) \<in> set t" by (rule map_of_SomeD)
  with 2 v show ?case by (auto split: option.splits)
qed auto

lemma value_get_join:
  assumes "keys_clean v" "walk v p = Some w" "p \<noteq> []"
  shows "value_get v (join_with ''.'' p) = Some w" "join_with ''.'' p \<noteq> []"
proof -
  have clean: "s \<noteq> []" "CHR ''.'' \<notin> set s" if "s \<in> set p" for s
    using walk_clean [OF assms(1,2) that] by auto
  show ne: "join_with ''.'' p \<noteq> []"
    using assms(3) clean(1) by (cases p; cases "tl p") auto
  have "split_on CHR ''.'' (join_with ''.'' p) = p"
    using assms(3) clean(2) by (rule split_join)
  with ne assms(2) show "value_get v (join_with ''.'' p) = Some w"
    by (simp add: value_get_def)
qed

lemma leaf_paths_leaves: "t \<noteq> [] \<Longrightarrow> leaf_paths (Table t) = map (join_with ''.'') (leaves (Table t) [])"
  by (simp add: leaf_paths_def map_concat comp_def)

text \<open>C36 (leaf_paths_exact): the paths a configuration lists are exactly the nonempty paths at
  which it holds a leaf, whenever no key is empty or contains a dot.\<close>

theorem leaf_paths_exact:
  assumes "value_ok (Table t)" "keys_clean (Table t)"
  shows "p \<in> set (leaf_paths (Table t)) \<longleftrightarrow>
    p \<noteq> [] \<and> (\<exists>w. value_get (Table t) p = Some w \<and> is_leaf w)"
proof (cases "t = []")
  case True
  then show ?thesis
    by (cases "split_on CHR ''.'' p") (auto simp: leaf_paths_def value_get_def)
next
  case False
  have iff: "p \<in> set (leaf_paths (Table t)) \<longleftrightarrow>
      (\<exists>q w. p = join_with ''.'' q \<and> walk (Table t) q = Some w \<and> is_leaf w)"
    unfolding leaf_paths_leaves [OF False] set_map image_iff Bex_def leaves_iff [OF assms(1)]
    by simp blast
  show ?thesis
  proof
    assume "p \<in> set (leaf_paths (Table t))"
    then obtain q w where q: "p = join_with ''.'' q" "walk (Table t) q = Some w" "is_leaf w"
      by (auto simp: iff)
    with False have "q \<noteq> []" by auto
    from value_get_join [OF assms(2) q(2) this] q(1,3)
    show "p \<noteq> [] \<and> (\<exists>w. value_get (Table t) p = Some w \<and> is_leaf w)" by simp
  next
    assume "p \<noteq> [] \<and> (\<exists>w. value_get (Table t) p = Some w \<and> is_leaf w)"
    then show "p \<in> set (leaf_paths (Table t))"
      unfolding iff value_get_def by (metis join_split)
  qed
qed

theorem leaf_paths_exact_witness:
  "''pool.max'' \<in> set (leaf_paths (Table [(''pool'', Table [(''max'', Integer 8)])])) \<longleftrightarrow>
   ''pool.max'' \<noteq> [] \<and> (\<exists>w. value_get (Table [(''pool'', Table [(''max'', Integer 8)])]) ''pool.max'' = Some w
     \<and> is_leaf w)"
  by (rule leaf_paths_exact) (simp_all add: i128_ok_def)



lemma merge_commutes_aux:
  "value_ok a \<Longrightarrow> value_ok b \<Longrightarrow> overlaps a b path = [] \<Longrightarrow> value_merge a b = value_merge b a"
proof (induction a b path rule: overlaps.induct)
  case (1 left right path)
  then obtain r where r: "right = Table r" by (cases right) auto
  have ok: "table_ok left" "table_ok r" using 1 r by (simp_all add: table_ok_def)
  have "value_merge v w = value_merge w v" if "bt_get left k = Some v" "bt_get r k = Some w" for k v w
  proof -
    have mem: "(k, v) \<in> set left" using that(1) by (rule map_of_SomeD)
    with 1(4) r that(2) have "overlaps v w (path @ [k]) = []" by force
    with 1(1) [OF r mem, of w] that ok show ?thesis by (auto dest: table_ok_get)
  qed
  then have "merge_entries left r = merge_entries r left"
    using ok by (intro merge_entries_ext)
      (auto simp: merge_entries_get merge_entries_bt_ok table_ok_bt bt_ok_distinct
        split: option.splits)
  with r show ?case by simp
qed auto

text \<open>C37 (overlap_report_sound): the overlap report lists exactly the paths both trees supply with
  at least one side not a table, and when it is empty the order of the merge does not matter.\<close>

theorem overlap_report_sound:
  assumes "value_ok a" "value_ok b"
  shows "set (overlapping_paths a b) =
      {join_with ''.'' p |p. \<exists>u w. walk a p = Some u \<and> walk b p = Some w \<and>
         \<not> (is_table u \<and> is_table w)} \<and>
    (overlapping_paths a b = [] \<longrightarrow> value_merge a b = value_merge b a)"
proof
  show "set (overlapping_paths a b) =
      {join_with ''.'' p |p. \<exists>u w. walk a p = Some u \<and> walk b p = Some w \<and>
         \<not> (is_table u \<and> is_table w)}"
    using overlaps_iff [OF assms(1), of _ b "[]"] by (auto simp: overlapping_paths_def image_iff)
  have "overlaps a b [] = []" if "overlapping_paths a b = []"
  proof -
    from that have "set (overlapping_paths a b) = {}" by simp
    then show ?thesis by (simp add: overlapping_paths_def)
  qed
  then show "overlapping_paths a b = [] \<longrightarrow> value_merge a b = value_merge b a"
    using merge_commutes_aux [OF assms] by blast
qed

theorem overlap_report_sound_witness:
  "overlapping_paths (Table [(''a'', Null)]) (Table [(''b'', Null)]) = [] \<and>
   value_merge (Table [(''a'', Null)]) (Table [(''b'', Null)]) =
   value_merge (Table [(''b'', Null)]) (Table [(''a'', Null)])"
proof -
  have e: "overlapping_paths (Table [(''a'', Null)]) (Table [(''b'', Null)]) = []"
    by (simp add: overlapping_paths_def)
  then show ?thesis
    using overlap_report_sound [of "Table [(''a'', Null)]" "Table [(''b'', Null)]"] by simp
qed

text \<open>C38 (value_round_trips): a well-formed tree survives the walk to the backend's tree and back,
  and survives being serialized and deserialized.\<close>

theorem value_round_trips:
  assumes "value_ok v"
  shows "from_figment (to_figment v) = v \<and> visit (serialize v) = v"
  using assms by (simp add: from_to_figment visit_serialize)

theorem value_round_trips_witness:
  "from_figment (to_figment (Table [(''port'', Integer 5432)])) = Table [(''port'', Integer 5432)] \<and>
   visit (serialize (Table [(''port'', Integer 5432)])) = Table [(''port'', Integer 5432)]"
  by (rule value_round_trips) (simp add: i128_ok_def)

text \<open>Also (value_hash_injective): two documents that feed the hasher the same input are the same
  document, and the input of one never continues into the next.\<close>

theorem value_hash_injective:
  "value_hash a @ r = value_hash b @ s \<longleftrightarrow> a = b \<and> r = s"
  using value_hash_prefix_free by blast

text \<open>Also (debug_prints_shape_only): the debug output of a tree is a function of its shape and keys:
  two trees that differ only in their values print the same.\<close>

theorem debug_prints_shape_only:
  "value_debug a = value_debug b \<longleftrightarrow> shape_of a = shape_of b"
  by (rule value_debug_shape)

end
