(* ===== verification/Layers.thy ===== *)
theory Layers imports Values Errors "HOL-Library.Sublist" begin

text \<open>
  \<open>dynamic-config/src/layer.rs\<close>: the runtime layers (defaults, flags, overrides), a map from
  dotted paths to values, and the two functions every other layer shares, \<open>check_path\<close> and
  \<open>insert_path\<close>.

  A method on \<open>&self\<close> takes the layer's map and returns it updated beside its result. The
  lock and its poisoning leave no trace in a single call. A user value arrives as the result
  of serializing it; the backend's reading of text is the parameter \<open>parse\<close>; clap's matches
  are a record of the two questions the code asks them.
\<close>

definition defaults_name :: string where
  "defaults_name = ''values set as defaults''"

definition overrides_name :: string where
  "overrides_name = ''values set as overrides''"

definition flags_name :: string where
  "flags_name = ''values set from the command line''"

definition section_sep :: string where
  "section_sep = ''::''"

section \<open>Paths\<close>

abbreviation segments :: "string \<Rightarrow> string list" where
  "segments path \<equiv> split_on CHR ''.'' path"

definition blank_segment :: "string \<Rightarrow> bool" where
  "blank_segment path \<longleftrightarrow> path = [] \<or> [] \<in> set (segments path)"

definition check_path :: "string \<Rightarrow> (error, unit) result" where
  "check_path path =
     (if blank_segment path then
        Inl (error_new KType (''`'' @ path @ ''` is not a usable key path''))
      else if contains_text section_sep path then
        Inl (error_new KType
          (''`'' @ path @ ''` names another section, and this path is relative to '' @
           ''the section being loaded; `'' @ section_sep @ ''` is only meaningful in the old '' @
           ''path of an alias''))
      else Inr ())"

fun insert_segments :: "dict \<Rightarrow> string list \<Rightarrow> fvalue \<Rightarrow> dict" where
  "insert_segments root [] v = root"
| "insert_segments root [segment] v = bt_insert segment v root"
| "insert_segments root (segment # next # rest) v =
     (let entry = (case bt_get root segment of Some e \<Rightarrow> e | None \<Rightarrow> FDict Default_tag []);
          entry' = (if is_fdict entry then entry else FDict Default_tag [])
      in case entry' of
           FDict t nested \<Rightarrow>
             bt_insert segment (FDict t (insert_segments nested (next # rest) v)) root
         | _ \<Rightarrow> root)"

definition insert_path :: "dict \<Rightarrow> string \<Rightarrow> fvalue \<Rightarrow> dict" where
  "insert_path root path v = insert_segments root (segments path) v"

section \<open>The layer\<close>

type_synonym layer = "fvalue btree"

definition layer_new :: layer where
  "layer_new = []"

definition layer_set :: "layer \<Rightarrow> string \<Rightarrow> (string, fvalue) result \<Rightarrow> layer \<times> (error, unit) result" where
  "layer_set l path serialized =
     (case check_path path of
        Inl e \<Rightarrow> (l, Inl e)
      | Inr _ \<Rightarrow> (case serialized of
          Inl m \<Rightarrow> (l, Inl (prepend_key path (error_new KType m)))
        | Inr v \<Rightarrow> (bt_insert path v l, Inr ())))"

definition layer_set_struct :: "layer \<Rightarrow> (string, fvalue) result \<Rightarrow> layer \<times> (error, unit) result" where
  "layer_set_struct l serialized =
     (case serialized of
        Inl m \<Rightarrow> (l, Inl (error_new KType (''the defaults struct did not serialize: '' @ m)))
      | Inr (FDict _ entries) \<Rightarrow> (bt_extend l entries, Inr ())
      | Inr _ \<Rightarrow> (l, Inl (error_new KType
          ''defaults must be a struct or a map; a bare value has no field name to live under'')))"

definition loose_value :: "(string \<Rightarrow> fvalue option) \<Rightarrow> string \<Rightarrow> fvalue" where
  "loose_value parse text = (case parse text of Some v \<Rightarrow> v | None \<Rightarrow> FString Default_tag text)"

definition layer_set_text ::
  "(string \<Rightarrow> fvalue option) \<Rightarrow> layer \<Rightarrow> string \<Rightarrow> string \<Rightarrow> layer \<times> (error, unit) result" where
  "layer_set_text parse l path text =
     (case check_path path of
        Inl e \<Rightarrow> (l, Inl e)
      | Inr _ \<Rightarrow> (bt_insert path (loose_value parse text) l, Inr ()))"

fun layer_set_assignments ::
  "(string \<Rightarrow> fvalue option) \<Rightarrow> layer \<Rightarrow> string list \<Rightarrow> layer \<times> (error, unit) result" where
  "layer_set_assignments parse l [] = (l, Inr ())"
| "layer_set_assignments parse l (assignment # rest) =
     (case split_once ''='' assignment of
        None \<Rightarrow> (l, Inl (error_new KType (''`'' @ assignment @ ''` is not a `key=value` assignment'')))
      | Some (path, v) \<Rightarrow>
          (case layer_set_text parse l (trim path) v of
             (l', Inl e) \<Rightarrow> (l', Inl e)
           | (l', Inr _) \<Rightarrow> layer_set_assignments parse l' rest))"

record clap_matches =
  from_command_line :: "string \<Rightarrow> bool"
  raw_values :: "string \<Rightarrow> string option list option"

definition utf8 :: "string option \<Rightarrow> string \<Rightarrow> (error, string) result" where
  "utf8 v argument = ok_or (error_new KType (''`--'' @ argument @ ''` is not valid UTF-8'')) v"

fun utf8_all :: "string \<Rightarrow> string option list \<Rightarrow> (error, string list) result" where
  "utf8_all argument [] = Inr []"
| "utf8_all argument (v # vs) =
     and_then (utf8 v argument) (\<lambda>s. and_then (utf8_all argument vs) (\<lambda>ss. Inr (s # ss)))"

definition clap_text :: "string \<Rightarrow> string option list \<Rightarrow> (error, string) result" where
  "clap_text argument raw =
     (case raw of
        [single] \<Rightarrow> utf8 single argument
      | many \<Rightarrow> and_then (utf8_all argument many) (\<lambda>ss. Inr (''['' @ join_with '','' ss @ '']'')))"

fun layer_bind_clap ::
  "(string \<Rightarrow> fvalue option) \<Rightarrow> clap_matches \<Rightarrow> layer \<Rightarrow> (string \<times> string) list \<Rightarrow> layer \<times> (error, unit) result" where
  "layer_bind_clap parse m l [] = (l, Inr ())"
| "layer_bind_clap parse m l ((argument, path) # rest) =
     (if \<not> from_command_line m argument then layer_bind_clap parse m l rest
      else case raw_values m argument of
        None \<Rightarrow> layer_bind_clap parse m l rest
      | Some [] \<Rightarrow> layer_bind_clap parse m l rest
      | Some raw \<Rightarrow>
          (case clap_text argument raw of
             Inl e \<Rightarrow> (l, Inl e)
           | Inr text \<Rightarrow>
               (case layer_set_text parse l path text of
                  (l', Inl e) \<Rightarrow> (l', Inl e)
                | (l', Inr _) \<Rightarrow> layer_bind_clap parse m l' rest)))"

definition layer_unset :: "layer \<Rightarrow> string \<Rightarrow> layer \<times> bool" where
  "layer_unset l path = (bt_remove path l, bt_get l path \<noteq> None)"

definition layer_clear :: "layer \<Rightarrow> layer" where
  "layer_clear l = []"

definition layer_is_empty :: "layer \<Rightarrow> bool" where
  "layer_is_empty l \<longleftrightarrow> l = []"

definition layer_dict :: "layer \<Rightarrow> dict" where
  "layer_dict l = foldl (\<lambda>root kv. insert_path root (fst kv) (snd kv)) [] l"

text \<open>What \<open>Debug\<close> shows: the keys and their number.\<close>

definition layer_debug :: "layer \<Rightarrow> string list \<times> nat" where
  "layer_debug l = (map fst l, length l)"

section \<open>What an insertion changes\<close>

lemma insert_segments_ok: "dict_ok d \<Longrightarrow> fvalue_ok v \<Longrightarrow> dict_ok (insert_segments d p v)"
proof (induction d p v rule: insert_segments.induct)
  case (3 root segment nx rest v)
  define entry where "entry = (case bt_get root segment of Some e \<Rightarrow> e | None \<Rightarrow> FDict Default_tag [])"
  define entry' where "entry' = (if is_fdict entry then entry else FDict Default_tag [])"
  have "fvalue_ok entry'"
    using 3(2) by (auto simp: entry'_def entry_def intro: dict_ok_get split: option.splits)
  with 3(1) [OF entry_def entry'_def] 3(2,3) show ?case
    by (auto simp: Let_def entry_def [symmetric] entry'_def [symmetric] intro!: dict_ok_insert
        split: fvalue.splits)
qed (simp_all add: dict_ok_insert)

lemma insert_segments_deep:
  "insert_segments root (segment # nx # rest) v =
     (let (t, nested) = (case bt_get root segment of Some (FDict t d) \<Rightarrow> (t, d) | _ \<Rightarrow> (Default_tag, []))
      in bt_insert segment (FDict t (insert_segments nested (nx # rest) v)) root)"
  by (auto simp: Let_def split: option.splits fvalue.splits)

declare insert_segments.simps(3) [simp del]

lemma insert_segments_at:
  "p \<noteq> [] \<Longrightarrow> dict_at (insert_segments d p v) (p @ q) = fwalk v q"
proof (induction d p v rule: insert_segments.induct)
  case (3 root segment nx rest v)
  obtain t nested where tn: "(t, nested) =
      (case bt_get root segment of Some (FDict t d) \<Rightarrow> (t, d) | _ \<Rightarrow> (Default_tag, []))"
    by (metis surj_pair)
  have e: "(case bt_get root segment of None \<Rightarrow> FDict Default_tag [] | Some e \<Rightarrow> e) = e \<Longrightarrow>
     (if is_fdict e then e else FDict Default_tag []) = FDict t nested" for e
    using tn by (auto split: option.splits fvalue.splits)
  have "dict_at (insert_segments nested (nx # rest) v) ((nx # rest) @ q) = fwalk v q"
    using 3 e by simp
  then show ?case
    using fwalk_tag [of "nx # rest @ q" t] by (simp add: insert_segments_deep tn [symmetric] bt_get_insert)
qed (simp_all add: bt_get_insert)

lemma insert_segments_apart:
  "\<not> prefix p q \<Longrightarrow> \<not> prefix q p \<Longrightarrow> dict_at (insert_segments d p v) q = dict_at d q"
proof (induction d p v arbitrary: q rule: insert_segments.induct)
  case (2 root segment v)
  then show ?case by (cases q) (auto simp: bt_get_insert)
next
  case (3 root segment nx rest v)
  obtain t nested where tn: "(t, nested) =
      (case bt_get root segment of Some (FDict t d) \<Rightarrow> (t, d) | _ \<Rightarrow> (Default_tag, []))"
    by (metis surj_pair)
  have e: "(if is_fdict e then e else FDict Default_tag []) = FDict t nested"
    if "e = (case bt_get root segment of None \<Rightarrow> FDict Default_tag [] | Some e \<Rightarrow> e)" for e
    using tn that by (auto split: option.splits fvalue.splits)
  obtain s q' where q: "q = s # q'" using 3(3) by (cases q) auto
  show ?case
  proof (cases "s = segment")
    case False
    with q show ?thesis by (simp add: insert_segments_deep tn [symmetric] bt_get_insert)
  next
    case True
    with 3(2,3) q have q': "\<not> prefix (nx # rest) q'" "\<not> prefix q' (nx # rest)" by auto
    then obtain x xs where "q' = x # xs" by (cases q') auto
    then have tag: "fwalk (FDict t m) q' = dict_at m q'" for t m by (simp add: fwalk_tag)
    have "dict_at (insert_segments nested (nx # rest) v) q' = dict_at nested q'"
      using 3(1) [OF refl refl, unfolded e [OF refl]] q' by simp
    moreover have "dict_at nested q' = (case bt_get root segment of None \<Rightarrow> None | Some w \<Rightarrow> fwalk w q')"
      using tn tag \<open>q' = x # xs\<close> by (auto split: option.splits fvalue.splits simp: fwalk_not_dict)
    ultimately show ?thesis
      using True q tag [of t] by (simp add: insert_segments_deep tn [symmetric] bt_get_insert)
  qed
qed simp

lemma insert_segments_under:
  "prefix q p \<Longrightarrow> q \<noteq> p \<Longrightarrow> \<exists>t m. dict_at (insert_segments d p v) q = Some (FDict t m)"
proof (induction d p v arbitrary: q rule: insert_segments.induct)
  case (2 root segment v)
  then show ?case by (cases q) auto
next
  case (3 root segment nx rest v)
  obtain t nested where tn: "(t, nested) =
      (case bt_get root segment of Some (FDict t d) \<Rightarrow> (t, d) | _ \<Rightarrow> (Default_tag, []))"
    by (metis surj_pair)
  have e: "(if is_fdict e then e else FDict Default_tag []) = FDict t nested"
    if "e = (case bt_get root segment of None \<Rightarrow> FDict Default_tag [] | Some e \<Rightarrow> e)" for e
    using tn that by (auto split: option.splits fvalue.splits)
  show ?case
  proof (cases q)
    case (Cons s q')
    with 3(2,3) have q': "s = segment" "prefix q' (nx # rest)" "q' \<noteq> nx # rest" by auto
    have "\<exists>t m. dict_at (insert_segments nested (nx # rest) v) q' = Some (FDict t m)"
      using 3(1) [OF refl refl, unfolded e [OF refl]] q' by simp
    then show ?thesis using Cons q'
      by (cases q') (auto simp: insert_segments_deep tn [symmetric] bt_get_insert fwalk_tag)
  qed auto
qed auto

section \<open>What a layer serves\<close>

lemma list_le_append: "(a :: string) \<le> a @ b"
  by (induction a) auto

lemma join_with_append:
  "a \<noteq> [] \<Longrightarrow> b \<noteq> [] \<Longrightarrow> join_with sep (a @ b) = join_with sep a @ sep @ join_with sep b"
proof (induction a)
  case (Cons x a)
  then show ?case by (cases "a = []") (auto simp: join_with_Cons)
qed simp

lemma segments_prefix_le: "prefix (segments a) (segments b) \<Longrightarrow> a \<le> b"
proof -
  assume "prefix (segments a) (segments b)"
  then obtain r where r: "segments b = segments a @ r" by (auto simp: prefix_def)
  have "b = join_with ''.'' (segments a @ r)" by (metis join_split r)
  also have "\<exists>t. \<dots> = a @ t"
    by (cases "r = []") (auto simp: join_with_append join_split)
  finally show "a \<le> b" using list_le_append by blast
qed

lemma layer_dict_ok: "(\<And>kv. kv \<in> set l \<Longrightarrow> fvalue_ok (snd kv)) \<Longrightarrow> dict_ok (layer_dict l)"
proof -
  have "(\<forall>kv \<in> set l. fvalue_ok (snd kv)) \<Longrightarrow> dict_ok d \<Longrightarrow>
      dict_ok (foldl (\<lambda>root kv. insert_path root (fst kv) (snd kv)) d l)" for d
    by (induction l arbitrary: d) (auto simp: insert_path_def insert_segments_ok)
  then show "(\<And>kv. kv \<in> set l \<Longrightarrow> fvalue_ok (snd kv)) \<Longrightarrow> dict_ok (layer_dict l)"
    by (simp add: layer_dict_def)
qed

lemma fold_apart:
  "(\<And>k. k \<in> fst ` set l \<Longrightarrow> \<not> prefix (segments k) p \<and> \<not> prefix p (segments k)) \<Longrightarrow>
   dict_at (foldl (\<lambda>root kv. insert_path root (fst kv) (snd kv)) d l) p = dict_at d p"
  by (induction l arbitrary: d) (auto simp: insert_path_def insert_segments_apart)

lemma layer_dict_at:
  assumes l: "bt_ok l" and v: "bt_get l p = Some v"
    and under: "\<And>k. k \<in> fst ` set l \<Longrightarrow> prefix (segments p) (segments k) \<Longrightarrow> k = p"
  shows "dict_at (layer_dict l) (segments p) = Some v"
proof -
  obtain l1 l2 where l12: "l = l1 @ (p, v) # l2"
    using map_of_SomeD [OF v] by (meson split_list)
  have "\<not> prefix (segments k) (segments p) \<and> \<not> prefix (segments p) (segments k)"
    if k: "k \<in> fst ` set l2" for k
  proof -
    have "p < k" using l k unfolding l12 by (auto simp: sorted_wrt_append)
    then have "\<not> prefix (segments k) (segments p)" using segments_prefix_le [of k p] by auto
    moreover have "\<not> prefix (segments p) (segments k)"
      using under [of k] k \<open>p < k\<close> unfolding l12 by auto
    ultimately show ?thesis by simp
  qed
  then have "dict_at (layer_dict l) (segments p) =
      dict_at (foldl (\<lambda>root kv. insert_path root (fst kv) (snd kv)) [] (l1 @ [(p, v)])) (segments p)"
    unfolding layer_dict_def l12 foldl_append foldl.simps by (rule fold_apart)
  also have "\<dots> = Some v"
    using insert_segments_at [of "segments p" _ v "[]"] by (simp add: insert_path_def)
  finally show ?thesis .
qed

lemma check_path_ok_iff:
  "check_path p = Inr () \<longleftrightarrow> \<not> blank_segment p \<and> \<not> contains_text section_sep p"
  by (simp add: check_path_def)

lemma check_path_kind: "check_path p = Inl e \<Longrightarrow> err_kind e = KType"
  by (auto simp: check_path_def split: if_splits)

lemma layer_set_ok: "bt_ok l \<Longrightarrow> bt_ok (fst (layer_set l p r))"
  by (auto simp: layer_set_def bt_ok_insert split: sum.splits)

text \<open>
  C34 (set_is_served): \<open>Layer::set\<close> refuses a path with a blank segment or a section separator,
  and a value that did not serialize, and leaves the layer as it was. Otherwise it succeeds, and
  the table the layer builds for the loader holds the value at that path, provided no key of the
  layer reaches inside it; every path that is neither above nor below it keeps what it had.
\<close>

theorem set_is_served:
  assumes "bt_ok l" and "layer_set l p r = (l', outcome)"
  shows "case outcome of
      Inl e \<Rightarrow> l' = l \<and> err_kind e = KType \<and>
        (blank_segment p \<or> contains_text section_sep p \<or> (\<exists>m. r = Inl m))
    | Inr _ \<Rightarrow> \<not> blank_segment p \<and> \<not> contains_text section_sep p \<and> bt_ok l' \<and>
        (\<exists>v. r = Inr v \<and> bt_get l' = (bt_get l)(p \<mapsto> v) \<and>
          ((\<forall>k \<in> fst ` set l. prefix (segments p) (segments k) \<longrightarrow> k = p) \<longrightarrow>
            dict_at (layer_dict l') (segments p) = Some v))"
proof (cases "check_path p")
  case (Inl e)
  then have "blank_segment p \<or> contains_text section_sep p"
    by (simp add: check_path_def split: if_splits)
  moreover have "l' = l" "outcome = Inl e" using assms(2) Inl by (simp_all add: layer_set_def)
  ultimately show ?thesis using check_path_kind [OF Inl] by auto
next
  case (Inr u)
  then have ok: "\<not> blank_segment p" "\<not> contains_text section_sep p"
    by (simp_all add: check_path_def split: if_splits)
  show ?thesis
  proof (cases r)
    case (Inr v)
    have l': "l' = bt_insert p v l" "outcome = Inr ()"
      using assms(2) Inr \<open>check_path p = Inr u\<close> by (simp_all add: layer_set_def)
    have "dict_at (layer_dict (bt_insert p v l)) (segments p) = Some v"
      if "\<forall>k \<in> fst ` set l. prefix (segments p) (segments k) \<longrightarrow> k = p"
      by (rule layer_dict_at) (use assms that in \<open>auto simp: bt_ok_insert bt_get_insert keys_bt_insert\<close>)
    moreover have "bt_get l' = (bt_get l)(p \<mapsto> v)"
      by (simp add: l' bt_get_insert fun_eq_iff)
    ultimately show ?thesis
      using ok Inr bt_ok_insert [OF assms(1)] by (simp add: l')
  qed (use assms Inr in \<open>auto simp: layer_set_def\<close>)
qed

theorem set_is_served_witness:
  "\<exists>l'. layer_set [(''a'', FBool Default_tag True)] ''a.b'' (Inr (FBool Default_tag False)) =
      (l', Inr ()) \<and>
    dict_at (layer_dict l') (segments ''a.b'') = Some (FBool Default_tag False)"
proof -
  have "layer_set [(''a'', FBool Default_tag True)] ''a.b'' (Inr (FBool Default_tag False)) =
      ([(''a'', FBool Default_tag True), (''a.b'', FBool Default_tag False)], Inr ())"
    by (simp add: layer_set_def check_path_def blank_segment_def contains_text_def
        section_sep_def strip_prefix_def)
  from this set_is_served [OF _ this] show ?thesis by simp
qed

section \<open>Assignments\<close>

definition assignment_of :: "string \<Rightarrow> (string \<times> string) option" where
  "assignment_of a =
     (case split_once ''='' a of
        Some (path, v) \<Rightarrow> if check_path (trim path) = Inr () then Some (trim path, v) else None
      | None \<Rightarrow> None)"

lemma set_assignments_step:
  "layer_set_assignments parse l (a # rest) =
     (case assignment_of a of
        Some (p, v) \<Rightarrow> layer_set_assignments parse (bt_insert p (loose_value parse v) l) rest
      | None \<Rightarrow> (l, Inl (case split_once ''='' a of
            None \<Rightarrow> error_new KType (''`'' @ a @ ''` is not a `key=value` assignment'')
          | Some (path, _) \<Rightarrow> projl (check_path (trim path)))))"
  by (auto simp: assignment_of_def layer_set_text_def split: option.splits sum.splits)

text \<open>
  C40 (assignments_apply_in_order): \<open>set_assignments\<close> applies the assignments left to right, a
  later one replacing an earlier one to the same path, and stops at the first that has no
  equals sign or no usable path: those before it stay applied, those after it are not, and it
  returns an error exactly when there is such an assignment.
\<close>

theorem assignments_apply_in_order:
  "fst (layer_set_assignments parse l as) =
     bt_extend l (map (\<lambda>a. case the (assignment_of a) of (p, v) \<Rightarrow> (p, loose_value parse v))
       (takeWhile (\<lambda>a. assignment_of a \<noteq> None) as)) \<and>
   ((\<exists>e. snd (layer_set_assignments parse l as) = Inl e) \<longleftrightarrow>
     (\<exists>a \<in> set as. assignment_of a = None))"
proof (induction as arbitrary: l)
  case Nil
  then show ?case by (simp add: bt_extend_def)
next
  case (Cons a as)
  show ?case
  proof (cases "assignment_of a")
    case None
    then show ?thesis by (auto simp: set_assignments_step bt_extend_def simp del: layer_set_assignments.simps(2))
  next
    case (Some pv)
    obtain p v where "pv = (p, v)" by (cases pv)
    with Some Cons show ?thesis
      by (simp add: set_assignments_step bt_extend_def del: layer_set_assignments.simps(2))
  qed
qed

section \<open>Binding a command line\<close>

text \<open>
  Also (defaults_never_bind): an argument that was not typed on the command line, so one that only
  has clap's own default, leaves the layer alone, whatever values clap reports for it: the
  outcome of \<open>bind_clap\<close> is the one of the list without that argument.
\<close>

theorem defaults_never_bind:
  "layer_bind_clap parse m l pairs =
     layer_bind_clap parse m l (filter (\<lambda>(argument, path). from_command_line m argument \<and>
       raw_values m argument \<noteq> None \<and> raw_values m argument \<noteq> Some []) pairs)"
  by (induction pairs arbitrary: l)
    (auto split: option.splits list.splits sum.splits prod.splits)

text \<open>A single value reaches the layer as its own text; several become one bracketed list.\<close>

lemma clap_text_single: "clap_text argument [Some s] = Inr s"
  by (simp add: clap_text_def utf8_def)

lemma utf8_all_Some: "utf8_all argument (map Some ss) = Inr ss"
  by (induction ss) (simp_all add: utf8_def)

lemma clap_text_many:
  "length ss \<noteq> 1 \<Longrightarrow> clap_text argument (map Some ss) = Inr (''['' @ join_with '','' ss @ '']'')"
  by (auto simp: clap_text_def utf8_all_Some utf8_def split: list.splits)

lemma bind_clap_error_prefix:
  "layer_bind_clap parse m l pairs = (l', Inl e) \<Longrightarrow> err_kind e = KType"
proof (induction pairs arbitrary: l)
  case (Cons ap pairs)
  obtain a p where ap: "ap = (a, p)" by (cases ap)
  have t: "clap_text a raw = Inl e \<Longrightarrow> err_kind e = KType" for raw
  proof -
    have u: "utf8_all a vs = Inl e \<Longrightarrow> err_kind e = KType" for vs
      by (induction vs) (auto simp: utf8_def ok_or_def and_then_def split: option.splits sum.splits)
    assume "clap_text a raw = Inl e"
    then show ?thesis using u
      by (auto simp: clap_text_def utf8_def ok_or_def and_then_def
          split: option.splits sum.splits list.splits)
  qed
  from Cons.prems Cons.IH show ?case
    by (auto simp: ap t layer_set_text_def check_path_kind
        split: if_splits option.splits list.splits sum.splits prod.splits)
qed simp

end
