(* ===== verification/Sources.thy ===== *)
theory Sources imports Backend Layers begin

text \<open>
  \<open>dynamic-config/src/source.rs\<close> and \<open>discovery.rs\<close>: formats, sources, the load
  specification with its builders, and the search for files by name. A path is its text; the
  functions of \<open>std::path\<close> the code calls are written out for Unix paths.

  What a load reads from outside the program is the record \<open>platform\<close>: the backend's operations
  and its file, text and environment providers, the process environment (a name or a value
  that is not UTF-8 is \<open>None\<close>), the file system, the decryption backend, and the features the
  crate was built with. A home directory that is not UTF-8 has no text and is dropped.
\<close>

section \<open>Paths\<close>

definition path_file_name :: "string \<Rightarrow> string option" where
  "path_file_name p =
     (let parts = filter (\<lambda>s. s \<noteq> [] \<and> s \<noteq> ''.'') (split_on CHR ''/'' p) in
      if parts = [] \<or> last parts = ''..'' then None else Some (last parts))"

text \<open>\<open>rsplit_file_at_dot\<close>: the part before the last dot, and the part after it.\<close>

definition split_at_dot :: "string \<Rightarrow> string option \<times> string option" where
  "split_at_dot name =
     (let pieces = split_on CHR ''.'' name in
      if name = ''..'' then (Some name, None)
      else if length pieces = 1 then (None, Some name)
      else let before = join_with ''.'' (butlast pieces) in
        if before = [] then (Some name, None) else (Some before, Some (last pieces)))"

definition path_extension :: "string \<Rightarrow> string option" where
  "path_extension p = Option.bind (path_file_name p) (\<lambda>name.
     case split_at_dot name of (Some _, after) \<Rightarrow> after | (None, _) \<Rightarrow> None)"

definition path_file_stem :: "string \<Rightarrow> string option" where
  "path_file_stem p = Option.bind (path_file_name p) (\<lambda>name.
     case split_at_dot name of (Some before, _) \<Rightarrow> Some before | (None, after) \<Rightarrow> after)"

fun drop_trailing :: "string list \<Rightarrow> string list" where
  "drop_trailing [] = []"
| "drop_trailing [s] = [s]"
| "drop_trailing (s # t # rest) = (if s = [] \<or> s = ''.'' then drop_trailing (t # rest) else s # t # rest)"

definition path_parent_text :: "string \<Rightarrow> string" where
  "path_parent_text p =
     (let above = rev (drop_trailing (tl (drop_trailing (rev (split_on CHR ''/'' p))))) in
      if above = [[]] then ''/'' else join_with ''/'' above)"

definition path_join :: "string \<Rightarrow> string \<Rightarrow> string" where
  "path_join base rest =
     (if rest \<noteq> [] \<and> hd rest = CHR ''/'' then rest
      else if base = [] \<or> last base = CHR ''/'' then base @ rest
      else base @ ''/'' @ rest)"

definition path_with_file_name :: "string \<Rightarrow> string \<Rightarrow> string" where
  "path_with_file_name p name =
     (case path_file_name p of None \<Rightarrow> path_join p name | Some _ \<Rightarrow> path_join (path_parent_text p) name)"

section \<open>Formats\<close>

datatype format = Json | Toml | Yaml

fun format_feature :: "format \<Rightarrow> string" where
  "format_feature Json = ''json''"
| "format_feature Toml = ''toml''"
| "format_feature Yaml = ''yaml''"

definition from_extension :: "string \<Rightarrow> format option" where
  "from_extension extension =
     (let e = to_lower extension in
      if e = ''json'' then Some Json
      else if e = ''toml'' then Some Toml
      else if e = ''yaml'' \<or> e = ''yml'' then Some Yaml
      else None)"

definition from_key :: "string \<Rightarrow> format option" where
  "from_key key = Option.bind (path_extension key) from_extension"

definition encrypted_suffix :: string where
  "encrypted_suffix = ''age''"

definition inner_name :: "string \<Rightarrow> (string \<times> string) option" where
  "inner_name path =
     Option.bind (strip_suffix encrypted_suffix path) (\<lambda>s.
       Option.bind (strip_suffix ''.'' s) (\<lambda>stripped.
         map_option (\<lambda>extension. (stripped, extension)) (path_extension stripped)))"

definition from_path :: "string \<Rightarrow> (error, format) result" where
  "from_path path =
     (let inner = (case inner_name path of Some (inner, _) \<Rightarrow> inner | None \<Rightarrow> path) in
      ok_or (error_unsupported path) (Option.bind (path_extension inner) from_extension))"

section \<open>The platform\<close>

datatype io_error = Io_not_found | Io_other string

text \<open>The text of the operating system's error.\<close>

fun io_text :: "io_error \<Rightarrow> string" where
  "io_text Io_not_found = ''No such file or directory (os error 2)''"
| "io_text (Io_other message) = message"

record 'f platform =
  ops :: "'f backend_ops"
  parse_value :: "string \<Rightarrow> fvalue option"
  file_provider :: "format \<Rightarrow> string \<Rightarrow> provider"
  text_provider :: "format \<Rightarrow> string \<Rightarrow> provider"
  env_provider :: "string \<Rightarrow> (string \<Rightarrow> string option) option \<Rightarrow> string \<Rightarrow> profile \<Rightarrow> provider"
  environ :: "(string option \<times> string option) list"
  read_to_string :: "string \<Rightarrow> (io_error, string) result"
  read_bytes :: "string \<Rightarrow> (io_error, 8 word list) result"
  read_dir :: "string \<Rightarrow> (io_error, (io_error, string) result list) result"
  stat_is_file :: "string \<Rightarrow> (io_error, bool) result"
  decrypt_text :: "8 word list \<Rightarrow> string \<Rightarrow> (error, string) result"
  enabled :: "format \<Rightarrow> bool"
  has_decrypt :: bool
  has_dotenv :: bool

definition env_var_os :: "'f platform \<Rightarrow> string \<Rightarrow> string option option" where
  "env_var_os P name = map_of (environ P) (Some name)"

definition env_var :: "'f platform \<Rightarrow> string \<Rightarrow> string option" where
  "env_var P name = (case env_var_os P name of Some (Some text) \<Rightarrow> Some text | _ \<Rightarrow> None)"

section \<open>Sources\<close>

datatype source_kind = SFile string | SEncrypted string | SInline string | SProvider provider

record source =
  src_kind :: source_kind
  src_format :: format

definition source_file :: "string \<Rightarrow> format \<Rightarrow> source" where
  "source_file path f = \<lparr>src_kind = SFile path, src_format = f\<rparr>"

definition source_inline :: "string \<Rightarrow> format \<Rightarrow> source" where
  "source_inline text f = \<lparr>src_kind = SInline text, src_format = f\<rparr>"

definition source_encrypted :: "string \<Rightarrow> format \<Rightarrow> source" where
  "source_encrypted path f = \<lparr>src_kind = SEncrypted path, src_format = f\<rparr>"

definition source_provider :: "provider \<Rightarrow> source" where
  "source_provider p = \<lparr>src_kind = SProvider p, src_format = Json\<rparr>"

definition source_format :: "source \<Rightarrow> format option" where
  "source_format s = (case src_kind s of SProvider _ \<Rightarrow> None | _ \<Rightarrow> Some (src_format s))"

definition source_path :: "source \<Rightarrow> string option" where
  "source_path s = (case src_kind s of SFile p \<Rightarrow> Some p | SEncrypted p \<Rightarrow> Some p | _ \<Rightarrow> None)"

definition source_is_encrypted :: "source \<Rightarrow> bool" where
  "source_is_encrypted s = (case src_kind s of SEncrypted _ \<Rightarrow> True | _ \<Rightarrow> False)"

definition source_inline_text :: "source \<Rightarrow> string option" where
  "source_inline_text s = (case src_kind s of SInline t \<Rightarrow> Some t | _ \<Rightarrow> None)"

definition source_foreign :: "source \<Rightarrow> provider option" where
  "source_foreign s = (case src_kind s of SProvider p \<Rightarrow> Some p | _ \<Rightarrow> None)"

text \<open>What \<open>Debug\<close> shows of a source: an inline text only by its length in bytes.\<close>

definition utf8_len :: "string \<Rightarrow> nat" where
  "utf8_len s = sum_list (map (\<lambda>c. if (of_char c :: nat) < 128 then 1 else 2) s)"

datatype source_debug =
    D_file string | D_encrypted string | D_inline nat format | D_provider string

definition source_debug :: "source \<Rightarrow> source_debug" where
  "source_debug s = (case src_kind s of
       SFile p \<Rightarrow> D_file p
     | SEncrypted p \<Rightarrow> D_encrypted p
     | SInline t \<Rightarrow> D_inline (utf8_len t) (src_format s)
     | SProvider p \<Rightarrow> D_provider (md_name (p_metadata p)))"

section \<open>Discovery\<close>

record search =
  search_name :: string
  search_paths :: "string list"

definition extensions :: "(string \<times> format) list" where
  "extensions = [(''toml'', Toml), (''json'', Json), (''yaml'', Yaml), (''yml'', Yaml)]"

definition trim_start_matches :: "(char \<Rightarrow> bool) \<Rightarrow> string \<Rightarrow> string" where
  "trim_start_matches P s = dropWhile P s"

definition expand_home :: "'f platform \<Rightarrow> string \<Rightarrow> string option" where
  "expand_home P path =
     (case strip_prefix ''~'' path of
        None \<Rightarrow> Some path
      | Some rest \<Rightarrow>
          (case (case env_var_os P ''HOME'' of Some h \<Rightarrow> Some h | None \<Rightarrow> env_var_os P ''USERPROFILE'') of
             None \<Rightarrow> None
           | Some None \<Rightarrow> None
           | Some (Some home) \<Rightarrow>
               let rest' = trim_start_matches (\<lambda>c. c = CHR ''/'' \<or> c = CHR 0x5C) rest in
               Some (if rest' = [] then home else path_join home rest')))"

definition is_file :: "'f platform \<Rightarrow> string \<Rightarrow> bool" where
  "is_file P path = (stat_is_file P path = Inr True)"

fun first_candidate :: "'f platform \<Rightarrow> string \<Rightarrow> string \<Rightarrow> (string \<times> format) list \<Rightarrow> (string \<times> format) option" where
  "first_candidate P directory name [] = None"
| "first_candidate P directory name ((extension, f) # rest) =
     (let candidate = path_join directory (name @ ''.'' @ extension) in
      if is_file P candidate then Some (candidate, f)
      else first_candidate P directory name rest)"

definition search_resolve :: "'f platform \<Rightarrow> search \<Rightarrow> (string \<times> format) list" where
  "search_resolve P search =
     concat (map (\<lambda>directory.
       case expand_home P directory of
         None \<Rightarrow> []
       | Some directory' \<Rightarrow>
           (case first_candidate P directory' (search_name search)
               (filter (\<lambda>(_, f). enabled P f) extensions) of
              None \<Rightarrow> [] | Some found \<Rightarrow> [found])) (search_paths search))"

definition is_candidate :: "string \<Rightarrow> string \<Rightarrow> bool" where
  "is_candidate path name =
     (case path_file_stem path of None \<Rightarrow> False
      | Some stem \<Rightarrow> stem = name \<and> Option.bind (path_extension path) from_extension \<noteq> None)"

definition search_directories :: "'f platform \<Rightarrow> search \<Rightarrow> string list" where
  "search_directories P search = List.map_filter (expand_home P) (search_paths search)"

section \<open>The load specification\<close>

record fetched =
  fetched_text :: string
  fetched_format :: format

text \<open>What a load asks of the remote source: its document, and its description.\<close>

record remote_view =
  remote_document :: "fetched option"
  remote_describe :: "string option"

record load_spec =
  spec_key :: string
  spec_sources :: "source list"
  spec_env_prefix :: "string option"
  spec_search :: "search option"
  spec_profile_env :: "string option"
  spec_defaults :: "layer option"
  spec_remote :: "remote_view option"
  spec_secrets_dir :: "string option"
  spec_env_files :: "string list"
  spec_aliases :: "string btree option"
  spec_env_bindings :: "string btree option"
  spec_flags :: "layer option"
  spec_overrides :: "layer option"
  spec_nest :: string
  spec_allow_empty_env :: bool
  spec_strict_env :: bool
  spec_whole_document :: bool

definition default_nest :: string where
  "default_nest = ''__''"

definition spec_new :: "string \<Rightarrow> source list \<Rightarrow> load_spec" where
  "spec_new key sources =
     \<lparr>spec_key = key, spec_sources = sources, spec_env_prefix = None, spec_search = None,
      spec_profile_env = None, spec_defaults = None, spec_remote = None, spec_secrets_dir = None,
      spec_env_files = [], spec_aliases = None, spec_env_bindings = None, spec_flags = None,
      spec_overrides = None, spec_nest = default_nest, spec_allow_empty_env = False,
      spec_strict_env = False, spec_whole_document = False\<rparr>"

definition with_search :: "string \<Rightarrow> string list \<Rightarrow> load_spec \<Rightarrow> load_spec" where
  "with_search name paths s = s\<lparr>spec_search := Some \<lparr>search_name = name, search_paths = paths\<rparr>\<rparr>"

definition with_profile_env :: "string \<Rightarrow> load_spec \<Rightarrow> load_spec" where
  "with_profile_env variable s = s\<lparr>spec_profile_env := Some variable\<rparr>"

definition with_defaults :: "layer \<Rightarrow> load_spec \<Rightarrow> load_spec" where
  "with_defaults l s = s\<lparr>spec_defaults := Some l\<rparr>"

definition with_env_files :: "string list \<Rightarrow> load_spec \<Rightarrow> load_spec" where
  "with_env_files files s = s\<lparr>spec_env_files := files\<rparr>"

definition with_aliases :: "string btree \<Rightarrow> load_spec \<Rightarrow> load_spec" where
  "with_aliases a s = s\<lparr>spec_aliases := Some a\<rparr>"

definition with_env_bindings :: "string btree \<Rightarrow> load_spec \<Rightarrow> load_spec" where
  "with_env_bindings b s = s\<lparr>spec_env_bindings := Some b\<rparr>"

definition with_remote :: "remote_view \<Rightarrow> load_spec \<Rightarrow> load_spec" where
  "with_remote r s = s\<lparr>spec_remote := Some r\<rparr>"

definition with_secrets_dir :: "string \<Rightarrow> load_spec \<Rightarrow> load_spec" where
  "with_secrets_dir path s = s\<lparr>spec_secrets_dir := Some path\<rparr>"

definition with_flags :: "layer \<Rightarrow> load_spec \<Rightarrow> load_spec" where
  "with_flags l s = s\<lparr>spec_flags := Some l\<rparr>"

definition with_overrides :: "layer \<Rightarrow> load_spec \<Rightarrow> load_spec" where
  "with_overrides l s = s\<lparr>spec_overrides := Some l\<rparr>"

definition with_env :: "string \<Rightarrow> load_spec \<Rightarrow> load_spec" where
  "with_env pre s = s\<lparr>spec_env_prefix := Some pre\<rparr>"

definition with_nest :: "string \<Rightarrow> load_spec \<Rightarrow> load_spec" where
  "with_nest separator s = s\<lparr>spec_nest := separator\<rparr>"

definition with_empty_env :: "bool \<Rightarrow> load_spec \<Rightarrow> load_spec" where
  "with_empty_env allow s = s\<lparr>spec_allow_empty_env := allow\<rparr>"

definition with_strict_env :: "bool \<Rightarrow> load_spec \<Rightarrow> load_spec" where
  "with_strict_env strict s = s\<lparr>spec_strict_env := strict\<rparr>"

definition with_whole_document :: "bool \<Rightarrow> load_spec \<Rightarrow> load_spec" where
  "with_whole_document whole s = s\<lparr>spec_whole_document := whole\<rparr>"

definition spec_profile_variable :: "load_spec \<Rightarrow> string option" where
  "spec_profile_variable s = spec_profile_env s"

definition spec_profile :: "'f platform \<Rightarrow> load_spec \<Rightarrow> string option" where
  "spec_profile P s =
     (case Option.bind (spec_profile_env s) (env_var P) of
        None \<Rightarrow> None
      | Some profile \<Rightarrow> if trim profile = [] then None else Some (trim profile))"

definition full_env_prefix :: "load_spec \<Rightarrow> string option" where
  "full_env_prefix s =
     map_option (\<lambda>prefix. if spec_key s = [] then prefix
       else prefix @ to_upper (spec_key s) @ ''_'') (spec_env_prefix s)"


section \<open>A layer as a provider\<close>

definition layer_provider :: "layer \<Rightarrow> string \<Rightarrow> string \<Rightarrow> provider" where
  "layer_provider l profile name =
     \<lparr>p_metadata = metadata_named name, p_data = Inr [(profile_from profile, layer_dict l)]\<rparr>"

lemma layer_provider_section:
  "layer_provider l (section_profile key) name = section_provider (metadata_named name) key (layer_dict l)"
  by (simp add: layer_provider_def section_provider_def)

section \<open>Names and formats\<close>

lemma from_extension_lower: "from_extension (to_lower e) = from_extension e"
  by (simp add: from_extension_def)

lemma full_env_prefix_key: "spec_key s \<noteq> [] \<Longrightarrow> full_env_prefix s =
    map_option (\<lambda>pre. pre @ to_upper (spec_key s) @ ''_'') (spec_env_prefix s)"
  by (simp add: full_env_prefix_def)

lemma first_candidate_mem:
  "first_candidate P d name es = Some (p, f) \<Longrightarrow>
     is_file P p \<and> (\<exists>e. (e, f) \<in> set es \<and> p = path_join d (name @ ''.'' @ e))"
  by (induction es) (auto simp: Let_def split: if_splits)

text \<open>
  Also (search_finds_files): every file a search returns exists, has a name \<open>name.ext\<close> for an extension
  of a format this build supports, and lies in a listed directory; each directory contributes
  at most one file, in the order the directories are listed.
\<close>

theorem search_finds_files:
  "(\<forall>(path, f) \<in> set (search_resolve P search). is_file P path \<and> enabled P f \<and>
      (\<exists>dir \<in> set (search_paths search). \<exists>d e. expand_home P dir = Some d \<and>
        (e, f) \<in> set extensions \<and> path = path_join d (search_name search @ ''.'' @ e))) \<and>
   length (search_resolve P search) \<le> length (search_paths search)"
proof
  show "\<forall>(path, f) \<in> set (search_resolve P search). is_file P path \<and> enabled P f \<and>
      (\<exists>dir \<in> set (search_paths search). \<exists>d e. expand_home P dir = Some d \<and>
        (e, f) \<in> set extensions \<and> path = path_join d (search_name search @ ''.'' @ e))"
  proof (clarify, goal_cases)
    case (1 path f)
    then obtain dir d where *: "dir \<in> set (search_paths search)" "expand_home P dir = Some d"
      "first_candidate P d (search_name search) (filter (\<lambda>(_, f). enabled P f) extensions) = Some (path, f)"
      by (clarsimp simp: search_resolve_def split: option.splits) metis
    from first_candidate_mem [OF *(3)] * show ?case by auto
  qed
  have "length (concat (map (\<lambda>d. case expand_home P d of None \<Rightarrow> []
        | Some d' \<Rightarrow> (case g d' of None \<Rightarrow> [] | Some x \<Rightarrow> [x])) ds)) \<le> length ds" for g ds
    by (induction ds) (auto split: option.splits)
  then show "length (search_resolve P search) \<le> length (search_paths search)"
    by (simp add: search_resolve_def)
qed

section \<open>A small platform\<close>

text \<open>
  A platform over the reference backend, with the files and the variables it is given, on which
  the properties that speak of one are applied: no document holds anything, nothing is decrypted.
\<close>

definition small_platform :: "(string \<times> string) list \<Rightarrow> (string \<times> string) list \<Rightarrow> ref_figment platform" where
  "small_platform files vars =
     (let read = (\<lambda>path. case map_of files path of Some t \<Rightarrow> Inr t | None \<Rightarrow> Inl Io_not_found) in
      \<lparr>ops = ref_backend, parse_value = \<lambda>_. None,
       file_provider = \<lambda>_ path. \<lparr>p_metadata = \<lparr>md_name = path, md_source = Some (Source_file path)\<rparr>,
         p_data = Inr [(default_profile, [])]\<rparr>,
       text_provider = \<lambda>f _. \<lparr>p_metadata = metadata_named (format_feature f), p_data = Inr [(default_profile, [])]\<rparr>,
       env_provider = \<lambda>pre _ _ profile. \<lparr>p_metadata = metadata_named pre, p_data = Inr [(profile, [])]\<rparr>,
       environ = map (\<lambda>(n, v). (Some n, Some v)) vars,
       read_to_string = read, read_bytes = \<lambda>path. Inl Io_not_found,
       read_dir = \<lambda>dir. Inr (map (\<lambda>(path, _). Inr (the (path_file_name path)))
         (filter (\<lambda>(path, _). path_parent_text path = dir) files)),
       stat_is_file = \<lambda>path. Inr (map_of files path \<noteq> None),
       decrypt_text = \<lambda>_ path. Inl (error_new KInvalid path),
       enabled = \<lambda>_. True, has_decrypt = False, has_dotenv = True\<rparr>)"

lemma small_ops [simp]: "ops (small_platform files vars) = ref_backend"
  by (simp add: small_platform_def Let_def)

lemma small_backend: "backend (ops (small_platform files vars)) ref_good"
  unfolding small_ops by (rule ref.backend_axioms)

theorem search_finds_files_witness:
  "\<exists>found. search_resolve (small_platform [(''/etc/app.toml'', [])] []) \<lparr>search_name = ''app'', search_paths = [''/etc'']\<rparr> = [found] \<and>
     is_file (small_platform [(''/etc/app.toml'', [])] []) (fst found)"
proof -
  let ?P = "small_platform [(''/etc/app.toml'', [])] []"
  let ?s = "\<lparr>search_name = ''app'', search_paths = [''/etc'']\<rparr>"
  have "search_resolve ?P ?s = [(''/etc/app.toml'', Toml)]" by code_simp
  with search_finds_files [of ?P ?s] show ?thesis by simp
qed

end
