(* ===== verification/Dotenv.thy ===== *)
theory Dotenv imports Sources begin

text \<open>
  \<open>dynamic-config/src/dotenv.rs\<close>: the parser of \<open>.env\<close> files and the provider that files their
  variables under a section.
\<close>

definition dotenv_prefix :: string where
  "dotenv_prefix = ''the file ''"

definition unquote :: "string \<Rightarrow> string" where
  "unquote v =
     (case Option.bind (strip_prefix [CHR 0x22] v) (strip_suffix [CHR 0x22]) of
        Some inner \<Rightarrow> inner
      | None \<Rightarrow> (case Option.bind (strip_prefix [CHR 0x27] v) (strip_suffix [CHR 0x27]) of
            Some inner \<Rightarrow> inner | None \<Rightarrow> v))"

datatype env_line = Skip | Entry string string | Bad

definition parse_line :: "string \<Rightarrow> env_line" where
  "parse_line raw =
     (let line = trim raw in
      if line = [] \<or> strip_prefix ''#'' line \<noteq> None then Skip
      else
        let line' = trim_start (case strip_prefix ''export '' line of Some r \<Rightarrow> r | None \<Rightarrow> line) in
        case split_once ''='' line' of
          None \<Rightarrow> Bad
        | Some (name, v) \<Rightarrow>
            if trim name = [] then Bad else Entry (trim name) (unquote (trim v)))"

fun parse_lines :: "nat \<Rightarrow> string btree \<Rightarrow> string list \<Rightarrow> (nat, string btree) result" where
  "parse_lines number entries [] = Inr entries"
| "parse_lines number entries (l # ls) =
     (case parse_line l of
        Skip \<Rightarrow> parse_lines (number + 1) entries ls
      | Bad \<Rightarrow> Inl (number + 1)
      | Entry name v \<Rightarrow> parse_lines (number + 1) (bt_insert name v entries) ls)"

definition text_lines :: "string \<Rightarrow> string list" where
  "text_lines text = map strip_cr (raw_lines text)"

definition dotenv_parse :: "string \<Rightarrow> (nat, string btree) result" where
  "dotenv_parse text = parse_lines 0 [] (text_lines text)"

definition dotenv_read :: "'f platform \<Rightarrow> string \<Rightarrow> (error, string btree) result" where
  "dotenv_read P path =
     (case read_to_string P path of
        Inl Io_not_found \<Rightarrow> Inr []
      | Inl e \<Rightarrow> Inl (with_origin (OFile path) (error_new KIo (io_text e)))
      | Inr text \<Rightarrow>
          map_err (\<lambda>line. with_origin (OFile path) (error_new KParse
              (''line '' @ show_nat line @ '' is not a comment, blank, or `KEY=value`''))) (dotenv_parse text))"

definition dotenv_entry :: "'f platform \<Rightarrow> string \<Rightarrow> string \<Rightarrow> bool \<Rightarrow> dict \<Rightarrow> string \<times> string \<Rightarrow> dict" where
  "dotenv_entry P env_pre nest allow_empty values entry =
     (case strip_prefix_ignoring_case (fst entry) env_pre of
        None \<Rightarrow> values
      | Some rest \<Rightarrow>
          if trim (snd entry) = [] \<and> \<not> allow_empty then values
          else
            let path = replace_all nest ''.'' (to_lower rest) in
            if path = [] \<or> [] \<in> set (split_on CHR ''.'' path) then values
            else insert_path values path (loose_value (parse_value P) (snd entry)))"

definition dotenv_provider ::
  "'f platform \<Rightarrow> string btree \<Rightarrow> string \<Rightarrow> string \<Rightarrow> string \<Rightarrow> string \<Rightarrow> bool \<Rightarrow> provider" where
  "dotenv_provider P entries path env_pre key nest allow_empty =
     \<lparr>p_metadata = metadata_named (dotenv_prefix @ path),
      p_data = Inr [(profile_from (section_profile key),
        foldl (dotenv_entry P env_pre nest allow_empty) [] entries)]\<rparr>"

section \<open>Lines\<close>

lemma raw_lines_append: "l \<noteq> [] \<Longrightarrow> CHR 0x0A \<notin> set l \<Longrightarrow> raw_lines (l @ CHR 0x0A # s) = l # raw_lines s"
proof (induction l)
  case (Cons c l)
  then show ?case by (cases l) auto
qed simp

lemma raw_lines_blank: "raw_lines (CHR 0x0A # s) = [] # raw_lines s"
  by simp

lemma parse_lines_shift:
  "parse_lines n m ls = Inl k \<Longrightarrow> n < k \<and> k \<le> n + length ls"
  by (induction ls arbitrary: n m) (fastforce split: env_line.splits)+

lemma parse_lines_error:
  "parse_lines n m ls = Inl k \<longleftrightarrow>
     (\<exists>i < length ls. k = n + i + 1 \<and> parse_line (ls ! i) = Bad \<and> (\<forall>j < i. parse_line (ls ! j) \<noteq> Bad))"
proof (induction ls arbitrary: n m)
  case (Cons l ls)
  show ?case
  proof (cases "parse_line l = Bad")
    case True
    then have "(\<exists>i < length (l # ls). k = n + i + 1 \<and> parse_line ((l # ls) ! i) = Bad \<and>
        (\<forall>j < i. parse_line ((l # ls) ! j) \<noteq> Bad)) \<longleftrightarrow> k = n + 1"
      by (auto simp: nth_Cons' intro: ccontr)
    with True show ?thesis by auto
  next
    case False
    have "parse_lines n m (l # ls) = Inl k \<longleftrightarrow> (\<exists>m'. parse_lines (n + 1) m' ls = Inl k)" (is "?a \<longleftrightarrow> ?b")
      using False Cons.IH by (auto split: env_line.splits)
    also have "\<dots> \<longleftrightarrow> (\<exists>i < length ls. k = n + 1 + i + 1 \<and> parse_line (ls ! i) = Bad \<and>
        (\<forall>j < i. parse_line (ls ! j) \<noteq> Bad))"
      using Cons.IH by auto
    also have "\<dots> \<longleftrightarrow> (\<exists>i < length (l # ls). k = n + i + 1 \<and> parse_line ((l # ls) ! i) = Bad \<and>
        (\<forall>j < i. parse_line ((l # ls) ! j) \<noteq> Bad))" (is "?x \<longleftrightarrow> ?y")
    proof
      assume ?x
      then obtain i where "i < length ls" "k = n + 1 + i + 1" "parse_line (ls ! i) = Bad"
        "\<forall>j < i. parse_line (ls ! j) \<noteq> Bad" by blast
      with False show ?y by (intro exI [of _ "Suc i"]) (auto simp: nth_Cons' less_Suc_eq_0_disj)
    next
      assume ?y
      then obtain i where i: "i < length (l # ls)" "k = n + i + 1" "parse_line ((l # ls) ! i) = Bad"
        "\<forall>j < i. parse_line ((l # ls) ! j) \<noteq> Bad" by blast
      with False obtain i' where "i = Suc i'" by (cases i) auto
      with i show ?x by (intro exI [of _ i']) auto
    qed
    finally show ?thesis .
  qed
qed simp

lemma parse_lines_ok:
  "(\<forall>l \<in> set ls. parse_line l \<noteq> Bad) \<Longrightarrow>
   parse_lines n m ls =
     Inr (bt_extend m (List.map_filter (\<lambda>l. case parse_line l of Entry k v \<Rightarrow> Some (k, v) | _ \<Rightarrow> None) ls))"
  by (induction ls arbitrary: n m) (auto simp: bt_extend_def map_filter_simps split: env_line.splits)

text \<open>
  C29 (dotenv_reports_first_bad_line): the parser fails exactly when some line is neither blank, a
  comment nor \<open>KEY=value\<close>, and the number it reports is the one-based number of the first such
  line. Otherwise the result is the map of the lines' entries in order, a later one replacing
  an earlier one of the same name, with its keys in order.
\<close>

theorem dotenv_reports_first_bad_line:
  "(dotenv_parse text = Inl k \<longleftrightarrow>
     (\<exists>i < length (text_lines text). k = i + 1 \<and> parse_line (text_lines text ! i) = Bad \<and>
       (\<forall>j < i. parse_line (text_lines text ! j) \<noteq> Bad))) \<and>
   ((\<forall>l \<in> set (text_lines text). parse_line l \<noteq> Bad) \<longrightarrow>
     dotenv_parse text = Inr (bt_collect (List.map_filter
       (\<lambda>l. case parse_line l of Entry k v \<Rightarrow> Some (k, v) | _ \<Rightarrow> None) (text_lines text))))"
  unfolding dotenv_parse_def bt_collect_def using parse_lines_error parse_lines_ok by auto

section \<open>Writing and reading back\<close>

definition plain_name :: "string \<Rightarrow> bool" where
  "plain_name name \<longleftrightarrow> name \<noteq> [] \<and> hd name \<noteq> CHR ''#'' \<and> (\<forall>c \<in> set name. \<not> is_ws c \<and> c \<noteq> CHR ''='')"

definition quoted_line :: "string \<times> string \<Rightarrow> string" where
  "quoted_line kv = fst kv @ [CHR ''='', CHR 0x22] @ snd kv @ [CHR 0x22]"

lemma is_ws_chars: "is_ws CHR '' ''" "is_ws CHR 0x0A" "\<not> is_ws CHR 0x22" "\<not> is_ws CHR ''=''"
  by (simp_all add: is_ws_def)

lemma unquote_double: "unquote (CHR 0x22 # v @ [CHR 0x22]) = v"
  using strip_prefix_append [of "[CHR 0x22]" "v @ [CHR 0x22]"] by (simp add: unquote_def)

lemma trim_ends: "s = c # m @ [d] \<Longrightarrow> \<not> is_ws c \<Longrightarrow> \<not> is_ws d \<Longrightarrow> trim s = s"
  by (intro trim_id) auto

lemma plain_name_no_export: "plain_name name \<Longrightarrow> strip_prefix ''export '' (name @ CHR ''='' # s) = None"
proof (rule ccontr)
  assume n: "plain_name name" and "strip_prefix ''export '' (name @ CHR ''='' # s) \<noteq> None"
  then obtain r where r: "name @ CHR ''='' # s = ''export '' @ r" by (auto simp: strip_prefix_Some_iff)
  have "CHR '' '' \<in> set (takeWhile (\<lambda>c. c \<noteq> CHR ''='') (name @ CHR ''='' # s))" unfolding r by simp
  moreover have "takeWhile (\<lambda>c. c \<noteq> CHR ''='') (name @ CHR ''='' # s) = name"
    using n by (subst takeWhile_append2) (auto simp: plain_name_def)
  ultimately have "CHR '' '' \<in> set name" by simp
  with n is_ws_chars(1) show False unfolding plain_name_def by blast
qed

lemma parse_plain:
  assumes n: "plain_name name" and v: "v = [] \<or> \<not> is_ws (last v)"
  shows "parse_line (name @ CHR ''='' # v) = Entry name (unquote (trim v))"
proof -
  obtain c m where cm: "name = c # m" using n by (cases name) (auto simp: plain_name_def)
  have c: "\<not> is_ws c" "c \<noteq> CHR ''#''" using n cm by (auto simp: plain_name_def)
  have "trim (name @ CHR ''='' # v) = name @ CHR ''='' # v"
    using v c(1) cm by (intro trim_id) (auto simp: is_ws_chars)
  moreover have "trim_start (name @ CHR ''='' # v) = name @ CHR ''='' # v"
    using c(1) cm by (intro trim_start_id) auto
  moreover have "trim name = name"
    using n cm by (intro trim_id) (auto simp: plain_name_def)
  moreover have "split_once ''='' (name @ CHR ''='' # v) = Some (name, v)"
    using n by (intro split_once_char) (auto simp: plain_name_def)
  moreover have "strip_prefix ''#'' (name @ CHR ''='' # v) = None"
    using c(2) cm by (simp add: strip_prefix_def)
  ultimately show ?thesis
    using plain_name_no_export [OF n, of v] n cm
    by (simp add: parse_line_def Let_def)
qed

lemma parse_quoted:
  assumes "plain_name name"
  shows "parse_line (quoted_line (name, v)) = Entry name v"
proof -
  have "trim (CHR 0x22 # v @ [CHR 0x22]) = CHR 0x22 # v @ [CHR 0x22]"
    by (rule trim_ends [OF refl]) (simp_all add: is_ws_chars)
  with parse_plain [OF assms, of "CHR 0x22 # v @ [CHR 0x22]"] show ?thesis
    by (simp add: quoted_line_def unquote_double is_ws_chars)
qed

text \<open>An unquoted value keeps a \<open>#\<close>: only a line that starts with one is a comment.\<close>

lemma unquoted_hash_is_kept:
  "parse_line ''PORT=8080 # main'' = Entry ''PORT'' ''8080 # main''"
  by code_simp

definition write_lines :: "(string \<times> string) list \<Rightarrow> string" where
  "write_lines kvs = concat (map (\<lambda>kv. quoted_line kv @ [CHR 0x0A]) kvs)"

lemma text_lines_write:
  "(\<And>k v. (k, v) \<in> set kvs \<Longrightarrow> plain_name k \<and> CHR 0x0A \<notin> set v) \<Longrightarrow>
   text_lines (write_lines kvs) = map quoted_line kvs"
proof (induction kvs)
  case (Cons kv kvs)
  obtain k v where kv: "kv = (k, v)" by (cases kv)
  have k: "plain_name k" "CHR 0x0A \<notin> set v" using Cons.prems kv by auto
  then have nl: "CHR 0x0A \<notin> set (quoted_line kv)"
    using is_ws_chars(2) by (simp add: kv quoted_line_def plain_name_def) blast
  have "strip_suffix [CHR 0x0D] (quoted_line kv) = None"
    by (cases "strip_suffix [CHR 0x0D] (quoted_line kv)") (simp_all add: strip_suffix_Some_iff quoted_line_def)
  then have cr: "strip_cr (quoted_line kv) = quoted_line kv"
    by (simp add: strip_cr_def)
  have "raw_lines (quoted_line kv @ CHR 0x0A # write_lines kvs) = quoted_line kv # raw_lines (write_lines kvs)"
    using nl by (intro raw_lines_append) (auto simp: quoted_line_def)
  moreover have "text_lines (write_lines kvs) = map quoted_line kvs"
    using Cons.prems by (intro Cons.IH) auto
  ultimately show ?case by (simp add: write_lines_def text_lines_def cr)
qed (simp add: write_lines_def text_lines_def)

text \<open>
  C28 (dotenv_round_trip): a map written as one \<open>NAME="value"\<close> line per entry is read back as it
  was, whatever the values hold besides a line break: whitespace at either end, a \<open>#\<close>, an
  equals sign, quotes.
\<close>

theorem dotenv_round_trip:
  assumes "bt_ok m" and "\<And>k v. (k, v) \<in> set m \<Longrightarrow> plain_name k \<and> CHR 0x0A \<notin> set v"
  shows "dotenv_parse (write_lines m) = Inr m"
proof -
  have lines: "text_lines (write_lines m) = map quoted_line m" using assms(2) by (rule text_lines_write)
  have e: "parse_line (quoted_line kv) = Entry (fst kv) (snd kv)" if "kv \<in> set m" for kv
    using parse_quoted [of "fst kv" "snd kv"] assms(2) [of "fst kv" "snd kv"] that by simp
  have "List.map_filter (\<lambda>l. case parse_line l of Entry k v \<Rightarrow> Some (k, v) | _ \<Rightarrow> None) (map quoted_line m) = m"
    using e by (induction m) (auto simp: map_filter_simps)
  then show ?thesis
    unfolding dotenv_parse_def lines
    using parse_lines_ok [of "map quoted_line m" 0 "[]"] e bt_collect_sorted [OF assms(1)]
    by (auto simp: bt_collect_def)
qed

theorem dotenv_round_trip_witness:
  "dotenv_parse (write_lines [(''A'', [CHR '' '', CHR ''#'', CHR 0x22])]) = Inr [(''A'', [CHR '' '', CHR ''#'', CHR 0x22])]"
  by (rule dotenv_round_trip) (auto simp: plain_name_def is_ws_def)

text \<open>The table the provider files is well formed, and it fills the one section it was built for.\<close>

lemma dotenv_provider_section:
  "dotenv_provider P entries path env_pre key nest allow =
     section_provider (metadata_named (dotenv_prefix @ path)) key
       (foldl (dotenv_entry P env_pre nest allow) [] entries)"
  by (simp add: dotenv_provider_def section_provider_def)

definition parses_ok :: "'f platform \<Rightarrow> bool" where
  "parses_ok P \<longleftrightarrow> (\<forall>text v. parse_value P text = Some v \<longrightarrow> fvalue_ok v)"

lemma loose_value_ok: "parses_ok P \<Longrightarrow> fvalue_ok (loose_value (parse_value P) text)"
  by (auto simp: loose_value_def parses_ok_def split: option.splits)

lemma dotenv_entries_ok:
  assumes "parses_ok P"
  shows "dict_ok (foldl (dotenv_entry P env_pre nest allow) [] entries)"
proof -
  have "dict_ok d \<Longrightarrow> dict_ok (dotenv_entry P env_pre nest allow d e)" for d e
    using loose_value_ok [OF assms]
    by (auto simp: dotenv_entry_def Let_def insert_path_def insert_segments_ok split: option.splits)
  then have "dict_ok d \<Longrightarrow> dict_ok (foldl (dotenv_entry P env_pre nest allow) d entries)" for d
    by (induction entries arbitrary: d) auto
  then show ?thesis by simp
qed

theorem dotenv_reports_first_bad_line_witness:
  "dotenv_parse ''A=1'' = Inr [(''A'', ''1'')]"
proof -
  have "text_lines ''A=1'' = [''A=1'']" "parse_line ''A=1'' = Entry ''A'' ''1''" by code_simp+
  with dotenv_reports_first_bad_line [of "''A=1''" 0] show ?thesis
    by (simp add: map_filter_simps bt_collect_def bt_extend_def)
qed

end
