(* ===== verification/Environment.thy ===== *)
theory Environment imports Dotenv begin

text \<open>
  \<open>dynamic-config/src/loader/environment.rs\<close> and \<open>loader/secrets.rs\<close>: the layers that come from
  the deployment rather than from a document. The prefixed environment variables are read by
  the backend's own provider, which the crate configures with a filter that drops blank
  variables; \<open>.env\<close> files are parsed by the crate; a secrets directory is one provider per file.
\<close>

section \<open>Environment variables\<close>

definition empty_keys :: "'f platform \<Rightarrow> string \<Rightarrow> string list" where
  "empty_keys P env_pre =
     List.map_filter (\<lambda>(name, v).
       case name of None \<Rightarrow> None
       | Some n \<Rightarrow> if trim (case v of Some t \<Rightarrow> t | None \<Rightarrow> ''x'') = []
                  then strip_prefix_ignoring_case n env_pre else None) (environ P)"

definition environment :: "'f platform \<Rightarrow> string \<Rightarrow> string \<Rightarrow> string \<Rightarrow> bool \<Rightarrow> provider" where
  "environment P env_pre key nest allow_empty =
     (let empty = empty_keys P env_pre;
          keep = (if allow_empty \<or> empty = [] then None
                  else Some (\<lambda>name. if (\<exists>c \<in> set empty. eq_ignore_case c name) then None else Some name))
      in env_provider P env_pre keep nest (profile_from (section_profile key)))"

definition ambiguous_words :: "string list" where
  "ambiguous_words = [''yes'', ''no'', ''on'', ''off'', ''null'', ''nil'', ''none'']"

definition is_ambiguous :: "string \<Rightarrow> bool" where
  "is_ambiguous v \<longleftrightarrow> (\<exists>w \<in> set ambiguous_words. eq_ignore_case (trim v) w)"

definition ambiguous :: "string \<Rightarrow> error" where
  "ambiguous variable = error_new KEnv
     (''`'' @ variable @ ''` is set to one of the ambiguous yes/no/on/off '' @
      ''spellings, which `strict_env` refuses: it would arrive as a '' @
      ''string, not a boolean; write `true`, `false`, or the value you mean'')"

fun reject_ambiguous_in :: "string \<Rightarrow> (string option \<times> string option) list \<Rightarrow> (error, unit) result" where
  "reject_ambiguous_in env_pre [] = Inr ()"
| "reject_ambiguous_in env_pre ((Some name, Some v) # rest) =
     (if strip_prefix_ignoring_case name env_pre \<noteq> None \<and> is_ambiguous v then Inl (ambiguous name)
      else reject_ambiguous_in env_pre rest)"
| "reject_ambiguous_in env_pre (_ # rest) = reject_ambiguous_in env_pre rest"

definition reject_ambiguous :: "'f platform \<Rightarrow> string \<Rightarrow> (error, unit) result" where
  "reject_ambiguous P env_pre = reject_ambiguous_in env_pre (environ P)"

fun merge_env_files_from :: "'f platform \<Rightarrow> load_spec \<Rightarrow> string \<Rightarrow> 'f \<Rightarrow> string list \<Rightarrow> (error, 'f) result" where
  "merge_env_files_from P spec env_pre f [] = Inr f"
| "merge_env_files_from P spec env_pre f (file # rest) =
     and_then (dotenv_read P file) (\<lambda>entries.
       if entries = [] then merge_env_files_from P spec env_pre f rest
       else
         case (if spec_strict_env spec then List.find (\<lambda>(_, v). is_ambiguous v) entries else None) of
           Some (name, _) \<Rightarrow> Inl (with_origin (OFile file) (ambiguous name))
         | None \<Rightarrow> merge_env_files_from P spec env_pre
             (fmerge (ops P) f (dotenv_provider P entries file env_pre (spec_key spec) (spec_nest spec)
               (spec_allow_empty_env spec))) rest)"

definition merge_env_files :: "'f platform \<Rightarrow> 'f \<Rightarrow> load_spec \<Rightarrow> (error, 'f) result" where
  "merge_env_files P f spec =
     (if has_dotenv P then
        (case full_env_prefix spec of
           None \<Rightarrow> Inr f
         | Some env_pre \<Rightarrow> merge_env_files_from P spec env_pre f (spec_env_files spec))
      else if spec_env_files spec = [] then Inr f
      else Inl (error_new KBackend (''`.env` files need the `dotenv` feature; add features = ['' @
        [CHR 0x22] @ ''dotenv'' @ [CHR 0x22] @ ''] to your dynamic-config dependency'')))"

section \<open>The secrets directory\<close>

record secret =
  secret_path :: string
  secret_key :: string
  secret_value :: string
  secret_section :: string

definition secrets_prefix :: string where
  "secrets_prefix = ''the secrets file ''"

definition secret_provider :: "secret \<Rightarrow> provider" where
  "secret_provider s =
     \<lparr>p_metadata = \<lparr>md_name = secrets_prefix @ secret_path s, md_source = Some (Source_file (secret_path s))\<rparr>,
      p_data = Inr [(profile_from (section_profile (secret_section s)),
        insert_path [] (secret_key s) (FString Default_tag (secret_value s)))]\<rparr>"

definition key_of :: "string \<Rightarrow> string \<Rightarrow> string option" where
  "key_of path nest =
     (case path_file_name path of None \<Rightarrow> None
      | Some name \<Rightarrow>
          let key = replace_all nest ''.'' name in
          if key = [] \<or> [] \<in> set (split_on CHR ''.'' key) then None else Some key)"

definition trim_one_newline :: "string \<Rightarrow> string" where
  "trim_one_newline text =
     (case strip_suffix [CHR 0x0A] text of None \<Rightarrow> text
      | Some trimmed \<Rightarrow> (case strip_suffix [CHR 0x0D] trimmed of Some t \<Rightarrow> t | None \<Rightarrow> trimmed))"

definition io_failure :: "string \<Rightarrow> io_error \<Rightarrow> error" where
  "io_failure path e = with_origin (OFile path) (error_new KIo (io_text e))"

fun collect_results :: "('e, 'a) result list \<Rightarrow> ('e, 'a list) result" where
  "collect_results [] = Inr []"
| "collect_results (r # rs) = and_then r (\<lambda>a. and_then (collect_results rs) (\<lambda>as. Inr (a # as)))"

fun read_secrets :: "'f platform \<Rightarrow> load_spec \<Rightarrow> string list \<Rightarrow> (error, secret list) result" where
  "read_secrets P spec [] = Inr []"
| "read_secrets P spec (path # rest) =
     (case key_of path (spec_nest spec) of
        None \<Rightarrow> read_secrets P spec rest
      | Some key \<Rightarrow>
          (case stat_is_file P path of
             Inl Io_not_found \<Rightarrow> read_secrets P spec rest
           | Inl e \<Rightarrow> Inl (io_failure path e)
           | Inr False \<Rightarrow> read_secrets P spec rest
           | Inr True \<Rightarrow>
               and_then (map_err (io_failure path) (read_to_string P path)) (\<lambda>text.
               and_then (read_secrets P spec rest) (\<lambda>secrets.
                 Inr (\<lparr>secret_path = path, secret_key = key, secret_value = trim_one_newline text,
                       secret_section = spec_key spec\<rparr> # secrets)))))"

definition secrets_read :: "'f platform \<Rightarrow> string \<Rightarrow> load_spec \<Rightarrow> (error, secret list) result" where
  "secrets_read P directory spec =
     (case read_dir P directory of
        Inl Io_not_found \<Rightarrow> Inr []
      | Inl e \<Rightarrow> Inl (io_failure directory e)
      | Inr names \<Rightarrow>
          and_then (map_err (io_failure directory) (collect_results names)) (\<lambda>ns.
            read_secrets P spec (sort (map (path_join directory) ns))))"

definition merge_secrets_dir :: "'f platform \<Rightarrow> 'f \<Rightarrow> load_spec \<Rightarrow> (error, 'f) result" where
  "merge_secrets_dir P f spec =
     (case spec_secrets_dir spec of
        None \<Rightarrow> Inr f
      | Some directory \<Rightarrow>
          and_then (secrets_read P directory spec) (\<lambda>secrets.
            Inr (foldl (\<lambda>f s. fmerge (ops P) f (secret_provider s)) f secrets)))"

section \<open>What the layers supply\<close>

lemma secret_provider_section:
  "p_data (secret_provider s) = p_data (section_provider md (secret_section s)
     (insert_path [] (secret_key s) (FString Default_tag (secret_value s))))"
  by (simp add: secret_provider_def)

lemma key_of_usable: "key_of path nest = Some key \<Longrightarrow> usable_path key \<and> key \<noteq> []"
  by (auto simp: key_of_def usable_path_def Let_def split: option.splits if_splits)

lemma sectioned_secret [simp]: "sectioned (secret_provider s)"
  by (simp add: sectioned_def secret_provider_def insert_path_def insert_segments_ok)

definition ambiguous_var :: "string \<Rightarrow> string option \<times> string option \<Rightarrow> bool" where
  "ambiguous_var env_pre var =
     (case var of (Some name, Some v) \<Rightarrow> strip_prefix_ignoring_case name env_pre \<noteq> None \<and> is_ambiguous v
      | _ \<Rightarrow> False)"

lemma reject_ambiguous_in_find:
  "reject_ambiguous_in env_pre vars =
     (case List.find (ambiguous_var env_pre) vars of None \<Rightarrow> Inr () | Some var \<Rightarrow> Inl (ambiguous (the (fst var))))"
proof (induction vars)
  case (Cons var vars)
  obtain n v where "var = (n, v)" by (cases var)
  with Cons show ?case by (cases n; cases v) (simp_all add: ambiguous_var_def)
qed simp

lemma reject_ambiguous_ok_iff:
  "reject_ambiguous P env_pre = Inr () \<longleftrightarrow> (\<forall>var \<in> set (environ P). \<not> ambiguous_var env_pre var)"
proof -
  have "List.find Q vs = None \<or> (\<exists>v \<in> set vs. List.find Q vs = Some v \<and> Q v)" for Q and vs :: "(string option \<times> string option) list"
    by (induction vs) auto
  from this [of "ambiguous_var env_pre" "environ P"] show ?thesis
    unfolding reject_ambiguous_def reject_ambiguous_in_find
    by (auto dest: find_None_iff [THEN iffD1])
qed

section \<open>Which secrets are read\<close>

definition secret_file :: "'f platform \<Rightarrow> load_spec \<Rightarrow> string \<Rightarrow> bool" where
  "secret_file P spec path \<longleftrightarrow> key_of path (spec_nest spec) \<noteq> None \<and> stat_is_file P path = Inr True"

lemma read_secrets_ok:
  "read_secrets P spec paths = Inr secrets \<Longrightarrow>
     map secret_path secrets = filter (secret_file P spec) paths \<and>
     (\<forall>s \<in> set secrets. \<exists>text. read_to_string P (secret_path s) = Inr text \<and>
        secret_value s = trim_one_newline text \<and> key_of (secret_path s) (spec_nest spec) = Some (secret_key s) \<and>
        secret_section s = spec_key spec)"
proof (induction paths arbitrary: secrets)
  case (Cons path rest)
  show ?case
  proof (cases "secret_file P spec path")
    case False
    with Cons show ?thesis
      by (auto simp: secret_file_def split: option.splits sum.splits io_error.splits bool.splits)
  next
    case True
    then obtain key where k: "key_of path (spec_nest spec) = Some key" "stat_is_file P path = Inr True"
      by (auto simp: secret_file_def)
    with Cons.prems obtain t0 ss where t: "read_to_string P path = Inr t0" "read_secrets P spec rest = Inr ss"
      "secrets = \<lparr>secret_path = path, secret_key = key, secret_value = trim_one_newline t0,
         secret_section = spec_key spec\<rparr> # ss"
      by (cases "read_to_string P path") (auto simp: and_then_Inr_iff)
    with Cons.IH [OF t(2)] True k show ?thesis by auto
  qed
qed simp

lemma read_secrets_error:
  "read_secrets P spec paths = Inl e \<Longrightarrow>
     \<exists>path \<in> set paths. key_of path (spec_nest spec) \<noteq> None \<and> e = with_origin (OFile path) (error_new KIo (err_message e)) \<and>
       ((\<exists>m. stat_is_file P path = Inl (Io_other m)) \<or>
        stat_is_file P path = Inr True \<and> (\<exists>i. read_to_string P path = Inl i))"
proof (induction paths)
  case (Cons path rest)
  then show ?case
    by (auto simp: io_failure_def and_then_def map_err_def
        split: option.splits sum.splits io_error.splits bool.splits)
qed simp



end
