(* ===== verification/Sections.thy ===== *)
theory Sections imports Environment begin

text \<open>
  \<open>dynamic-config/src/loader/sections.rs\<close>: how one source becomes one layer of the backend. A
  document's top-level keys are its sections, each filed under a profile of its own; a whole
  document is one section; a foreign provider has its profiles renamed; a profile variant is the
  sibling file whose name carries the profile. (The long dash of one message is written \<open>-\<close>.)
\<close>

section \<open>Documents\<close>

definition schema_key :: string where
  "schema_key = ''$schema''"

type_synonym layout = "string option"

definition layout_of :: "load_spec \<Rightarrow> layout" where
  "layout_of spec = (if spec_whole_document spec then Some (spec_key spec) else None)"

definition not_a_table :: "string \<Rightarrow> ferror" where
  "not_a_table key = ferror_from
     (''top-level key `'' @ key @ ''` is not a table; every top-level key '' @
      ''in a config file is a section, so a value there must be a '' @
      ''table (`'' @ schema_key @ ''` is the one exception). If this file '' @
      ''is not sectioned - if the whole of it is one '' @
      ''configuration - read it with `.whole_document()`'')"

fun file_sections :: "dict btree \<Rightarrow> dict \<Rightarrow> (ferror, dict btree) result" where
  "file_sections sections [] = Inr sections"
| "file_sections sections ((key, v) # rest) =
     (if key = schema_key then file_sections sections rest
      else case v of
          FDict _ d \<Rightarrow> file_sections (bt_insert (profile_from (section_profile key)) d sections) rest
        | _ \<Rightarrow> Inl (not_a_table key))"

fun file_documents :: "layout \<Rightarrow> dict btree \<Rightarrow> (profile \<times> dict) list \<Rightarrow> (ferror, dict btree) result" where
  "file_documents layout sections [] = Inr sections"
| "file_documents layout sections ((_, document) # rest) =
     (case layout of
        Some key \<Rightarrow>
          file_documents layout
            (bt_insert (profile_from (section_profile key)) (bt_remove schema_key document) sections) rest
      | None \<Rightarrow> and_then (file_sections sections document) (\<lambda>sections'. file_documents layout sections' rest))"

definition sections_provider :: "provider \<Rightarrow> layout \<Rightarrow> provider" where
  "sections_provider inner layout =
     \<lparr>p_metadata = p_metadata inner, p_data = and_then (p_data inner) (file_documents layout [])\<rparr>"

section \<open>The other providers\<close>

definition named_provider :: "provider \<Rightarrow> string \<Rightarrow> string option \<Rightarrow> provider" where
  "named_provider inner name path =
     \<lparr>p_metadata = (case path of
          Some p \<Rightarrow> \<lparr>md_name = name, md_source = Some (Source_file p)\<rparr>
        | None \<Rightarrow> metadata_named name),
      p_data = p_data inner\<rparr>"

definition cached_name :: string where
  "cached_name = ''the last configuration that worked''"

definition cached_provider :: "dict \<Rightarrow> profile \<Rightarrow> provider" where
  "cached_provider values profile =
     \<lparr>p_metadata = metadata_named cached_name, p_data = Inr [(profile, values)]\<rparr>"

definition foreign_profile :: "profile \<Rightarrow> profile" where
  "foreign_profile profile =
     (if profile = default_profile \<or> profile = global_profile then profile
      else profile_from (section_profile profile))"

definition foreign_provider :: "provider \<Rightarrow> provider" where
  "foreign_provider p =
     \<lparr>p_metadata = p_metadata p,
      p_data = and_then (p_data p) (\<lambda>m. Inr (bt_collect (map (\<lambda>(profile, d). (foreign_profile profile, d)) m)))\<rparr>"

section \<open>Merging one source\<close>

fun format_debug :: "format \<Rightarrow> string" where
  "format_debug Json = ''Json''"
| "format_debug Toml = ''Toml''"
| "format_debug Yaml = ''Yaml''"

definition disabled :: "format \<Rightarrow> error" where
  "disabled f = error_new KBackend
     (''cannot read '' @ format_debug f @ '' because the `'' @ format_feature f @ ''` feature is not enabled; '' @
      ''add features = ['' @ [CHR 0x22] @ format_feature f @ [CHR 0x22] @ ''] to your dynamic-config dependency'')"

definition merge_file :: "'f platform \<Rightarrow> 'f \<Rightarrow> string \<Rightarrow> format \<Rightarrow> layout \<Rightarrow> (error, 'f) result" where
  "merge_file P f path fmt layout =
     (if enabled P fmt then Inr (fmerge (ops P) f (sections_provider (file_provider P fmt path) layout))
      else Inl (disabled fmt))"

definition merge_text :: "'f platform \<Rightarrow> 'f \<Rightarrow> string \<Rightarrow> format \<Rightarrow> layout \<Rightarrow> (error, 'f) result" where
  "merge_text P f contents fmt layout =
     (if enabled P fmt then Inr (fmerge (ops P) f (sections_provider (text_provider P fmt contents) layout))
      else Inl (disabled fmt))"

definition merge_named_text ::
  "'f platform \<Rightarrow> 'f \<Rightarrow> string \<Rightarrow> format \<Rightarrow> string \<Rightarrow> string option \<Rightarrow> layout \<Rightarrow> (error, 'f) result" where
  "merge_named_text P f contents fmt name path layout =
     (if enabled P fmt
      then Inr (fmerge (ops P) f
        (named_provider (sections_provider (text_provider P fmt contents) layout) name path))
      else Inl (disabled fmt))"

definition merge_encrypted_file :: "'f platform \<Rightarrow> 'f \<Rightarrow> string \<Rightarrow> format \<Rightarrow> layout \<Rightarrow> (error, 'f) result" where
  "merge_encrypted_file P f path fmt layout =
     (if \<not> has_decrypt P then
        Inl (error_new KBackend (path @ '' is encrypted, and this build has no decryption support; '' @
          ''add features = ['' @ [CHR 0x22] @ ''age'' @ [CHR 0x22] @ ''] to your dynamic-config dependency''))
      else case read_bytes P path of
          Inl Io_not_found \<Rightarrow> Inr f
        | Inl e \<Rightarrow> Inl (with_origin (OFile path) (error_new KIo (io_text e)))
        | Inr ciphertext \<Rightarrow>
            and_then (decrypt_text P ciphertext path) (\<lambda>plaintext.
              merge_named_text P f plaintext fmt path (Some path) layout))"

definition merge_source :: "'f platform \<Rightarrow> 'f \<Rightarrow> source \<Rightarrow> layout \<Rightarrow> (error, 'f) result" where
  "merge_source P f src layout =
     (case source_foreign src of
        Some p \<Rightarrow> Inr (fmerge (ops P) f (foreign_provider p))
      | None \<Rightarrow>
          (case source_format src of
             None \<Rightarrow> Inr f
           | Some fmt \<Rightarrow>
               (case source_path src of
                  Some path \<Rightarrow>
                    if source_is_encrypted src then merge_encrypted_file P f path fmt layout
                    else merge_file P f path fmt layout
                | None \<Rightarrow>
                    merge_text P f (case source_inline_text src of Some t \<Rightarrow> t | None \<Rightarrow> []) fmt layout)))"

definition parse_document :: "'f platform \<Rightarrow> (ferror \<Rightarrow> error) \<Rightarrow> string \<Rightarrow> format \<Rightarrow> (error, dict) result" where
  "parse_document P translate contents fmt =
     (if enabled P fmt then
        and_then (map_err translate (p_data (text_provider P fmt contents))) (\<lambda>m.
          Inr (case bt_get m default_profile of Some d \<Rightarrow> d | None \<Rightarrow> []))
      else Inl (disabled fmt))"

section \<open>Profiles\<close>

definition profile_is_safe :: "string \<Rightarrow> bool" where
  "profile_is_safe profile \<longleftrightarrow> \<not> contains_text ''/'' profile \<and> \<not> contains_text [CHR 0x5C] profile \<and>
     \<not> contains_text ''..'' profile \<and> \<not> contains_text [CHR 0x00] profile"

definition validated_profile :: "'f platform \<Rightarrow> load_spec \<Rightarrow> (error, string option) result" where
  "validated_profile P spec =
     (case spec_profile P spec of
        None \<Rightarrow> Inr None
      | Some profile \<Rightarrow>
          if profile_is_safe profile then Inr (Some profile)
          else Inl (error_new KEnv
            (''`'' @ (case spec_profile_variable spec of Some v \<Rightarrow> v | None \<Rightarrow> ''the profile variable'') @
             ''` names the active profile and becomes part of a file name; '' @
             ''a profile must be a plain word, not a path'')))"

lemma inner_name_shorter: "inner_name p = Some (inner, e) \<Longrightarrow> length inner < length p"
  by (auto simp: inner_name_def encrypted_suffix_def strip_suffix_Some_iff split: bind_splits)

function name_variant :: "string \<Rightarrow> string \<Rightarrow> string option" where
  "name_variant name profile =
     (case inner_name name of
        Some (inner, _) \<Rightarrow> map_option (\<lambda>v. v @ ''.'' @ encrypted_suffix) (name_variant inner profile)
      | None \<Rightarrow>
          (case (path_file_stem name, path_extension name) of
             (Some stem, Some extension) \<Rightarrow> Some (stem @ ''.'' @ profile @ ''.'' @ extension)
           | _ \<Rightarrow> None))"
  by pat_completeness auto
termination
  by (relation "measure (\<lambda>(name, _). length name)") (auto dest: inner_name_shorter)

declare name_variant.simps [simp del]

definition profile_variant :: "string \<Rightarrow> string \<Rightarrow> string option" where
  "profile_variant path profile =
     (case path_file_name path of None \<Rightarrow> None
      | Some name \<Rightarrow> map_option (path_with_file_name path) (name_variant name profile))"

definition merge_profile_variant ::
  "'f platform \<Rightarrow> 'f \<Rightarrow> string \<Rightarrow> format \<Rightarrow> string option \<Rightarrow> layout \<Rightarrow> (error, 'f) result" where
  "merge_profile_variant P f path fmt profile layout =
     (case profile of None \<Rightarrow> Inr f
      | Some profile' \<Rightarrow>
          (case profile_variant path profile' of None \<Rightarrow> Inr f
           | Some variant \<Rightarrow>
               if inner_name variant \<noteq> None then merge_encrypted_file P f variant fmt layout
               else merge_file P f variant fmt layout))"

section \<open>What a document files\<close>

fun section_tables :: "dict \<Rightarrow> (profile \<times> dict) list" where
  "section_tables [] = []"
| "section_tables ((key, v) # rest) =
     (if key = schema_key then section_tables rest
      else case v of FDict _ d \<Rightarrow> (section_of key, d) # section_tables rest | _ \<Rightarrow> section_tables rest)"

definition stray_keys :: "dict \<Rightarrow> string list" where
  "stray_keys doc = map fst (filter (\<lambda>(key, v). key \<noteq> schema_key \<and> \<not> is_fdict v) doc)"

lemma file_sections_spec:
  "file_sections acc doc =
     (case stray_keys doc of [] \<Rightarrow> Inr (bt_extend acc (section_tables doc)) | k # _ \<Rightarrow> Inl (not_a_table k))"
proof (induction acc doc rule: file_sections.induct)
  case (2 acc key v rest)
  then show ?case
    by (cases v) (auto simp: stray_keys_def bt_extend_def split: list.split)
qed (simp add: stray_keys_def bt_extend_def)

lemma section_tables_ok:
  "dict_ok doc \<Longrightarrow> (s, d) \<in> set (section_tables doc) \<Longrightarrow> is_section s \<and> dict_ok d"
proof (induction doc rule: section_tables.induct)
  case (2 key v rest)
  then have "dict_ok rest" "fvalue_ok v" by (auto simp: dict_ok_def)
  with 2 show ?case by (auto split: if_splits fvalue.splits)
qed simp

lemma set_bt_extend: "set (bt_extend m kvs) \<subseteq> set m \<union> set kvs"
  unfolding bt_extend_def
proof (induction kvs arbitrary: m)
  case (Cons kv kvs)
  have "set (bt_insert (fst kv) (snd kv) m) \<subseteq> insert kv (set m)" by (auto dest!: set_bt_insert)
  with Cons [of "bt_insert (fst kv) (snd kv) m"] show ?case by auto
qed simp

lemma dict_ok_remove: "dict_ok d \<Longrightarrow> dict_ok (bt_remove k d)"
  unfolding dict_ok_def by (intro conjI bt_ok_remove) (auto simp: bt_remove_def)

definition sections_ok :: "dict btree \<Rightarrow> bool" where
  "sections_ok m \<longleftrightarrow> bt_ok m \<and> (\<forall>(s, d) \<in> set m. is_section s \<and> dict_ok d)"

lemma file_documents_ok:
  "sections_ok acc \<Longrightarrow> (\<And>p d. (p, d) \<in> set docs \<Longrightarrow> dict_ok d) \<Longrightarrow>
   file_documents layout acc docs = Inr m \<Longrightarrow> sections_ok m"
proof (induction layout acc docs rule: file_documents.induct)
  case (2 layout acc p doc rest)
  have doc: "dict_ok doc" using 2(4) by auto
  show ?case
  proof (cases layout)
    case (Some key)
    have "sections_ok (bt_insert (section_of key) (bt_remove schema_key doc) acc)"
      using 2(3) doc by (auto simp: sections_ok_def bt_ok_insert dict_ok_remove dest!: set_bt_insert)
    with 2 Some show ?thesis by auto
  next
    case None
    with 2(5) obtain m' where m': "file_sections acc doc = Inr m'" "file_documents None m' rest = Inr m"
      by (auto simp: and_then_Inr_iff)
    then have "m' = bt_extend acc (section_tables doc)" by (simp add: file_sections_spec split: list.splits)
    then have "sections_ok m'"
      using 2(3) section_tables_ok [OF doc] set_bt_extend [of acc "section_tables doc"]
      by (fastforce simp: sections_ok_def bt_ok_extend)
    with 2 None m' show ?thesis by auto
  qed
qed simp

text \<open>A document provider answers with one profile holding a well-formed table.\<close>

definition document_ok :: "provider \<Rightarrow> bool" where
  "document_ok p \<longleftrightarrow> (case p_data p of Inl _ \<Rightarrow> True | Inr m \<Rightarrow> \<forall>(s, d) \<in> set m. dict_ok d)"

lemma sections_provider_sectioned:
  "document_ok inner \<Longrightarrow> p_data (sections_provider inner layout) = Inr m \<Longrightarrow>
   sectioned (sections_provider inner layout)"
proof -
  assume ok: "document_ok inner" and m: "p_data (sections_provider inner layout) = Inr m"
  then obtain docs where d: "p_data inner = Inr docs" "file_documents layout [] docs = Inr m"
    by (auto simp: sections_provider_def and_then_Inr_iff)
  have "dict_ok t" if "(s, t) \<in> set docs" for s t
    using ok d(1) that by (auto simp: document_ok_def)
  moreover have "sections_ok []" by (simp add: sections_ok_def)
  ultimately have "sections_ok m" using file_documents_ok [of "[]" docs layout m] d(2) by blast
  then show ?thesis using m by (simp add: sectioned_def sections_ok_def)
qed

text \<open>
  C22 (document_sections): a sectioned document is refused exactly when some top-level key other than
  \<open>$schema\<close> holds something that is not a table, and the error names the first such key.
  Otherwise each section holds the table of the last top-level key that names it, up to ASCII
  case, and \<open>$schema\<close> fills no section. A whole document is filed under the one section it is
  read for, without \<open>$schema\<close>, whatever its top-level keys hold.
\<close>

theorem document_sections:
  assumes "p_data inner = Inr [(p, doc)]"
  shows "p_data (sections_provider inner None) =
      (case stray_keys doc of k # _ \<Rightarrow> Inl (not_a_table k) | [] \<Rightarrow> Inr (bt_collect (section_tables doc))) \<and>
    (stray_keys doc = [] \<longrightarrow> section_dict (sections_provider inner None) s =
      (case map_of (rev (section_tables doc)) s of Some d \<Rightarrow> d | None \<Rightarrow> [])) \<and>
    section_dict (sections_provider inner (Some key)) (section_of key) = bt_remove schema_key doc"
proof -
  have "p_data (sections_provider inner None) =
      (case stray_keys doc of k # _ \<Rightarrow> Inl (not_a_table k) | [] \<Rightarrow> Inr (bt_collect (section_tables doc)))"
    by (simp add: sections_provider_def assms file_sections_spec bt_collect_def split: list.splits)
  then show ?thesis
    by (auto simp: section_dict_def bt_get_collect) (simp add: sections_provider_def assms)
qed

theorem document_sections_witness:
  "p_data (sections_provider \<lparr>p_metadata = metadata_named ''x'',
     p_data = Inr [(default_profile, [(''db'', FBool Default_tag True)])]\<rparr> None) = Inl (not_a_table ''db'')"
  by (subst document_sections [THEN conjunct1]) (auto simp: stray_keys_def schema_key_def)

section \<open>Profile variants\<close>

lemma path_file_name_no_slash: "path_file_name p = Some name \<Longrightarrow> CHR ''/'' \<notin> set name \<and> name \<noteq> []"
proof -
  let ?parts = "filter (\<lambda>s. s \<noteq> [] \<and> s \<noteq> ''.'') (split_on CHR ''/'' p)"
  assume "path_file_name p = Some name"
  then have "?parts \<noteq> []" "name = last ?parts"
    by (simp_all add: path_file_name_def Let_def split: if_splits)
  then have "name \<in> set ?parts" using last_in_set by blast
  then show ?thesis using split_on_segments by fastforce
qed

lemma set_piece: "w \<in> set ws \<Longrightarrow> set w \<subseteq> set (join_with sep ws)"
  by (induction sep ws rule: join_with.induct) auto

lemma set_join: "set (join_with sep ws) \<subseteq> \<Union> (set ` set ws) \<union> set sep"
  by (induction sep ws rule: join_with.induct) auto

lemma split_at_dot_chars:
  assumes "split_at_dot name = (a, b)" "c \<notin> set name" "c \<noteq> CHR ''.''"
  shows "(\<forall>x. a = Some x \<longrightarrow> c \<notin> set x) \<and> (\<forall>x. b = Some x \<longrightarrow> c \<notin> set x)"
proof -
  let ?ws = "split_on CHR ''.'' name"
  have piece: "c \<notin> set w" if "w \<in> set ?ws" for w
    using set_piece [OF that, of "''.''"] assms(2) by (auto simp: join_split)
  moreover have "c \<notin> set (join_with ''.'' (butlast ?ws))"
    using set_join [of "''.''" "butlast ?ws"] piece assms(3) by (auto dest: in_set_butlastD)
  moreover have "last ?ws \<in> set ?ws" by simp
  ultimately show ?thesis
    using assms(1,2) by (auto simp: split_at_dot_def Let_def split: if_splits)
qed

lemma stem_extension_no_slash:
  "path_file_stem p = Some stem \<Longrightarrow> CHR ''/'' \<notin> set stem"
  "path_extension p = Some e \<Longrightarrow> CHR ''/'' \<notin> set e"
proof -
  have *: "split_at_dot n = (a, b) \<Longrightarrow> path_file_name p = Some n \<Longrightarrow>
      (\<forall>x. a = Some x \<longrightarrow> CHR ''/'' \<notin> set x) \<and> (\<forall>x. b = Some x \<longrightarrow> CHR ''/'' \<notin> set x)" for n a b
    by (intro split_at_dot_chars) (auto dest: path_file_name_no_slash)
  show "path_file_stem p = Some stem \<Longrightarrow> CHR ''/'' \<notin> set stem"
    using * by (auto simp: path_file_stem_def split: bind_splits prod.splits option.splits)
  show "path_extension p = Some e \<Longrightarrow> CHR ''/'' \<notin> set e"
    using * by (auto simp: path_extension_def split: bind_splits prod.splits option.splits)
qed

lemma safe_no_slash: "profile_is_safe profile \<Longrightarrow> CHR ''/'' \<notin> set profile"
  by (simp add: profile_is_safe_def contains_single_char)

lemma name_variant_no_slash:
  "name_variant name profile = Some v \<Longrightarrow> CHR ''/'' \<notin> set profile \<Longrightarrow> CHR ''/'' \<notin> set v"
proof (induction name profile arbitrary: v rule: name_variant.induct)
  case (1 name profile)
  show ?case
  proof (cases "inner_name name")
    case None
    with 1(2,3) show ?thesis
      by (subst (asm) name_variant.simps) (auto split: option.splits dest: stem_extension_no_slash)
  next
    case (Some ie)
    obtain inner e where ie: "ie = (inner, e)" by (cases ie)
    with Some 1(2) obtain w where w: "name_variant inner profile = Some w" "v = w @ ''.'' @ encrypted_suffix"
      by (subst (asm) name_variant.simps) auto
    with 1(1) [OF Some, of inner e w] ie 1(3) show ?thesis by (simp add: encrypted_suffix_def)
  qed
qed


text \<open>What the variant is called: the profile goes before the extension, and below \<open>.age\<close>.\<close>

lemma split_at_dot_ext:
  assumes "CHR ''.'' \<notin> set e" "stem \<noteq> []" "e \<noteq> []"
  shows "split_at_dot (stem @ CHR ''.'' # e) = (Some stem, Some e)"
proof -
  have "split_on CHR ''.'' (stem @ CHR ''.'' # e) = split_on CHR ''.'' stem @ [e]"
  proof (induction stem)
    case (Cons c stem)
    obtain w ws where "split_on CHR ''.'' stem = w # ws" by (cases "split_on CHR ''.'' stem") auto
    with Cons show ?case by auto
  qed (use assms in \<open>simp add: split_on_free\<close>)
  moreover have "stem @ CHR ''.'' # e \<noteq> ''..''"
    using assms by (cases stem; cases e; auto simp: append_eq_Cons_conv)
  ultimately show ?thesis
    using assms by (simp add: split_at_dot_def Let_def join_split)
qed

lemma path_file_name_plain:
  "CHR ''/'' \<notin> set n \<Longrightarrow> n \<noteq> [] \<Longrightarrow> n \<noteq> ''.'' \<Longrightarrow> n \<noteq> ''..'' \<Longrightarrow> path_file_name n = Some n"
  by (simp add: path_file_name_def split_on_free)

lemma path_parts_ext:
  assumes "CHR ''.'' \<notin> set e" "stem \<noteq> []" "e \<noteq> []" "CHR ''/'' \<notin> set stem" "CHR ''/'' \<notin> set e"
  shows "path_file_stem (stem @ CHR ''.'' # e) = Some stem" "path_extension (stem @ CHR ''.'' # e) = Some e"
proof -
  have "stem @ CHR ''.'' # e \<noteq> ''.''" "stem @ CHR ''.'' # e \<noteq> ''..''"
    using assms by (cases stem; cases e; auto simp: append_eq_Cons_conv)+
  then have "path_file_name (stem @ CHR ''.'' # e) = Some (stem @ CHR ''.'' # e)"
    using assms by (intro path_file_name_plain) auto
  then show "path_file_stem (stem @ CHR ''.'' # e) = Some stem" "path_extension (stem @ CHR ''.'' # e) = Some e"
    using split_at_dot_ext [OF assms(1,2,3)] by (simp_all add: path_file_stem_def path_extension_def)
qed


end
