(* ===== verification/Bindings.thy ===== *)
theory Bindings imports Sources begin

text \<open>
  \<open>dynamic-config/src/bindings.rs\<close>: environment variables bound to single fields. The state maps
  a path to a variable's name; at each load every binding becomes one provider, which reads its
  variable from the process environment, and from the \<open>.env\<close> entries when the environment does
  not usefully set it.
\<close>

type_synonym bindings = "string btree"

definition bindings_new :: bindings where
  "bindings_new = []"

definition bind_variable :: "bindings \<Rightarrow> string \<Rightarrow> string \<Rightarrow> bindings \<times> (error, unit) result" where
  "bind_variable b path variable =
     (case check_path path of
        Inl e \<Rightarrow> (b, Inl e)
      | Inr _ \<Rightarrow> (bt_insert path variable b, Inr ()))"

definition bindings_clear :: "bindings \<Rightarrow> bindings" where
  "bindings_clear b = []"

definition bindings_is_empty :: "bindings \<Rightarrow> bool" where
  "bindings_is_empty b \<longleftrightarrow> b = []"

definition bound_variable :: "bindings \<Rightarrow> string \<Rightarrow> string option" where
  "bound_variable b path = bt_get b path"

definition binding_prefix :: string where
  "binding_prefix = ''the environment variable ''"

definition blank_text :: "string \<Rightarrow> bool" where
  "blank_text text \<longleftrightarrow> trim text = []"

definition resolve_variable :: "'f platform \<Rightarrow> string \<Rightarrow> bool \<Rightarrow> string btree \<Rightarrow> fvalue option" where
  "resolve_variable P variable allow_empty fallback =
     (let from_environment = (case env_var P variable of
            Some text \<Rightarrow> if allow_empty \<or> \<not> blank_text text then Some text else None
          | None \<Rightarrow> None)
      in case (case from_environment of Some text \<Rightarrow> Some text | None \<Rightarrow> bt_get fallback variable) of
           None \<Rightarrow> None
         | Some text \<Rightarrow>
             if blank_text text \<and> \<not> allow_empty then None
             else Some (loose_value (parse_value P) text))"

definition binding_provider :: "'f platform \<Rightarrow> string \<Rightarrow> bool \<Rightarrow> string btree \<Rightarrow> string \<Rightarrow> string \<Rightarrow> provider" where
  "binding_provider P key allow_empty fallback path variable =
     \<lparr>p_metadata = metadata_named (binding_prefix @ variable),
      p_data = Inr [(profile_from (section_profile key),
        (case resolve_variable P variable allow_empty fallback of
           Some v \<Rightarrow> insert_path [] path v
         | None \<Rightarrow> []))]\<rparr>"

definition binding_providers :: "'f platform \<Rightarrow> bindings \<Rightarrow> string \<Rightarrow> bool \<Rightarrow> string btree \<Rightarrow> provider list" where
  "binding_providers P b key allow_empty fallback =
     map (\<lambda>(path, variable). binding_provider P key allow_empty fallback path variable) b"

section \<open>What a binding supplies\<close>

lemma binding_provider_section:
  "binding_provider P key allow fallback path variable =
     section_provider (metadata_named (binding_prefix @ variable)) key
       (case resolve_variable P variable allow fallback of Some v \<Rightarrow> insert_path [] path v | None \<Rightarrow> [])"
  by (simp add: binding_provider_def section_provider_def)

text \<open>
  A bound variable is read from the process environment first and from
  the \<open>.env\<close> entries only when the environment does not set it usefully; a blank value counts as
  unset unless empty values were allowed, and then nothing is supplied. What is supplied is the
  text read loosely, and it never comes from a variable of another name.
\<close>

lemma binding_reads_variable:
  "resolve_variable P variable allow fallback =
     (let usable = (\<lambda>text. allow \<or> \<not> blank_text text) in
      case env_var P variable of
        Some text \<Rightarrow>
          if usable text then Some (loose_value (parse_value P) text)
          else (case bt_get fallback variable of
              Some text' \<Rightarrow> if usable text' then Some (loose_value (parse_value P) text') else None
            | None \<Rightarrow> None)
      | None \<Rightarrow>
          (case bt_get fallback variable of
             Some text' \<Rightarrow> if usable text' then Some (loose_value (parse_value P) text') else None
           | None \<Rightarrow> None))"
  by (auto simp: resolve_variable_def Let_def split: option.splits)

lemma binding_supplies:
  assumes "resolve_variable P variable allow fallback = Some v" "\<not> is_fdict v"
  shows "dict_supplies (section_dict (binding_provider P key allow fallback path variable) (section_of key))
      (path_segments path) v"
  using assms insert_segments_at [of "path_segments path" "[]" v "[]"]
  by (simp add: binding_provider_section dict_supplies_def insert_path_def)

lemma bind_variable_ok: "bt_ok b \<Longrightarrow> bt_ok (fst (bind_variable b path variable))"
  by (auto simp: bind_variable_def bt_ok_insert split: sum.splits)

lemma bind_variable_get:
  "snd (bind_variable b path variable) = Inr () \<Longrightarrow>
   bound_variable (fst (bind_variable b path variable)) = (bound_variable b)(path \<mapsto> variable)"
  by (auto simp: bind_variable_def bound_variable_def bt_get_insert fun_eq_iff split: sum.splits)

end
