(* ===== verification/Origin.thy ===== *)
theory Origin imports Sections Bindings begin

text \<open>
  \<open>dynamic-config/src/loader/origin.rs\<close>: the translation of the backend's errors into the crate's
  own, without the values they carry, and the tracing of a value to the layer that supplied it.
\<close>

definition inline_suffix :: string where
  "inline_suffix = ''source string''"

definition env_suffix :: string where
  "env_suffix = ''environment variable(s)''"

definition remote_prefix :: string where
  "remote_prefix = ''the remote store ''"

section \<open>Messages\<close>

fun kind_of :: "actual \<Rightarrow> string" where
  "kind_of (A_bool _) = ''a boolean''"
| "kind_of (A_unsigned _) = ''an unsigned integer''"
| "kind_of (A_signed _) = ''a signed integer''"
| "kind_of (A_float _) = ''a float''"
| "kind_of (A_char _) = ''a character''"
| "kind_of (A_str _) = ''a string''"
| "kind_of (A_bytes _) = ''a byte string''"
| "kind_of A_unit = ''a unit''"
| "kind_of A_option = ''an option''"
| "kind_of A_newtype_struct = ''a newtype struct''"
| "kind_of A_seq = ''a list''"
| "kind_of A_map = ''a table''"
| "kind_of A_enum = ''an enum''"
| "kind_of A_unit_variant = ''a unit variant''"
| "kind_of A_newtype_variant = ''a newtype variant''"
| "kind_of A_tuple_variant = ''a tuple variant''"
| "kind_of A_struct_variant = ''a struct variant''"
| "kind_of (A_other _) = ''something else''"

definition is_gutter :: "string \<Rightarrow> bool" where
  "is_gutter line \<longleftrightarrow> strip_prefix ''|'' (trim_start (dropWhile is_digit (trim_start line))) \<noteq> None"

definition without_quoted_source :: "string \<Rightarrow> string" where
  "without_quoted_source m =
     trim_end (join_with [CHR 0x0A] (filter (\<lambda>line. \<not> is_gutter line) (map strip_cr (raw_lines m))))"

definition error_message :: "ferror \<Rightarrow> string" where
  "error_message e =
     (case fe_kind e of
        F_invalid_type actual expected \<Rightarrow>
          ''invalid type: found '' @ kind_of actual @ '', expected '' @ expected
      | F_invalid_value actual expected \<Rightarrow>
          ''invalid value: found '' @ kind_of actual @ '', expected '' @ expected
      | _ \<Rightarrow> without_quoted_source (fe_text e))"

definition kind_of_error :: "ferror \<Rightarrow> error_kind" where
  "kind_of_error e =
     (case fe_kind e of
        F_missing_field _ \<Rightarrow> KMissing
      | F_invalid_type _ _ \<Rightarrow> KType
      | F_invalid_value _ _ \<Rightarrow> KType
      | F_invalid_length _ _ \<Rightarrow> KType
      | F_isize_out_of_range _ \<Rightarrow> KType
      | F_usize_out_of_range _ \<Rightarrow> KType
      | F_message _ \<Rightarrow> if fe_path e = [] then KParse else KType
      | F_other \<Rightarrow> KBackend)"

definition error_path :: "ferror \<Rightarrow> string list" where
  "error_path e =
     (if fe_path e = [] then (case fe_kind e of F_missing_field name \<Rightarrow> [name] | _ \<Rightarrow> []) else fe_path e)"

definition translate :: "ferror \<Rightarrow> error" where
  "translate e = foldl (\<lambda>t s. prepend_key s t) (error_new (kind_of_error e) (error_message e)) (rev (error_path e))"

section \<open>Origins\<close>

definition refine_env :: "'f platform \<Rightarrow> origin \<Rightarrow> string list \<Rightarrow> string \<Rightarrow> origin" where
  "refine_env P origin path nest =
     (case origin of
        OEnv pattern \<Rightarrow>
          (case strip_suffix ''*'' pattern of
             None \<Rightarrow> origin
           | Some stem \<Rightarrow>
               if path = [] then origin
               else
                 let variable = stem @ join_with (to_upper nest) (map to_upper path) in
                 if env_var_os P variable = None then origin else OEnv variable)
      | _ \<Rightarrow> origin)"

function trim_end_matches :: "string \<Rightarrow> string \<Rightarrow> string" where
  "trim_end_matches pattern s =
     (if pattern = [] then s
      else case strip_suffix pattern s of None \<Rightarrow> s | Some r \<Rightarrow> trim_end_matches pattern r)"
  by pat_completeness auto
termination
  by (relation "measure (\<lambda>(_, s). length s)") (auto simp: strip_suffix_Some_iff)

declare trim_end_matches.simps [simp del]

definition trim_matches_char :: "char \<Rightarrow> string \<Rightarrow> string" where
  "trim_matches_char c s = rev (dropWhile (\<lambda>x. x = c) (rev (dropWhile (\<lambda>x. x = c) s)))"

definition env_prefix_of :: "string \<Rightarrow> string" where
  "env_prefix_of name =
     (let p = trim_matches_char CHR 0x60 (trim (trim_end_matches env_suffix name)) in
      if p = [] then ''the environment'' else p @ ''*'')"

definition origin_of :: "'f platform \<Rightarrow> metadata \<Rightarrow> origin" where
  "origin_of P md =
     (if md_name md = defaults_name then ORuntime ''default''
      else if md_name md = overrides_name then ORuntime ''override''
      else if md_name md = flags_name then ORuntime ''command-line flag''
      else if md_name md = cached_name then ORuntime ''cached configuration''
      else case strip_prefix binding_prefix (md_name md) of
        Some variable \<Rightarrow> OEnv variable
      | None \<Rightarrow>
        (case (if has_dotenv P then strip_prefix dotenv_prefix (md_name md) else None) of
          Some path \<Rightarrow> OFile path
        | None \<Rightarrow>
          (case strip_prefix remote_prefix (md_name md) of
            Some store \<Rightarrow> ORemote store
          | None \<Rightarrow>
            (case md_source md of
              Some (Source_file path) \<Rightarrow> OFile path
            | Some (Source_custom name) \<Rightarrow> OEnv name
            | Some Source_code \<Rightarrow> OInline
            | None \<Rightarrow>
                if strip_suffix env_suffix (md_name md) \<noteq> None then OEnv (env_prefix_of (md_name md))
                else if strip_suffix inline_suffix (md_name md) \<noteq> None then OInline
                else OUnknown))))"

definition convert :: "'f platform \<Rightarrow> ferror \<Rightarrow> load_spec \<Rightarrow> error" where
  "convert P e spec =
     with_origin
       (refine_env P (case fe_metadata e of None \<Rightarrow> OUnknown | Some md \<Rightarrow> origin_of P md)
         (error_path e) (spec_nest spec))
       (translate e)"

section \<open>No value in a message\<close>

lemma translate_simps [simp]:
  "err_kind (translate e) = kind_of_error e" "err_path (translate e) = error_path e"
  "err_origin (translate e) = OUnknown" "err_message (translate e) = error_message e"
proof -
  have "err_kind (foldl (\<lambda>t s. prepend_key s t) t ss) = err_kind t \<and>
      err_path (foldl (\<lambda>t s. prepend_key s t) t ss) = rev ss @ err_path t \<and>
      err_origin (foldl (\<lambda>t s. prepend_key s t) t ss) = err_origin t \<and>
      err_message (foldl (\<lambda>t s. prepend_key s t) t ss) = err_message t" for t ss
    by (induction ss arbitrary: t) simp_all
  then show "err_kind (translate e) = kind_of_error e" "err_path (translate e) = error_path e"
    "err_origin (translate e) = OUnknown" "err_message (translate e) = error_message e"
    by (simp_all add: translate_def)
qed

text \<open>The found value may be replaced by any other of its kind without changing the error.\<close>

fun same_but_actual :: "ferror_kind \<Rightarrow> ferror_kind \<Rightarrow> bool" where
  "same_but_actual (F_invalid_type a x) (F_invalid_type b y) \<longleftrightarrow> kind_of a = kind_of b \<and> x = y"
| "same_but_actual (F_invalid_value a x) (F_invalid_value b y) \<longleftrightarrow> kind_of a = kind_of b \<and> x = y"
| "same_but_actual _ _ \<longleftrightarrow> False"



lemma is_gutter_append: "is_gutter a \<Longrightarrow> is_gutter (a @ t)"
proof -
  have ts: "\<exists>t'. trim_start (a @ t) = trim_start a @ t' \<or> trim_start a = []" for a t
    by (induction a) (auto simp: trim_start_def)
  have dw: "\<exists>t'. dropWhile is_digit (a @ t) = dropWhile is_digit a @ t'" for a t
    by (induction a) auto
  assume g: "is_gutter a"
  have "trim_start a \<noteq> []" using g by (auto simp: is_gutter_def strip_prefix_def)
  with ts [of a t] obtain t1 where t1: "trim_start (a @ t) = trim_start a @ t1" by auto
  obtain t2 where t2: "dropWhile is_digit (trim_start (a @ t)) = dropWhile is_digit (trim_start a) @ t2"
    using dw [of "trim_start a" t1] t1 by auto
  have "trim_start (dropWhile is_digit (trim_start a)) \<noteq> []"
    using g by (auto simp: is_gutter_def strip_prefix_def)
  with ts [of "dropWhile is_digit (trim_start a)" t2] t2 obtain t3 where
    "trim_start (dropWhile is_digit (trim_start (a @ t))) = trim_start (dropWhile is_digit (trim_start a)) @ t3" by auto
  with g show ?thesis by (auto simp: is_gutter_def strip_prefix_Some_iff)
qed

lemma split_on_append_piece:
  "(\<exists>t'. hd (split_on c p) @ t' = hd (split_on c (p @ t))) \<and>
     (\<forall>w \<in> set (tl (split_on c p)). \<exists>t'. w @ t' \<in> set (tl (split_on c (p @ t))))"
proof (induction p)
  case Nil
  obtain v vs where "split_on c t = v # vs" by (cases "split_on c t") auto
  then show ?case by auto
next
  case (Cons x p)
  obtain w ws where a: "split_on c p = w # ws" by (cases "split_on c p") auto
  obtain v vs where b: "split_on c (p @ t) = v # vs" by (cases "split_on c (p @ t)") auto
  from Cons a b obtain t1 where t1: "w @ t1 = v" by auto
  from Cons a b have "\<forall>u \<in> set ws. \<exists>t'. u @ t' \<in> set vs" by auto
  with t1 a b show ?case by (cases "x = c") auto
qed

lemma split_on_append_mem:
  "w \<in> set (split_on c p) \<Longrightarrow> \<exists>t'. w @ t' \<in> set (split_on c (p @ t))"
  using split_on_append_piece [of c p t] split_on_not_Nil [of c p] split_on_not_Nil [of c "p @ t"]
  by (cases "split_on c p"; cases "split_on c (p @ t)") auto

lemma raw_lines_no_newline: "l \<in> set (raw_lines s) \<Longrightarrow> CHR 0x0A \<notin> set l"
  by (induction s arbitrary: l) (auto split: if_splits list.splits)

lemma strip_cr_prefix: "\<exists>t. l = strip_cr l @ t"
  by (auto simp: strip_cr_def strip_suffix_Some_iff split: option.splits)


text \<open>
  Also (refined_origin_is_set): an origin that was a pattern over the environment is narrowed to a
  variable only when that variable is set; every other origin is left as it is.
\<close>

theorem refined_origin_is_set:
  "refine_env P origin path nest = origin \<or>
   (\<exists>stem. origin = OEnv (stem @ ''*'') \<and> path \<noteq> [] \<and>
      refine_env P origin path nest = OEnv (stem @ join_with (to_upper nest) (map to_upper path)) \<and>
      env_var_os P (stem @ join_with (to_upper nest) (map to_upper path)) \<noteq> None)"
  by (cases origin) (auto simp: refine_env_def Let_def strip_suffix_Some_iff split: option.splits)

text \<open>The layers the crate names itself are recognised by those names.\<close>

lemma origin_of_runtime:
  "origin_of P (metadata_named defaults_name) = ORuntime ''default''"
  "origin_of P (metadata_named overrides_name) = ORuntime ''override''"
  "origin_of P (metadata_named flags_name) = ORuntime ''command-line flag''"
  "origin_of P (metadata_named cached_name) = ORuntime ''cached configuration''"
  "origin_of P (metadata_named (binding_prefix @ variable)) = OEnv variable"
  "has_dotenv P \<Longrightarrow> origin_of P (metadata_named (dotenv_prefix @ path)) = OFile path"
  by (simp_all add: origin_of_def metadata_named_def defaults_name_def overrides_name_def flags_name_def
      cached_name_def binding_prefix_def dotenv_prefix_def strip_prefix_def)


end
