(* ===== verification/Aliases.thy ===== *)
theory Aliases imports Layers begin

text \<open>
  \<open>dynamic-config/src/aliases.rs\<close>: the old paths that still resolve. The state is the map from
  an old path to the current one; \<open>add\<close> walks the chain a new edge would create and refuses
  to close a loop. The edges of the map form a graph, and the invariant is that it has no cycle.
\<close>

type_synonym aliases = "string btree"

definition split_section :: "string \<Rightarrow> string option \<times> string" where
  "split_section path =
     (case split_once section_sep path of Some (sec, rest) \<Rightarrow> (Some sec, rest) | None \<Rightarrow> (None, path))"

definition check_old_path :: "string \<Rightarrow> (error, unit) result" where
  "check_old_path old =
     (case split_section old of
        (Some sec, path) \<Rightarrow>
          if sec = [] \<or> contains_text ''.'' sec \<or> contains_text section_sep path
          then Inl (error_new KType (''`'' @ old @ ''` is not a usable old key path: `'' @ section_sep @
            ''` names one top-level section, as in `db'' @ section_sep @ ''pool.size`''))
          else check_path path
      | (None, path) \<Rightarrow> check_path path)"

definition aliases_new :: aliases where
  "aliases_new = []"

text \<open>The walk: \<open>None\<close> when it comes back to \<open>old\<close> or makes more hops than there are entries.\<close>

function alias_walk :: "aliases \<Rightarrow> string \<Rightarrow> string \<Rightarrow> nat \<Rightarrow> bool" where
  "alias_walk entries old cursor hops =
     (case bt_get entries cursor of
        None \<Rightarrow> True
      | Some nx \<Rightarrow> if nx = old \<or> hops > length entries then False
                  else alias_walk entries old nx (hops + 1))"
  by pat_completeness auto
termination
  by (relation "measure (\<lambda>(entries, _, _, hops). Suc (length entries) - hops)") auto

declare alias_walk.simps [simp del]

definition aliases_add :: "aliases \<Rightarrow> string \<Rightarrow> string \<Rightarrow> aliases \<times> (error, unit) result" where
  "aliases_add entries old new =
     (case check_old_path old of
        Inl e \<Rightarrow> (entries, Inl e)
      | Inr _ \<Rightarrow>
        if contains_text section_sep new then
          (entries, Inl (error_new KType (''`'' @ new @ ''` names another section, and an alias's new path is '' @
             ''always in this configuration's own section; a section '' @
             ''qualifier belongs on the old path, as in `alias('' @ [CHR 0x22] @ new @ [CHR 0x22] @ '', ..)`'')))
        else case check_path new of
          Inl e \<Rightarrow> (entries, Inl e)
        | Inr _ \<Rightarrow>
          if old = new then
            (entries, Inl (error_new KType (''`'' @ old @ ''` cannot be an alias for itself'')))
          else if \<not> alias_walk entries old new 0 then
            (entries, Inl (error_new KType (''`'' @ old @ ''` -> `'' @ new @
               ''` closes an alias cycle; renames must form a chain, not a loop'')))
          else (bt_insert old new entries, Inr ()))"

definition aliases_clear :: "aliases \<Rightarrow> aliases" where
  "aliases_clear entries = []"

definition aliases_is_empty :: "aliases \<Rightarrow> bool" where
  "aliases_is_empty entries \<longleftrightarrow> entries = []"

definition aliases_pairs :: "aliases \<Rightarrow> (string \<times> string) list" where
  "aliases_pairs entries = entries"

definition known_keys :: "aliases \<Rightarrow> string list" where
  "known_keys entries =
     map (\<lambda>path. hd (split_on CHR ''.'' path))
       (filter (\<lambda>path. \<not> contains_text section_sep path) (map fst entries))"

section \<open>The graph of aliases\<close>

definition edges :: "aliases \<Rightarrow> (string \<times> string) set" where
  "edges entries = {(a, b). bt_get entries a = Some b}"

definition aliases_ok :: "aliases \<Rightarrow> bool" where
  "aliases_ok entries \<longleftrightarrow> bt_ok entries \<and> acyclic (edges entries)"

lemma edges_functional: "(a, b) \<in> edges m \<Longrightarrow> (a, c) \<in> edges m \<Longrightarrow> b = c"
  by (simp add: edges_def)

lemma edges_insert:
  "edges (bt_insert a b m) = {(x, y). (x, y) \<in> edges m \<and> x \<noteq> a} \<union> {(a, b)}"
  by (auto simp: edges_def bt_get_insert split: if_splits)

text \<open>A walk of \<open>n\<close> hops from a cursor.\<close>

fun hop :: "aliases \<Rightarrow> nat \<Rightarrow> string \<Rightarrow> string option" where
  "hop m 0 x = Some x"
| "hop m (Suc n) x = Option.bind (bt_get m x) (hop m n)"

lemma hop_rtrancl: "hop m n x = Some y \<Longrightarrow> (x, y) \<in> (edges m) ^^ n"
proof (induction n arbitrary: x)
  case (Suc n)
  then obtain z where "bt_get m x = Some z" "hop m n z = Some y" by (auto split: bind_splits)
  then have "(x, z) \<in> edges m" "(z, y) \<in> edges m ^^ n" using Suc.IH by (auto simp: edges_def)
  then show ?case by (rule relpow_Suc_I2)
qed simp

lemma hop_add: "hop m (i + j) x = Option.bind (hop m i x) (hop m j)"
  by (induction i arbitrary: x) (auto split: bind_splits)

lemma hop_dom: "hop m (Suc n) x = Some y \<Longrightarrow> i \<le> n \<Longrightarrow> \<exists>z. hop m i x = Some z \<and> z \<in> fst ` set m"
proof -
  assume h: "hop m (Suc n) x = Some y" "i \<le> n"
  then have "hop m (i + Suc (n - i)) x = Some y" by simp
  then obtain z where "hop m i x = Some z" "hop m (Suc (n - i)) z = Some y"
    unfolding hop_add by (auto split: bind_splits)
  then show ?thesis by (auto split: bind_splits dest!: map_of_SomeD intro: rev_image_eqI)
qed

lemma acyclic_hops_short:
  assumes "acyclic (edges m)" "hop m n x = Some y"
  shows "n \<le> length m"
proof (rule ccontr)
  assume "\<not> n \<le> length m"
  then obtain k where k: "n = Suc k" "length m \<le> k" by (cases n) auto
  let ?f = "\<lambda>i. the (hop m i x)"
  have sub: "?f ` {..k} \<subseteq> fst ` set m"
  proof
    fix z assume "z \<in> ?f ` {..k}"
    then obtain i where "i \<le> k" "z = ?f i" by auto
    with hop_dom [OF assms(2) [unfolded k(1)], of i] show "z \<in> fst ` set m" by force
  qed
  have "card (fst ` set m) \<le> k"
    using k(2) card_image_le [of "set m" fst] card_length [of m] by simp
  then have "\<not> inj_on ?f {..k}"
    using card_mono [OF _ sub] card_image [of ?f "{..k}"] by force
  then obtain i j where ij: "i < j" "j \<le> k" "?f i = ?f j"
    unfolding inj_on_def by (metis atMost_iff linorder_neqE_nat)
  obtain z where z: "hop m i x = Some z" "hop m j x = Some z"
    using hop_dom [OF assms(2) [unfolded k(1)], of i] hop_dom [OF assms(2) [unfolded k(1)], of j] ij by auto
  have "hop m (i + (j - i)) x = Some z" using z ij by simp
  then have "hop m (j - i) z = Some z" unfolding hop_add using z(1) by simp
  then have "(z, z) \<in> (edges m) ^^ (j - i)" by (rule hop_rtrancl)
  then have "(z, z) \<in> (edges m)\<^sup>+" using ij(1) zero_less_diff trancl_power by blast
  with assms(1) show False by (simp add: acyclic_def)
qed

text \<open>The walk answers whether the cursor leads back to \<open>old\<close>.\<close>

lemma alias_walk_reach:
  "acyclic (edges m) \<Longrightarrow> hop m hops start = Some cursor \<Longrightarrow>
   alias_walk m old cursor hops \<longleftrightarrow> (cursor, old) \<notin> (edges m)\<^sup>+"
proof (induction m old cursor hops rule: alias_walk.induct)
  case (1 entries old cursor hops)
  show ?case
  proof (cases "bt_get entries cursor")
    case None
    then have "(cursor, old) \<notin> (edges entries)\<^sup>+"
      by (auto simp: edges_def dest: tranclD)
    with None show ?thesis by (simp add: alias_walk.simps)
  next
    case (Some nx)
    then have e: "(cursor, nx) \<in> edges entries" by (simp add: edges_def)
    have step: "hop entries (hops + 1) start = Some nx"
      unfolding hop_add using 1(3) Some by simp
    then have short: "\<not> hops > length entries"
      using acyclic_hops_short [OF 1(2) step] by simp
    show ?thesis
    proof (cases "nx = old")
      case True
      with e Some show ?thesis by (subst alias_walk.simps) auto
    next
      case False
      then have "alias_walk entries old nx (hops + 1) \<longleftrightarrow> (nx, old) \<notin> (edges entries)\<^sup>+"
        using 1(1) [OF Some] 1(2) short step by simp
      moreover have "(cursor, old) \<in> (edges entries)\<^sup>+ \<longleftrightarrow> (nx, old) \<in> (edges entries)\<^sup>+"
        using e False by (metis edges_functional rtranclD trancl_into_trancl2 tranclD)
      ultimately show ?thesis
        using Some False short by (subst alias_walk.simps) simp
    qed
  qed
qed

lemma acyclic_insert_edge:
  assumes "acyclic (edges m)" "old \<noteq> new" "(new, old) \<notin> (edges m)\<^sup>+"
  shows "acyclic (edges (bt_insert old new m))"
proof -
  let ?r = "{(x, y). (x, y) \<in> edges m \<and> x \<noteq> old}"
  have sub: "?r \<subseteq> edges m" by auto
  have "acyclic ?r" using assms(1) sub by (rule acyclic_subset)
  moreover have "(new, old) \<notin> ?r\<^sup>*"
    using assms(2,3) rtrancl_mono [OF sub] by (auto dest!: rtranclD subsetD)
      (metis (no_types, lifting) sub trancl_mono)
  ultimately have "acyclic (insert (old, new) ?r)" by (simp add: acyclic_insert)
  then show ?thesis by (simp add: edges_insert)
qed

lemma aliases_ok_new: "aliases_ok aliases_new"
  by (simp add: aliases_ok_def aliases_new_def edges_def acyclic_def)

lemma aliases_add_cases:
  "aliases_ok m \<Longrightarrow> check_old_path old = Inr () \<Longrightarrow> \<not> contains_text section_sep new \<Longrightarrow>
   check_path new = Inr () \<Longrightarrow> old \<noteq> new \<Longrightarrow>
   (if (new, old) \<in> (edges m)\<^sup>+ then fst (aliases_add m old new) = m \<and> (\<exists>e. snd (aliases_add m old new) = Inl e)
    else aliases_add m old new = (bt_insert old new m, Inr ()))"
  using alias_walk_reach [of m 0 new new old] by (simp add: aliases_add_def aliases_ok_def)

text \<open>
  C11 (alias_graph_acyclic): \<open>Aliases::add\<close> keeps the aliases free of cycles. On an acyclic map it
  succeeds exactly when both paths are usable, the new path names no section, the two differ,
  and no chain of aliases leads from the new path back to the old one; it then maps the old
  path to the new one, replacing what it mapped to, and touches no other. A refusal changes
  nothing, and the walk that decides never gives up before it has the answer.
\<close>

theorem alias_graph_acyclic:
  assumes "aliases_ok m" "aliases_add m old new = (m', outcome)"
  shows "aliases_ok m' \<and>
    (outcome = Inr () \<longleftrightarrow> check_old_path old = Inr () \<and> check_path new = Inr () \<and> old \<noteq> new \<and>
       (new, old) \<notin> (edges m)\<^sup>+) \<and>
    (if outcome = Inr () then bt_get m' = (bt_get m)(old \<mapsto> new) else m' = m)"
proof (cases "check_old_path old = Inr () \<and> check_path new = Inr () \<and> old \<noteq> new")
  case True
  then have ns: "\<not> contains_text section_sep new" by (simp add: check_path_ok_iff)
  note c = aliases_add_cases [OF assms(1) _ ns]
  show ?thesis
  proof (cases "(new, old) \<in> (edges m)\<^sup>+")
    case reach: True
    with True c [of old] assms show ?thesis by auto
  next
    case False
    with True c [of old] have m': "m' = bt_insert old new m" "outcome = Inr ()" using assms(2) by auto
    have "acyclic (edges m')"
      unfolding m' using assms(1) True False by (intro acyclic_insert_edge) (auto simp: aliases_ok_def)
    moreover have "bt_ok m'" unfolding m' using assms(1) by (intro bt_ok_insert) (simp add: aliases_ok_def)
    ultimately show ?thesis using True False m' by (auto simp: aliases_ok_def bt_get_insert)
  qed
next
  case False
  then have "m' = m \<and> outcome \<noteq> Inr ()"
    using assms(2) by (auto simp: aliases_add_def split: sum.splits if_splits)
  with False assms(1) show ?thesis by auto
qed

theorem alias_graph_acyclic_witness:
  "\<exists>e. snd (aliases_add [(''a'', ''b''), (''b'', ''c'')] ''c'' ''a'') = Inl e"
proof -
  have "aliases_ok [(''a'', ''b'')]"
    using alias_graph_acyclic [OF aliases_ok_new, of "''a''" "''b''"]
    by (simp add: aliases_add_def aliases_new_def check_old_path_def split_section_def section_sep_def
        check_path_def blank_segment_def contains_text_def strip_prefix_def alias_walk.simps)
  then have "aliases_ok [(''a'', ''b''), (''b'', ''c'')]"
    using alias_graph_acyclic [of "[(''a'', ''b'')]" "''b''" "''c''"]
    by (simp add: aliases_add_def aliases_new_def check_old_path_def split_section_def section_sep_def
        check_path_def blank_segment_def contains_text_def strip_prefix_def alias_walk.simps)
  moreover have "(''a'', ''c'') \<in> (edges [(''a'', ''b''), (''b'', ''c'')])\<^sup>+"
    by (rule trancl_into_trancl [OF r_into_trancl]) (auto simp: edges_def)
  ultimately show ?thesis
    using alias_graph_acyclic [of "[(''a'', ''b''), (''b'', ''c'')]" "''c''" "''a''"]
    by (cases "aliases_add [(''a'', ''b''), (''b'', ''c'')] ''c'' ''a''";
        cases "snd (aliases_add [(''a'', ''b''), (''b'', ''c'')] ''c'' ''a'')") auto
qed

text \<open>
  A section-qualified old path contributes no known key, and every other alias contributes the
  first segment of its old path.
\<close>

lemma known_keys_iff:
  "k \<in> set (known_keys m) \<longleftrightarrow>
     (\<exists>old new. (old, new) \<in> set m \<and> \<not> contains_text section_sep old \<and> k = hd (split_on CHR ''.'' old))"
  unfolding known_keys_def set_map set_filter image_iff by (auto simp: image_iff)

end
