(* ===== verification/Snapshots.thy ===== *)
theory Snapshots imports Values Errors "HOL-Library.Sublist" begin

text \<open>
  \<open>dynamic-config/src/snapshot.rs\<close>: a resolved configuration with its provenance, reading it by
  path, taking a part of it, and the comparison of two of them. A user's type is whatever the
  parameter \<open>deserialize\<close> makes of a value.
\<close>

datatype change_kind = Added | Removed | Modified

fun change_kind_display :: "change_kind \<Rightarrow> string" where
  "change_kind_display Added = ''added''"
| "change_kind_display Removed = ''removed''"
| "change_kind_display Modified = ''changed''"

record change =
  change_path :: string
  change_what :: change_kind

definition change_display :: "change \<Rightarrow> string" where
  "change_display c = change_path c @ '' '' @ change_kind_display (change_what c)"

record snapshot =
  snap_values :: dict
  snap_provenance :: "origin btree"

definition snapshot_new :: "dict \<Rightarrow> snapshot" where
  "snapshot_new values = \<lparr>snap_values = values, snap_provenance = []\<rparr>"

definition attach_provenance :: "origin btree \<Rightarrow> snapshot \<Rightarrow> snapshot" where
  "attach_provenance provenance s = s\<lparr>snap_provenance := provenance\<rparr>"

definition snapshot_source_of :: "snapshot \<Rightarrow> string \<Rightarrow> origin option" where
  "snapshot_source_of s path = bt_get (snap_provenance s) path"

definition to_value :: "snapshot \<Rightarrow> cvalue" where
  "to_value s = Table (bt_collect (map (\<lambda>kv. (fst kv, from_figment (snd kv))) (snap_values s)))"

definition snapshot_at :: "snapshot \<Rightarrow> string \<Rightarrow> fvalue option" where
  "snapshot_at s path =
     (case split_on CHR ''.'' path of
        [] \<Rightarrow> None
      | first # rest \<Rightarrow> (case bt_get (snap_values s) first of None \<Rightarrow> None | Some v \<Rightarrow> fwalk v rest))"

definition snapshot_get :: "(fvalue \<Rightarrow> (error, 'a) result) \<Rightarrow> snapshot \<Rightarrow> string \<Rightarrow> (error, 'a) result" where
  "snapshot_get deserialize s path =
     (case snapshot_at s path of
        None \<Rightarrow> Inl (prepend_key path (error_new KMissing ''no value at this path''))
      | Some v \<Rightarrow> map_err (prepend_key path) (deserialize v))"

definition snapshot_extract :: "(fvalue \<Rightarrow> (error, 'a) result) \<Rightarrow> snapshot \<Rightarrow> (error, 'a) result" where
  "snapshot_extract deserialize s = deserialize (FDict Default_tag (snap_values s))"

definition starts_with :: "string \<Rightarrow> string \<Rightarrow> bool" where
  "starts_with pre s \<longleftrightarrow> strip_prefix pre s \<noteq> None"

definition without_top_level :: "snapshot \<Rightarrow> string \<Rightarrow> snapshot" where
  "without_top_level s key =
     \<lparr>snap_values = bt_remove key (snap_values s),
      snap_provenance = filter (\<lambda>(path, _). path \<noteq> key \<and> \<not> starts_with (key @ ''.'') path) (snap_provenance s)\<rparr>"

definition snapshot_contains :: "snapshot \<Rightarrow> string \<Rightarrow> bool" where
  "snapshot_contains s path \<longleftrightarrow> snapshot_at s path \<noteq> None"

definition snapshot_sub :: "snapshot \<Rightarrow> string \<Rightarrow> snapshot option" where
  "snapshot_sub s path =
     (case snapshot_at s path of
        Some (FDict _ nested) \<Rightarrow>
          Some \<lparr>snap_values = nested,
            snap_provenance = bt_collect (List.map_filter (\<lambda>(leaf, origin).
              map_option (\<lambda>rest. (rest, origin)) (strip_prefix (path @ ''.'') leaf)) (snap_provenance s))\<rparr>
      | _ \<Rightarrow> None)"

fun collect_leaves :: "dict \<Rightarrow> string list \<Rightarrow> string list" where
  "collect_leaves values path =
     concat (map (\<lambda>kv. case snd kv of
         FDict _ nested \<Rightarrow>
           if nested \<noteq> [] then collect_leaves nested (path @ [fst kv])
           else [join_with ''.'' (path @ [fst kv])]
       | _ \<Rightarrow> [join_with ''.'' (path @ [fst kv])]) values)"

definition snapshot_leaf_paths :: "snapshot \<Rightarrow> string list" where
  "snapshot_leaf_paths s = collect_leaves (snap_values s) []"

definition top_level_keys :: "snapshot \<Rightarrow> string list" where
  "top_level_keys s = map fst (snap_values s)"

definition snapshot_is_empty :: "snapshot \<Rightarrow> bool" where
  "snapshot_is_empty s \<longleftrightarrow> snap_values s = []"

text \<open>What \<open>Debug\<close> shows: the top-level keys, and two counts.\<close>

definition snapshot_debug :: "snapshot \<Rightarrow> string list \<times> nat \<times> nat" where
  "snapshot_debug s = (top_level_keys s, length (snapshot_leaf_paths s), length (snap_provenance s))"

section \<open>Comparing\<close>

definition change_at :: "string list \<Rightarrow> change_kind \<Rightarrow> change" where
  "change_at path kind = \<lparr>change_path = join_with ''.'' path, change_what = kind\<rparr>"

definition values_equal :: "fvalue \<Rightarrow> fvalue \<Rightarrow> bool" where
  "values_equal before after \<longleftrightarrow> value_eq (from_figment before) (from_figment after)"

text \<open>\<open>compare\<close> and \<open>compare_values\<close>; the list they push to is the result.\<close>

fun compare_values :: "fvalue \<Rightarrow> fvalue \<Rightarrow> string list \<Rightarrow> change list" where
  "compare_values (FDict t previous) after path =
     (case after of
        FDict _ current \<Rightarrow>
          concat (map (\<lambda>kv. case bt_get current (fst kv) of
              Some after' \<Rightarrow> compare_values (snd kv) after' (path @ [fst kv])
            | None \<Rightarrow> [change_at (path @ [fst kv]) Removed]) previous) @
          map (\<lambda>kv. change_at (path @ [fst kv]) Added)
            (filter (\<lambda>kv. bt_get previous (fst kv) = None) current)
      | _ \<Rightarrow> if values_equal (FDict t previous) after then [] else [change_at path Modified])"
| "compare_values before after path =
     (if values_equal before after then [] else [change_at path Modified])"

definition compare_dicts :: "dict \<Rightarrow> dict \<Rightarrow> string list \<Rightarrow> change list" where
  "compare_dicts previous current path =
     concat (map (\<lambda>kv. case bt_get current (fst kv) of
         Some after \<Rightarrow> compare_values (snd kv) after (path @ [fst kv])
       | None \<Rightarrow> [change_at (path @ [fst kv]) Removed]) previous) @
     map (\<lambda>kv. change_at (path @ [fst kv]) Added)
       (filter (\<lambda>kv. bt_get previous (fst kv) = None) current)"

definition snapshot_diff :: "snapshot \<Rightarrow> snapshot \<Rightarrow> change list" where
  "snapshot_diff s other =
     sort_key change_path (compare_dicts (snap_values s) (snap_values other) [])"

definition as_snapshot :: "(string, fvalue) result \<Rightarrow> (error, snapshot) result" where
  "as_snapshot serialized =
     (case serialized of
        Inr (FDict _ d) \<Rightarrow> Inr (snapshot_new d)
      | Inr _ \<Rightarrow> Inl (error_new KType ''only a table has paths to compare; this serializes to a scalar'')
      | Inl m \<Rightarrow> Inl (error_new KType m))"

definition changed_paths :: "(string, fvalue) result \<Rightarrow> (string, fvalue) result \<Rightarrow> (error, change list) result" where
  "changed_paths previous current =
     and_then (as_snapshot previous) (\<lambda>a. and_then (as_snapshot current) (\<lambda>b. Inr (snapshot_diff a b)))"

section \<open>Reading by path\<close>

lemma snapshot_at_walk: "snapshot_at s path = dict_at (snap_values s) (split_on CHR ''.'' path)"
  by (cases "split_on CHR ''.'' path") (simp_all add: snapshot_at_def)

lemma split_on_append_dot: "split_on c (a @ c # b) = split_on c a @ split_on c b"
proof (induction a)
  case (Cons x a)
  obtain w ws where "split_on c a = w # ws" by (cases "split_on c a") auto
  with Cons show ?case by auto
qed simp

lemma sub_at:
  "snapshot_sub s path = Some t \<Longrightarrow> snapshot_at t rest = snapshot_at s (path @ ''.'' @ rest)"
proof -
  assume "snapshot_sub s path = Some t"
  then obtain tg nested where n: "snapshot_at s path = Some (FDict tg nested)" "snap_values t = nested"
    by (auto simp: snapshot_sub_def split: option.splits fvalue.splits)
  have "split_on CHR ''.'' rest \<noteq> []" by simp
  with n show ?thesis
    by (simp add: snapshot_at_walk split_on_append_dot fwalk_append fwalk_tag [of "split_on CHR ''.'' rest" tg])
qed

lemma map_of_map_filter_strip:
  assumes "distinct (map fst m)"
  shows "map_of (rev (List.map_filter (\<lambda>(leaf, origin).
      map_option (\<lambda>rest. (rest, origin)) (strip_prefix pre leaf)) m)) r = map_of m (pre @ r)"
  using assms
proof (induction m)
  case (Cons kv m)
  obtain k v where kv: "kv = (k, v)" by (cases kv)
  from Cons.prems kv have "map_of m k = None" by (simp add: map_of_eq_None_iff)
  with Cons kv show ?case
    by (auto simp: map_filter_simps map_add_def strip_prefix_Some_iff split: option.splits)
qed (simp add: map_filter_simps)



section \<open>What a comparison reports\<close>

lemma compare_values_dicts [simp]:
  "compare_values (FDict t a) (FDict t' b) path = compare_dicts a b path"
  by (simp add: compare_dicts_def)

lemma compare_values_leaf:
  "\<not> (is_fdict u \<and> is_fdict w) \<Longrightarrow>
   compare_values u w path = (if values_equal u w then [] else [change_at path Modified])"
  by (cases u; cases w) auto

declare compare_values.simps [simp del]

text \<open>
  The specification: at a path \<open>p\<close> that both trees reach through tables, something is only in
  the old one, only in the new one, or different in the two with at least one no table.
\<close>

definition parent_dict :: "dict \<Rightarrow> string list \<Rightarrow> bool" where
  "parent_dict d p \<longleftrightarrow> p \<noteq> [] \<and> (\<exists>w. dict_at d (butlast p) = Some w \<and> is_fdict w)"

fun changed_at :: "dict \<Rightarrow> dict \<Rightarrow> string list \<Rightarrow> change_kind \<Rightarrow> bool" where
  "changed_at a b p Removed \<longleftrightarrow> parent_dict b p \<and> dict_at a p \<noteq> None \<and> dict_at b p = None"
| "changed_at a b p Added \<longleftrightarrow> parent_dict a p \<and> dict_at a p = None \<and> dict_at b p \<noteq> None"
| "changed_at a b p Modified \<longleftrightarrow> (\<exists>u w. p \<noteq> [] \<and> dict_at a p = Some u \<and> dict_at b p = Some w \<and>
     \<not> (is_fdict u \<and> is_fdict w) \<and> \<not> values_equal u w)"

lemma parent_dict_Cons:
  "parent_dict d (k # q) \<longleftrightarrow>
     (if q = [] then True else \<exists>t d'. bt_get d k = Some (FDict t d') \<and> parent_dict d' q)"
proof (cases q)
  case (Cons x xs)
  show ?thesis
  proof (cases "bt_get d k")
    case (Some v)
    show ?thesis
    proof (cases v)
      case (FDict t d')
      with Cons Some show ?thesis
        by (cases "butlast (x # xs)") (auto simp: parent_dict_def fwalk_tag)
    qed (use Cons Some in \<open>auto simp: parent_dict_def fwalk_not_dict split: if_splits elim: fwalk.elims\<close>)
  qed (use Cons in \<open>auto simp: parent_dict_def\<close>)
qed (simp add: parent_dict_def)

lemma fwalk_snoc: "fwalk v (p @ [s]) = Some u \<Longrightarrow> \<exists>w. fwalk v p = Some w \<and> is_fdict w"
  by (cases "fwalk v p") (auto simp: fwalk_append is_fdict_iff elim: fwalk.elims)

lemma parent_dict_at: "p \<noteq> [] \<Longrightarrow> dict_at d p = Some u \<Longrightarrow> parent_dict d p"
  using fwalk_snoc [of _ "butlast p" "last p"] by (simp add: parent_dict_def)

lemma dict_at_deep:
  "q \<noteq> [] \<Longrightarrow> dict_at d (k # q) =
     (case bt_get d k of Some (FDict t d') \<Rightarrow> dict_at d' q | _ \<Rightarrow> None)"
  by (cases q) (auto simp: fwalk_tag [of q] split: option.splits fvalue.splits)

lemma changed_at_Cons:
  assumes q: "q \<noteq> []"
  shows "changed_at a b (k # q) kind \<longleftrightarrow>
     (\<exists>t a' t' b'. bt_get a k = Some (FDict t a') \<and> bt_get b k = Some (FDict t' b') \<and> changed_at a' b' q kind)"
proof (cases kind)
  case Added
  with q show ?thesis
    by (auto simp: parent_dict_Cons dict_at_deep simp del: fwalk.simps split: option.splits fvalue.splits)
next
  case Removed
  with q show ?thesis
    by (auto simp: parent_dict_Cons dict_at_deep simp del: fwalk.simps split: option.splits fvalue.splits)
next
  case Modified
  with q show ?thesis
    by (auto simp: dict_at_deep simp del: fwalk.simps split: option.splits fvalue.splits)
qed

lemma changed_at_single:
  "changed_at a b [k] kind \<longleftrightarrow>
     (case (bt_get a k, bt_get b k) of
        (None, None) \<Rightarrow> False
      | (Some _, None) \<Rightarrow> kind = Removed
      | (None, Some _) \<Rightarrow> kind = Added
      | (Some u, Some w) \<Rightarrow> kind = Modified \<and> \<not> (is_fdict u \<and> is_fdict w) \<and> \<not> values_equal u w)"
  by (cases kind) (auto simp: parent_dict_def split: option.splits)

lemma changed_at_Nil [simp]: "\<not> changed_at a b [] kind"
  by (cases kind) (auto simp: parent_dict_def)

lemma compare_dicts_mem:
  assumes "bt_ok a" "bt_ok b"
  shows "c \<in> set (compare_dicts a b path) \<longleftrightarrow>
     (\<exists>k. case (bt_get a k, bt_get b k) of
        (None, None) \<Rightarrow> False
      | (Some u, None) \<Rightarrow> c = change_at (path @ [k]) Removed
      | (None, Some w) \<Rightarrow> c = change_at (path @ [k]) Added
      | (Some u, Some w) \<Rightarrow> c \<in> set (compare_values u w (path @ [k])))" (is "_ \<longleftrightarrow> (\<exists>k. ?R k)")
proof -
  have a: "(k, u) \<in> set a \<longleftrightarrow> bt_get a k = Some u" and b: "(k, u) \<in> set b \<longleftrightarrow> bt_get b k = Some u" for k u
    using assms by (simp_all add: bt_ok_distinct map_of_eq_Some_iff)
  have 1: "c \<in> set (concat (map f a)) \<longleftrightarrow> (\<exists>k u. bt_get a k = Some u \<and> c \<in> set (f (k, u)))" for f
    unfolding a [symmetric] by auto
  have 2: "c \<in> set (map (\<lambda>kv. change_at (path @ [fst kv]) Added) (filter (\<lambda>kv. bt_get a (fst kv) = None) b)) \<longleftrightarrow>
      (\<exists>k w. bt_get b k = Some w \<and> bt_get a k = None \<and> c = change_at (path @ [k]) Added)"
    unfolding b [symmetric] by force
  have "c \<in> set (compare_dicts a b path) \<longleftrightarrow>
      (\<exists>k u. bt_get a k = Some u \<and> c \<in> set (case bt_get b k of
          Some after \<Rightarrow> compare_values u after (path @ [k]) | None \<Rightarrow> [change_at (path @ [k]) Removed])) \<or>
      (\<exists>k w. bt_get b k = Some w \<and> bt_get a k = None \<and> c = change_at (path @ [k]) Added)"
    unfolding compare_dicts_def set_append Un_iff 1 2 fst_conv snd_conv ..
  also have "\<dots> \<longleftrightarrow> (\<exists>k. ?R k)" (is "?X \<longleftrightarrow> _")
  proof
    assume ?X
    then show "\<exists>k. ?R k"
    proof (elim disjE exE conjE)
      fix k u assume "bt_get a k = Some u" "c \<in> set (case bt_get b k of
          Some after \<Rightarrow> compare_values u after (path @ [k]) | None \<Rightarrow> [change_at (path @ [k]) Removed])"
      then have "?R k" by (auto split: option.splits)
      then show ?thesis ..
    next
      fix k w assume "bt_get b k = Some w" "bt_get a k = None" "c = change_at (path @ [k]) Added"
      then have "?R k" by simp
      then show ?thesis ..
    qed
  next
    assume "\<exists>k. ?R k"
    then obtain k where k: "?R k" ..
    show ?X
    proof (cases "bt_get a k")
      case None
      with k show ?thesis by (intro disjI2 exI [of _ k]) (auto split: option.splits)
    next
      case (Some u)
      with k show ?thesis by (intro disjI1 exI [of _ k] exI [of _ u]) (auto split: option.splits)
    qed
  qed
  finally show ?thesis .
qed

lemma compare_values_mem:
  "fvalue_ok u \<Longrightarrow> fvalue_ok w \<Longrightarrow>
   c \<in> set (compare_values u w path) \<longleftrightarrow>
     (case (u, w) of
        (FDict _ a, FDict _ b) \<Rightarrow> \<exists>p kind. c = change_at (path @ p) kind \<and> changed_at a b p kind
      | _ \<Rightarrow> \<not> values_equal u w \<and> c = change_at path Modified)"
proof (induction u arbitrary: w path)
  case (FDict t a)
  show ?case
  proof (cases w)
    case w: (FDict t' b)
    have ok: "dict_ok a" "dict_ok b" using FDict.prems w by simp_all
    then have bt: "bt_ok a" "bt_ok b" by (simp_all add: dict_ok_def)
    let ?R = "\<lambda>k. case (bt_get a k, bt_get b k) of
        (None, None) \<Rightarrow> False
      | (Some u, None) \<Rightarrow> c = change_at (path @ [k]) Removed
      | (None, Some w) \<Rightarrow> c = change_at (path @ [k]) Added
      | (Some u, Some w) \<Rightarrow> c \<in> set (compare_values u w (path @ [k]))"
    have step: "?R k \<longleftrightarrow> (\<exists>q kind. c = change_at (path @ k # q) kind \<and> changed_at a b (k # q) kind)" for k
    proof (cases "bt_get a k")
      case None
      have "changed_at a b (k # q) kind \<longleftrightarrow> q = [] \<and> kind = Added \<and> bt_get b k \<noteq> None" for q kind
        using None by (cases "q = []") (auto simp: changed_at_Cons changed_at_single split: option.splits)
      with None show ?thesis by (auto split: option.splits)
    next
      case u: (Some u)
      show ?thesis
      proof (cases "bt_get b k")
        case None
        have "changed_at a b (k # q) kind \<longleftrightarrow> q = [] \<and> kind = Removed" for q kind
          using u None by (cases "q = []") (auto simp: changed_at_Cons changed_at_single)
        with u None show ?thesis by auto
      next
        case w: (Some w)
        have IH: "c \<in> set (compare_values u w (path @ [k])) \<longleftrightarrow>
            (case (u, w) of
               (FDict _ a, FDict _ b) \<Rightarrow> \<exists>p kind. c = change_at ((path @ [k]) @ p) kind \<and> changed_at a b p kind
             | _ \<Rightarrow> \<not> values_equal u w \<and> c = change_at (path @ [k]) Modified)"
          using FDict.IH [of "(k, u)" u w "path @ [k]"] map_of_SomeD [OF u] dict_ok_get [OF ok(1) u]
            dict_ok_get [OF ok(2) w] by auto
        show ?thesis
        proof (cases "is_fdict u \<and> is_fdict w")
          case True
          then obtain t1 a1 t2 b1 where d: "u = FDict t1 a1" "w = FDict t2 b1" by (auto simp: is_fdict_iff)
          have "changed_at a b (k # q) kind \<longleftrightarrow> changed_at a1 b1 q kind" for q kind
            using u w d by (cases "q = []") (auto simp: changed_at_Cons changed_at_single)
          with u w d IH show ?thesis by simp
        next
          case False
          then have "changed_at a b (k # q) kind \<longleftrightarrow> q = [] \<and> kind = Modified \<and> \<not> values_equal u w" for q kind
            using u w by (cases "q = []") (auto simp: changed_at_Cons changed_at_single)
          with u w False show ?thesis by (auto simp: compare_values_leaf)
        qed
      qed
    qed
    have "c \<in> set (compare_values (FDict t a) w path) \<longleftrightarrow>
        (\<exists>k q kind. c = change_at (path @ k # q) kind \<and> changed_at a b (k # q) kind)"
      unfolding w compare_values_dicts compare_dicts_mem [OF bt] using step by blast
    also have "\<dots> \<longleftrightarrow> (\<exists>p kind. c = change_at (path @ p) kind \<and> changed_at a b p kind)"
      by (metis changed_at_Nil neq_Nil_conv)
    finally show ?thesis by (simp add: w)
  qed (auto simp: compare_values_leaf)
qed (auto simp: compare_values_leaf split: fvalue.splits)

text \<open>
  C13 (diff_is_exact): the difference of two snapshots reports a path exactly when it changed there:
  removed when only the old snapshot has it under a table both have, added when only the new one
  has it, modified when both have it, at least one not as a table, and the two values are not
  equal. Nothing else is reported, and the report is sorted by path.
\<close>

theorem diff_is_exact:
  assumes "dict_ok (snap_values s)" "dict_ok (snap_values t)"
  shows "set (snapshot_diff s t) =
      {change_at p kind | p kind. changed_at (snap_values s) (snap_values t) p kind} \<and>
    sorted (map change_path (snapshot_diff s t))"
proof -
  have "c \<in> set (compare_dicts (snap_values s) (snap_values t) []) \<longleftrightarrow>
      (\<exists>p kind. c = change_at p kind \<and> changed_at (snap_values s) (snap_values t) p kind)" for c
    using compare_values_mem [of "FDict Default_tag (snap_values s)" "FDict Default_tag (snap_values t)" c "[]"]
      assms by simp
  then show ?thesis by (auto simp: snapshot_diff_def)
qed

theorem diff_is_exact_witness:
  "change_at [''a''] Removed \<in> set (snapshot_diff (snapshot_new [(''a'', FBool Default_tag True)]) (snapshot_new []))"
  using diff_is_exact [of "snapshot_new [(''a'', FBool Default_tag True)]" "snapshot_new []"]
  by (auto simp: snapshot_new_def dict_ok_def parent_dict_def intro!: exI [of _ "[''a'']"] exI [of _ Removed])

section \<open>No difference\<close>

lemma change_at_not_Nil: "dict_ok a \<Longrightarrow> dict_ok b \<Longrightarrow> compare_dicts a b path = [] \<longleftrightarrow>
     (\<forall>k. case (bt_get a k, bt_get b k) of
        (None, None) \<Rightarrow> True
      | (Some u, Some w) \<Rightarrow> compare_values u w (path @ [k]) = []
      | _ \<Rightarrow> False)"
proof -
  assume "dict_ok a" "dict_ok b"
  then have bt: "bt_ok a" "bt_ok b" by (simp_all add: dict_ok_def)
  have "compare_dicts a b path = [] \<longleftrightarrow> (\<forall>c. c \<notin> set (compare_dicts a b path))" by auto
  also have "\<dots> \<longleftrightarrow> (\<forall>k c. \<not> (case (bt_get a k, bt_get b k) of
        (None, None) \<Rightarrow> False
      | (Some u, None) \<Rightarrow> c = change_at (path @ [k]) Removed
      | (None, Some w) \<Rightarrow> c = change_at (path @ [k]) Added
      | (Some u, Some w) \<Rightarrow> c \<in> set (compare_values u w (path @ [k]))))"
    unfolding compare_dicts_mem [OF bt] by blast
  also have "\<dots> \<longleftrightarrow> (\<forall>k. case (bt_get a k, bt_get b k) of
        (None, None) \<Rightarrow> True
      | (Some u, Some w) \<Rightarrow> compare_values u w (path @ [k]) = []
      | _ \<Rightarrow> False)"
  proof (intro all_cong1)
    fix k
    show "(\<forall>c. \<not> (case (bt_get a k, bt_get b k) of
        (None, None) \<Rightarrow> False
      | (Some u, None) \<Rightarrow> c = change_at (path @ [k]) Removed
      | (None, Some w) \<Rightarrow> c = change_at (path @ [k]) Added
      | (Some u, Some w) \<Rightarrow> c \<in> set (compare_values u w (path @ [k])))) \<longleftrightarrow>
      (case (bt_get a k, bt_get b k) of
        (None, None) \<Rightarrow> True
      | (Some u, Some w) \<Rightarrow> compare_values u w (path @ [k]) = []
      | _ \<Rightarrow> False)"
      by (cases "bt_get a k"; cases "bt_get b k") (auto simp: ex_in_conv [symmetric] simp del: ex_in_conv)
  qed
  finally show ?thesis .
qed

lemma from_figment_dict:
  "bt_ok d \<Longrightarrow> from_figment (FDict t d) = Table (map (\<lambda>kv. (fst kv, from_figment (snd kv))) d)"
  by (simp add: bt_collect_sorted comp_def)

lemma get_map_snd: "bt_get (map (\<lambda>kv. (fst kv, f (snd kv))) d) k = map_option f (bt_get d k)"
  by (induction d) auto

lemma values_equal_dicts:
  assumes "bt_ok a" "bt_ok b"
  shows "values_equal (FDict t a) (FDict t' b) \<longleftrightarrow>
     (\<forall>k. case (bt_get a k, bt_get b k) of
        (None, None) \<Rightarrow> True | (Some u, Some w) \<Rightarrow> values_equal u w | _ \<Rightarrow> False)"
proof -
  have ok: "bt_ok (map (\<lambda>kv. (fst kv, from_figment (snd kv))) d)" if "bt_ok d" for d
    using that by (simp add: comp_def)
  show ?thesis
    unfolding values_equal_def from_figment_dict [OF assms(1)] from_figment_dict [OF assms(2)]
      value_eq.simps table_eq_iff [OF ok [OF assms(1)] ok [OF assms(2)]] get_map_snd
    by (intro all_cong1) (simp split: option.splits)
qed

lemma compare_values_Nil:
  "fvalue_ok u \<Longrightarrow> fvalue_ok w \<Longrightarrow> compare_values u w path = [] \<longleftrightarrow> values_equal u w"
proof (induction u arbitrary: w path)
  case (FDict t a)
  show ?case
  proof (cases w)
    case w: (FDict t' b)
    have ok: "dict_ok a" "dict_ok b" using FDict.prems w by simp_all
    then have bt: "bt_ok a" "bt_ok b" by (simp_all add: dict_ok_def)
    have IH: "compare_values u v (path @ [k]) = [] \<longleftrightarrow> values_equal u v"
      if "bt_get a k = Some u" "bt_get b k = Some v" for k u v
      using FDict.IH [of "(k, u)" u v "path @ [k]"] map_of_SomeD [OF that(1)] dict_ok_get [OF ok(1) that(1)]
        dict_ok_get [OF ok(2) that(2)] by auto
    show ?thesis
      unfolding w compare_values_dicts change_at_not_Nil [OF ok] values_equal_dicts [OF bt]
      by (intro all_cong1) (auto simp: IH split: option.splits)
  qed (simp_all add: compare_values_leaf)
qed (simp_all add: compare_values_leaf)

text \<open>
  C39 (no_change_iff_equal): two snapshots have no difference exactly when the values they convert to
  are equal, so a reload that changed nothing a \<open>Value\<close> can see reports nothing.
\<close>

theorem no_change_iff_equal:
  assumes "dict_ok (snap_values s)" "dict_ok (snap_values t)"
  shows "snapshot_diff s t = [] \<longleftrightarrow> value_eq (to_value s) (to_value t)"
proof -
  have "snapshot_diff s t = [] \<longleftrightarrow>
      compare_values (FDict Default_tag (snap_values s)) (FDict Default_tag (snap_values t)) [] = []"
    by (simp add: snapshot_diff_def) (metis length_0_conv length_sort)
  also have "\<dots> \<longleftrightarrow> values_equal (FDict Default_tag (snap_values s)) (FDict Default_tag (snap_values t))"
    using assms by (intro compare_values_Nil) simp_all
  finally show ?thesis by (simp add: values_equal_def to_value_def)
qed

theorem no_change_iff_equal_witness:
  "snapshot_diff (snapshot_new [(''a'', FNum Default_tag (U8 3))]) (snapshot_new [(''a'', FNum (Provider_tag 1) (I64 3))]) = []"
  by (subst no_change_iff_equal) (simp_all add: snapshot_new_def to_value_def bt_collect_def bt_extend_def dict_ok_def)

section \<open>Leaves\<close>

lemma from_figment_leaf: "\<not> is_fdict v \<Longrightarrow> \<not> is_table (from_figment v)"
proof (cases v)
  case (FNum t n)
  then show ?thesis by (cases n) auto
qed auto

lemma leaves_nontable: "\<not> is_table v \<Longrightarrow> leaves v path = [path]"
  by (cases v) auto

lemma collect_leaves_eq:
  "fvalue_ok v \<Longrightarrow> v = FDict t d \<Longrightarrow> d \<noteq> [] \<Longrightarrow>
   collect_leaves d path = map (join_with ''.'') (leaves (from_figment v) path)"
proof (induction v arbitrary: t d path)
  case (FDict t' d')
  have ok: "dict_ok d" and d: "d' = d" using FDict.prems by auto
  have bt: "bt_ok d" using ok by (simp add: dict_ok_def)
  have entry: "(case snd kv of
         FDict _ nested \<Rightarrow>
           if nested \<noteq> [] then collect_leaves nested (path @ [fst kv])
           else [join_with ''.'' (path @ [fst kv])]
       | _ \<Rightarrow> [join_with ''.'' (path @ [fst kv])]) =
      map (join_with ''.'') (leaves (from_figment (snd kv)) (path @ [fst kv]))" if "kv \<in> set d" for kv
  proof (cases "snd kv")
    case (FDict t1 nested)
    have "fvalue_ok (snd kv)" using ok that by (auto simp: dict_ok_def)
    with FDict.IH [of kv "snd kv" t1 nested "path @ [fst kv]"] that d FDict show ?thesis
      by (cases "nested = []") (auto simp: bt_collect_def bt_extend_def snds.simps simp del: collect_leaves.simps)
  next
    case (FNum t1 n)
    then show ?thesis by (cases n) auto
  qed auto
  have m: "map (\<lambda>kv. (fst kv, from_figment (snd kv))) d \<noteq> []" using FDict.prems by simp
  have "collect_leaves d path =
      concat (map (\<lambda>kv. map (join_with ''.'') (leaves (from_figment (snd kv)) (path @ [fst kv]))) d)"
    unfolding collect_leaves.simps [of d path]
    by (rule arg_cong [where f = concat], rule map_cong [OF refl]) (rule entry)
  also have "\<dots> = map (join_with ''.'') (leaves (from_figment (FDict t d)) path)"
    unfolding from_figment_dict [OF bt] leaves.simps if_P [OF m] by (simp add: map_concat comp_def)
  finally show ?case using FDict.prems by simp
qed simp_all

text \<open>
  Also (leaf_paths_agree): a snapshot lists the leaf paths of the value it converts to, in the same
  order, so the two listings of the crate never disagree.
\<close>

theorem leaf_paths_agree:
  assumes "dict_ok (snap_values s)"
  shows "snapshot_leaf_paths s = leaf_paths (to_value s)"
proof (cases "snap_values s = []")
  case True
  then show ?thesis by (simp add: snapshot_leaf_paths_def to_value_def leaf_paths_def bt_collect_def bt_extend_def)
next
  case False
  have bt: "bt_ok (snap_values s)" using assms by (simp add: dict_ok_def)
  let ?t = "map (\<lambda>kv. (fst kv, from_figment (snd kv))) (snap_values s)"
  have v: "to_value s = Table ?t" using from_figment_dict [OF bt, of Default_tag] by (simp add: to_value_def)
  have "?t \<noteq> []" using False by simp
  then show ?thesis
    unfolding snapshot_leaf_paths_def v
    using collect_leaves_eq [of "FDict Default_tag (snap_values s)" Default_tag "snap_values s" "[]"] assms False
      leaf_paths_leaves [of ?t] from_figment_dict [OF bt, of Default_tag]
    by (simp del: collect_leaves.simps leaves.simps)
qed

theorem leaf_paths_agree_witness:
  "snapshot_leaf_paths (snapshot_new [(''a'', FBool Default_tag True)]) =
     leaf_paths (to_value (snapshot_new [(''a'', FBool Default_tag True)]))"
  by (rule leaf_paths_agree) (simp add: snapshot_new_def dict_ok_def)

section \<open>Leaving a key out\<close>

lemma without_top_level_at:
  "snapshot_at (without_top_level s key) path =
     (if hd (split_on CHR ''.'' path) = key then None else snapshot_at s path)"
  by (cases "split_on CHR ''.'' path")
    (auto simp: snapshot_at_def without_top_level_def bt_get_remove)

end
