(* ===== verification/Loader.thy ===== *)
theory Loader imports Origin Aliases Snapshots begin

text \<open>
  \<open>dynamic-config/src/loader/mod.rs\<close> and \<open>loader/aliases_pass.rs\<close>: the table of layers in their
  order, the merge of each, the alias pass over the merged result, and the questions asked of it.

  A merge takes the figment and the specification and returns the figment or an error. The
  specification of the order is the stack: the providers every active layer adds, which is what
  the same merges record when they run over a backend that only remembers what it was given.
\<close>

section \<open>The merges\<close>

definition merge_defaults :: "'f platform \<Rightarrow> 'f \<Rightarrow> load_spec \<Rightarrow> (error, 'f) result" where
  "merge_defaults P f spec =
     (case spec_defaults spec of
        Some l \<Rightarrow> Inr (fmerge (ops P) f (layer_provider l (section_profile (spec_key spec)) defaults_name))
      | None \<Rightarrow> Inr f)"

fun merge_found :: "'f platform \<Rightarrow> 'f \<Rightarrow> (string \<times> format) list \<Rightarrow> string option \<Rightarrow> layout \<Rightarrow> (error, 'f) result" where
  "merge_found P f [] profile layout = Inr f"
| "merge_found P f ((path, fmt) # rest) profile layout =
     and_then (merge_file P f path fmt layout) (\<lambda>f1.
     and_then (merge_profile_variant P f1 path fmt profile layout) (\<lambda>f2.
       merge_found P f2 rest profile layout))"

definition merge_discovered :: "'f platform \<Rightarrow> 'f \<Rightarrow> load_spec \<Rightarrow> (error, 'f) result" where
  "merge_discovered P f spec =
     and_then (validated_profile P spec) (\<lambda>profile.
       case spec_search spec of
         None \<Rightarrow> Inr f
       | Some search \<Rightarrow> merge_found P f (search_resolve P search) profile (layout_of spec))"

fun merge_sources :: "'f platform \<Rightarrow> 'f \<Rightarrow> source list \<Rightarrow> string option \<Rightarrow> layout \<Rightarrow> (error, 'f) result" where
  "merge_sources P f [] profile layout = Inr f"
| "merge_sources P f (src # rest) profile layout =
     and_then (merge_source P f src layout) (\<lambda>f1.
     and_then
       (case (source_path src, source_format src) of
          (Some path, Some fmt) \<Rightarrow> merge_profile_variant P f1 path fmt profile layout
        | _ \<Rightarrow> Inr f1) (\<lambda>f2.
       merge_sources P f2 rest profile layout))"

definition merge_listed :: "'f platform \<Rightarrow> 'f \<Rightarrow> load_spec \<Rightarrow> (error, 'f) result" where
  "merge_listed P f spec =
     and_then (validated_profile P spec) (\<lambda>profile.
       merge_sources P f (spec_sources spec) profile (layout_of spec))"

definition merge_remote :: "'f platform \<Rightarrow> 'f \<Rightarrow> load_spec \<Rightarrow> (error, 'f) result" where
  "merge_remote P f spec =
     (case spec_remote spec of
        None \<Rightarrow> Inr f
      | Some remote \<Rightarrow>
          (case remote_document remote of
             None \<Rightarrow> Inr f
           | Some document \<Rightarrow>
               merge_named_text P f (fetched_text document) (fetched_format document)
                 (remote_prefix @ (case remote_describe remote of Some d \<Rightarrow> d | None \<Rightarrow> ''(unnamed)''))
                 None (layout_of spec)))"

definition merge_environment :: "'f platform \<Rightarrow> 'f \<Rightarrow> load_spec \<Rightarrow> (error, 'f) result" where
  "merge_environment P f spec =
     (case full_env_prefix spec of
        None \<Rightarrow> Inr f
      | Some env_pre \<Rightarrow>
          and_then (if spec_strict_env spec then reject_ambiguous P env_pre else Inr ()) (\<lambda>_.
            Inr (fmerge (ops P) f
              (environment P env_pre (spec_key spec) (spec_nest spec) (spec_allow_empty_env spec)))))"

fun read_env_files :: "'f platform \<Rightarrow> string btree \<Rightarrow> string list \<Rightarrow> (error, string btree) result" where
  "read_env_files P entries [] = Inr entries"
| "read_env_files P entries (file # rest) =
     and_then (dotenv_read P file) (\<lambda>es. read_env_files P (bt_extend entries es) rest)"

definition bindings_of :: "load_spec \<Rightarrow> bindings" where
  "bindings_of spec = (case spec_env_bindings spec of Some b \<Rightarrow> b | None \<Rightarrow> [])"

definition env_file_entries :: "'f platform \<Rightarrow> load_spec \<Rightarrow> (error, string btree) result" where
  "env_file_entries P spec =
     (if \<not> has_dotenv P then Inr []
      else if spec_env_files spec = [] \<or> bindings_is_empty (bindings_of spec) then Inr []
      else read_env_files P [] (spec_env_files spec))"

definition merge_bindings :: "'f platform \<Rightarrow> 'f \<Rightarrow> load_spec \<Rightarrow> (error, 'f) result" where
  "merge_bindings P f spec =
     (case spec_env_bindings spec of
        None \<Rightarrow> Inr f
      | Some b \<Rightarrow>
          and_then (env_file_entries P spec) (\<lambda>fallback.
            Inr (foldl (fmerge (ops P)) f
              (binding_providers P b (spec_key spec) (spec_allow_empty_env spec) fallback))))"

definition merge_flags :: "'f platform \<Rightarrow> 'f \<Rightarrow> load_spec \<Rightarrow> (error, 'f) result" where
  "merge_flags P f spec =
     (case spec_flags spec of
        Some l \<Rightarrow> Inr (fmerge (ops P) f (layer_provider l (section_profile (spec_key spec)) flags_name))
      | None \<Rightarrow> Inr f)"

definition merge_overrides :: "'f platform \<Rightarrow> 'f \<Rightarrow> load_spec \<Rightarrow> (error, 'f) result" where
  "merge_overrides P f spec =
     (case spec_overrides spec of
        Some l \<Rightarrow> Inr (fmerge (ops P) f (layer_provider l (section_profile (spec_key spec)) overrides_name))
      | None \<Rightarrow> Inr f)"

section \<open>The table of layers\<close>

record 'f layer_def =
  ld_name :: string
  ld_active :: "load_spec \<Rightarrow> bool"
  ld_merge :: "'f \<Rightarrow> load_spec \<Rightarrow> (error, 'f) result"

definition has_layer :: "layer option \<Rightarrow> bool" where
  "has_layer l \<longleftrightarrow> (case l of None \<Rightarrow> False | Some entries \<Rightarrow> \<not> layer_is_empty entries)"

definition layers :: "'f platform \<Rightarrow> 'f layer_def list" where
  "layers P =
    [\<lparr>ld_name = ''default'', ld_active = \<lambda>spec. has_layer (spec_defaults spec), ld_merge = merge_defaults P\<rparr>,
     \<lparr>ld_name = ''discovered'', ld_active = \<lambda>spec. spec_search spec \<noteq> None, ld_merge = merge_discovered P\<rparr>,
     \<lparr>ld_name = ''file'', ld_active = \<lambda>spec. spec_sources spec \<noteq> [], ld_merge = merge_listed P\<rparr>,
     \<lparr>ld_name = ''remote'',
      ld_active = \<lambda>spec. (case spec_remote spec of None \<Rightarrow> False | Some r \<Rightarrow> remote_document r \<noteq> None),
      ld_merge = merge_remote P\<rparr>,
     \<lparr>ld_name = ''secrets'', ld_active = \<lambda>spec. spec_secrets_dir spec \<noteq> None, ld_merge = merge_secrets_dir P\<rparr>,
     \<lparr>ld_name = ''.env'', ld_active = \<lambda>spec. spec_env_files spec \<noteq> [], ld_merge = merge_env_files P\<rparr>,
     \<lparr>ld_name = ''environment'', ld_active = \<lambda>spec. full_env_prefix spec \<noteq> None, ld_merge = merge_environment P\<rparr>,
     \<lparr>ld_name = ''binding'',
      ld_active = \<lambda>spec. (case spec_env_bindings spec of None \<Rightarrow> False | Some b \<Rightarrow> \<not> bindings_is_empty b),
      ld_merge = merge_bindings P\<rparr>,
     \<lparr>ld_name = ''flag'', ld_active = \<lambda>spec. has_layer (spec_flags spec), ld_merge = merge_flags P\<rparr>,
     \<lparr>ld_name = ''override'', ld_active = \<lambda>spec. has_layer (spec_overrides spec), ld_merge = merge_overrides P\<rparr>]"

fun merge_layers :: "'f layer_def list \<Rightarrow> 'f \<Rightarrow> load_spec \<Rightarrow> (error, 'f) result" where
  "merge_layers [] f spec = Inr f"
| "merge_layers (l # ls) f spec =
     (if ld_active l spec then and_then (ld_merge l f spec) (\<lambda>f'. merge_layers ls f' spec)
      else merge_layers ls f spec)"

definition build :: "'f platform \<Rightarrow> load_spec \<Rightarrow> (error, 'f) result" where
  "build P spec =
     and_then (validated_profile P spec) (\<lambda>_. merge_layers (layers P) (fnew (ops P)) spec)"

fun figments_of :: "'f platform \<Rightarrow> 'f layer_def list \<Rightarrow> load_spec \<Rightarrow> (error, (string \<times> 'f) list) result" where
  "figments_of P [] spec = Inr []"
| "figments_of P (l # ls) spec =
     (if ld_active l spec then
        and_then (ld_merge l (fnew (ops P)) spec) (\<lambda>f.
        and_then (figments_of P ls spec) (\<lambda>rest.
          Inr ((ld_name l, fselect (ops P) f (profile_from (section_profile (spec_key spec)))) # rest)))
      else figments_of P ls spec)"

definition layer_figments :: "'f platform \<Rightarrow> load_spec \<Rightarrow> (error, (string \<times> 'f) list) result" where
  "layer_figments P spec = and_then (validated_profile P spec) (\<lambda>_. figments_of P (layers P) spec)"

section \<open>The alias pass\<close>

definition alias_prefix :: string where
  "alias_prefix = ''an alias for ''"

definition aliased_provider :: "dict \<Rightarrow> profile \<Rightarrow> string \<Rightarrow> metadata option \<Rightarrow> provider" where
  "aliased_provider values profile old supplier =
     \<lparr>p_metadata = (case supplier of Some md \<Rightarrow> md | None \<Rightarrow> metadata_named (alias_prefix @ old)),
      p_data = Inr [(profile, values)]\<rparr>"

text \<open>One alias: \<open>None\<close> when it fills nothing.\<close>

definition fill_alias :: "'f backend_ops \<Rightarrow> load_spec \<Rightarrow> 'f \<Rightarrow> string list \<Rightarrow> string \<Rightarrow> string \<Rightarrow> 'f option" where
  "fill_alias B spec f filled old new =
     (if new \<in> set filled then None
      else
        let selected = fselect B f (profile_from (section_profile (spec_key spec)));
            supplied_above_defaults =
              (case find_metadata B selected new of Some md \<Rightarrow> md_name md \<noteq> defaults_name | None \<Rightarrow> False)
        in if supplied_above_defaults then None
           else
             let old_path = snd (split_section old);
                 src = (case fst (split_section old) of
                     Some sec \<Rightarrow> fselect B f (profile_from (section_profile sec))
                   | None \<Rightarrow> selected)
             in case find_value B src old_path of
                  Inl _ \<Rightarrow> None
                | Inr v \<Rightarrow> Some (fmerge B f (aliased_provider (insert_path [] new v)
                    (profile_from (section_profile (spec_key spec))) old (find_metadata B src old_path))))"

fun alias_round :: "'f backend_ops \<Rightarrow> load_spec \<Rightarrow> (string \<times> string) list \<Rightarrow> 'f \<times> string list \<times> bool \<Rightarrow> 'f \<times> string list \<times> bool" where
  "alias_round B spec [] st = st"
| "alias_round B spec ((old, new) # rest) (f, filled, progressed) =
     (case fill_alias B spec f filled old new of
        None \<Rightarrow> alias_round B spec rest (f, filled, progressed)
      | Some f' \<Rightarrow> alias_round B spec rest (f', new # filled, True))"

lemma alias_round_filled:
  "alias_round B spec pairs (f, filled, progressed) = (f', filled', True) \<Longrightarrow>
   \<not> progressed \<Longrightarrow> card (snd ` set pairs - set filled') < card (snd ` set pairs - set filled)"
proof -
  have "set filled \<subseteq> set filled' \<and> (progressed' \<and> \<not> progressed \<longrightarrow> (\<exists>x \<in> snd ` set pairs. x \<in> set filled' \<and> x \<notin> set filled))"
    if "alias_round B spec pairs (f, filled, progressed) = (f', filled', progressed')"
    for f' filled' progressed'
    using that
  proof (induction pairs arbitrary: f filled progressed)
    case (Cons on pairs)
    obtain old new where on: "on = (old, new)" by (cases on)
    show ?case
    proof (cases "fill_alias B spec f filled old new")
      case None
      with Cons on show ?thesis by fastforce
    next
      case (Some g)
      then have "new \<notin> set filled" by (auto simp: fill_alias_def split: if_splits)
      moreover have "insert new (set filled) \<subseteq> set filled'"
        using Cons.IH [of g "new # filled" True] Cons.prems on Some by simp
      ultimately show ?thesis using on by auto
    qed
  qed simp
  from this [of f' filled' True] show "alias_round B spec pairs (f, filled, progressed) = (f', filled', True) \<Longrightarrow>
      \<not> progressed \<Longrightarrow> card (snd ` set pairs - set filled') < card (snd ` set pairs - set filled)"
    by (intro psubset_card_mono) auto
qed

function alias_loop :: "'f backend_ops \<Rightarrow> load_spec \<Rightarrow> (string \<times> string) list \<Rightarrow> 'f \<Rightarrow> string list \<Rightarrow> 'f" where
  "alias_loop B spec pairs f filled =
     (case alias_round B spec pairs (f, filled, False) of
        (f', filled', progressed) \<Rightarrow> if progressed then alias_loop B spec pairs f' filled' else f')"
  by pat_completeness auto
termination
  by (relation "measure (\<lambda>(B, spec, pairs, f, filled). card (snd ` set pairs - set filled))")
    (auto dest: alias_round_filled [OF sym])

declare alias_loop.simps [simp del]

definition apply_aliases :: "'f platform \<Rightarrow> 'f \<Rightarrow> load_spec \<Rightarrow> 'f" where
  "apply_aliases P f spec =
     (case spec_aliases spec of
        None \<Rightarrow> f
      | Some a \<Rightarrow> alias_loop (ops P) spec (aliases_pairs a) f [])"

section \<open>Loading\<close>

definition merged :: "'f platform \<Rightarrow> load_spec \<Rightarrow> (error, 'f) result" where
  "merged P spec =
     and_then (build P spec) (\<lambda>f.
       Inr (fselect (ops P) (apply_aliases P f spec) (profile_from (section_profile (spec_key spec)))))"

definition load :: "'f platform \<Rightarrow> ('f \<Rightarrow> (ferror, 't) result) \<Rightarrow> load_spec \<Rightarrow> (error, 't) result" where
  "load P extract spec =
     and_then (merged P spec) (\<lambda>f. map_err (\<lambda>e. convert P e spec) (extract f))"

definition origin_in :: "'f platform \<Rightarrow> 'f \<Rightarrow> string \<Rightarrow> string \<Rightarrow> origin" where
  "origin_in P f path nest =
     refine_env P (case find_metadata (ops P) f path of None \<Rightarrow> OUnknown | Some md \<Rightarrow> origin_of P md)
       (split_on CHR ''.'' path) nest"

definition resolved :: "'f platform \<Rightarrow> load_spec \<Rightarrow> (error, snapshot \<times> 'f) result" where
  "resolved P spec =
     and_then (merged P spec) (\<lambda>f.
     and_then (map_err (\<lambda>e. convert P e spec) (extract_dict (ops P) f)) (\<lambda>d.
       let s = snapshot_new d;
           provenance = bt_collect (List.map_filter (\<lambda>path.
             let origin = origin_in P f path (spec_nest spec) in
             if origin = OUnknown then None else Some (path, origin)) (snapshot_leaf_paths s))
       in Inr (attach_provenance provenance s, f)))"

definition take_snapshot :: "'f platform \<Rightarrow> load_spec \<Rightarrow> (error, snapshot) result" where
  "take_snapshot P spec = and_then (resolved P spec) (\<lambda>r. Inr (fst r))"

definition source_of :: "'f platform \<Rightarrow> load_spec \<Rightarrow> string \<Rightarrow> (error, origin option) result" where
  "source_of P spec path =
     and_then (merged P spec) (\<lambda>f.
       Inr (map_option (\<lambda>md. refine_env P (origin_of P md) (split_on CHR ''.'' path) (spec_nest spec))
         (find_metadata (ops P) f path)))"

definition is_set :: "'f platform \<Rightarrow> load_spec \<Rightarrow> string \<Rightarrow> (error, bool) result" where
  "is_set P spec path = and_then (merged P spec) (\<lambda>f. Inr (fcontains (ops P) f path))"

end
