(* ===== verification/Stack.thy ===== *)
theory Stack imports Loader begin

text \<open>
  The stack of a load: the providers every active layer of the table in
  \<open>dynamic-config/src/loader/mod.rs\<close> adds, layer by layer, in the order they are merged.

  It is not written down a second time: the loader's own merges are run over a backend that only
  remembers the providers it was given (\<open>recorder\<close>). The calculus \<open>refines\<close> shows, once for every
  shape of code a merge is built from, that a merge over any figment adds exactly the providers it
  records; its rules are the collection \<open>refines_intros\<close>. The result is that a load is the fold
  of the stack, which is what the properties about precedence reason over.
\<close>

section \<open>The stack of providers\<close>

definition recorder :: "provider list backend_ops" where
  "recorder = \<lparr>fnew = [], fmerge = \<lambda>ps p. ps @ [p], fselect = \<lambda>ps _. ps,
     find_value = \<lambda>_ _. Inl (ferror_from ''nothing is looked up here''), find_metadata = \<lambda>_ _. None,
     extract_dict = \<lambda>_. Inr []\<rparr>"

definition recording :: "'f platform \<Rightarrow> provider list platform" where
  "recording P = \<lparr>ops = recorder, parse_value = parse_value P, file_provider = file_provider P,
     text_provider = text_provider P, env_provider = env_provider P, environ = environ P,
     read_to_string = read_to_string P, read_bytes = read_bytes P, read_dir = read_dir P,
     stat_is_file = stat_is_file P, decrypt_text = decrypt_text P, enabled = enabled P,
     has_decrypt = has_decrypt P, has_dotenv = has_dotenv P\<rparr>"

definition map_ok :: "('a \<Rightarrow> 'b) \<Rightarrow> ('e, 'a) result \<Rightarrow> ('e, 'b) result" where
  "map_ok f r = (case r of Inl e \<Rightarrow> Inl e | Inr a \<Rightarrow> Inr (f a))"

lemma map_ok_simps [simp]: "map_ok f (Inl e) = Inl e" "map_ok f (Inr a) = Inr (f a)"
  by (simp_all add: map_ok_def)

text \<open>
  A merge refines its recording: over any figment it merges the providers the recording lists,
  in that order, and it fails with the error the recording fails with.
\<close>

definition refines :: "'f backend_ops \<Rightarrow> ('f \<Rightarrow> ('e, 'f) result) \<Rightarrow> (provider list \<Rightarrow> ('e, provider list) result) \<Rightarrow> bool" where
  "refines B m r \<longleftrightarrow> (\<forall>f. m f = map_ok (foldl (fmerge B) f) (r [])) \<and> (\<forall>ps. r ps = map_ok ((@) ps) (r []))"

named_theorems refines_intros

lemma refinesD: "refines B m r \<Longrightarrow> m f = map_ok (foldl (fmerge B) f) (r [])"
  and refinesD_append: "refines B m r \<Longrightarrow> r ps = map_ok ((@) ps) (r [])"
  unfolding refines_def by blast+

lemma refines_Inr [refines_intros]: "refines B Inr Inr"
  by (simp add: refines_def)

lemma refines_Inl [refines_intros]: "refines B (\<lambda>_. Inl e) (\<lambda>_. Inl e)"
  by (simp add: refines_def)

lemma refines_merge [refines_intros]: "refines B (\<lambda>f. Inr (fmerge B f p)) (\<lambda>ps. Inr (fmerge recorder ps p))"
  by (simp add: refines_def recorder_def)

lemma refines_if [refines_intros]:
  "refines B m r \<Longrightarrow> refines B m' r' \<Longrightarrow> refines B (\<lambda>f. if c then m f else m' f) (\<lambda>ps. if c then r ps else r' ps)"
  by (cases c) auto

lemma refines_case_option [refines_intros]:
  "refines B m r \<Longrightarrow> (\<And>a. refines B (m' a) (r' a)) \<Longrightarrow>
   refines B (\<lambda>f. case x of None \<Rightarrow> m f | Some a \<Rightarrow> m' a f) (\<lambda>ps. case x of None \<Rightarrow> r ps | Some a \<Rightarrow> r' a ps)"
  by (cases x) auto

lemma refines_case_sum [refines_intros]:
  "(\<And>e. refines B (m e) (r e)) \<Longrightarrow> (\<And>a. refines B (m' a) (r' a)) \<Longrightarrow>
   refines B (\<lambda>f. case x of Inl e \<Rightarrow> m e f | Inr a \<Rightarrow> m' a f) (\<lambda>ps. case x of Inl e \<Rightarrow> r e ps | Inr a \<Rightarrow> r' a ps)"
  by (cases x) auto

lemma refines_case_io [refines_intros]:
  "refines B m r \<Longrightarrow> (\<And>a. refines B (m' a) (r' a)) \<Longrightarrow>
   refines B (\<lambda>f. case x of Io_not_found \<Rightarrow> m f | Io_other a \<Rightarrow> m' a f)
     (\<lambda>ps. case x of Io_not_found \<Rightarrow> r ps | Io_other a \<Rightarrow> r' a ps)"
  by (cases x) auto

lemma refines_fold [refines_intros]: "refines B (\<lambda>f. Inr (foldl (fmerge B) f qs)) (\<lambda>ps. Inr (foldl (fmerge recorder) ps qs))"
proof -
  have "foldl (fmerge recorder) ps qs = ps @ qs" for ps
    by (induction qs arbitrary: ps) (simp_all add: recorder_def)
  then show ?thesis by (simp add: refines_def)
qed

lemma refines_then [refines_intros]:
  "refines B m r \<Longrightarrow> refines B m' r' \<Longrightarrow> refines B (\<lambda>f. and_then (m f) m') (\<lambda>ps. and_then (r ps) r')"
proof -
  assume m: "refines B m r" and m': "refines B m' r'"
  have 1: "m f = map_ok (foldl (fmerge B) f) (r [])" "r ps = map_ok ((@) ps) (r [])"
    "m' f = map_ok (foldl (fmerge B) f) (r' [])" "r' ps = map_ok ((@) ps) (r' [])" for f ps
    using m m' unfolding refines_def by blast+
  have "and_then (m f) m' = map_ok (foldl (fmerge B) f) (and_then (r []) r')" for f
  proof (cases "r []")
    case (Inr ps)
    have "and_then (m f) m' = m' (foldl (fmerge B) f ps)" using 1(1) [of f] Inr by simp
    also have "\<dots> = map_ok (foldl (fmerge B) f) (r' ps)"
      unfolding 1(3) [of "foldl (fmerge B) f ps"] 1(4) [of ps] by (cases "r' []") simp_all
    finally show ?thesis using Inr by simp
  qed (simp add: 1(1) [of f])
  moreover have "and_then (r ps) r' = map_ok ((@) ps) (and_then (r []) r')" for ps
  proof (cases "r []")
    case (Inr qs)
    have "and_then (r ps) r' = r' (ps @ qs)" using 1(2) [of ps] Inr by simp
    also have "\<dots> = map_ok ((@) ps) (r' qs)"
      unfolding 1(4) [of "ps @ qs"] 1(4) [of qs] by (cases "r' []") simp_all
    finally show ?thesis using Inr by simp
  qed (simp add: 1(2) [of ps])
  ultimately show ?thesis unfolding refines_def by blast
qed

lemma refines_fold_map [refines_intros]:
  "refines B (\<lambda>f. Inr (foldl (\<lambda>f s. fmerge B f (g s)) f qs)) (\<lambda>ps. Inr (foldl (\<lambda>ps s. fmerge recorder ps (g s)) ps qs))"
proof -
  have "foldl (\<lambda>f s. fmerge B f (g s)) f qs = foldl (fmerge B) f (map g qs)"
    "foldl (\<lambda>f s. fmerge recorder f (g s)) ps qs = foldl (fmerge recorder) ps (map g qs)" for f ps
    by (induction qs arbitrary: f ps) simp_all
  then show ?thesis using refines_fold [of B "map g qs"] by simp
qed

lemma refines_after [refines_intros]:
  "refines B m r \<Longrightarrow> refines B (\<lambda>f. m (fmerge B f p)) (\<lambda>ps. r (fmerge recorder ps p))"
  using refines_then [OF refines_merge [of B p]] by simp

lemma refines_case_prod [refines_intros]:
  "(\<And>a b. refines B (m a b) (r a b)) \<Longrightarrow>
   refines B (\<lambda>f. case x of (a, b) \<Rightarrow> m a b f) (\<lambda>ps. case x of (a, b) \<Rightarrow> r a b ps)"
  by (cases x) auto

lemma refines_guard [refines_intros]:
  "(\<And>a. refines B (m a) (r a)) \<Longrightarrow> refines B (\<lambda>f. and_then x (\<lambda>a. m a f)) (\<lambda>ps. and_then x (\<lambda>a. r a ps))"
  by (cases x) (auto intro: refines_Inl)

lemma recording_simps [simp]:
  "ops (recording P) = recorder" "parse_value (recording P) = parse_value P"
  "file_provider (recording P) = file_provider P" "text_provider (recording P) = text_provider P"
  "env_provider (recording P) = env_provider P" "environ (recording P) = environ P"
  "read_to_string (recording P) = read_to_string P" "read_bytes (recording P) = read_bytes P"
  "read_dir (recording P) = read_dir P" "stat_is_file (recording P) = stat_is_file P"
  "decrypt_text (recording P) = decrypt_text P" "enabled (recording P) = enabled P"
  "has_decrypt (recording P) = has_decrypt P" "has_dotenv (recording P) = has_dotenv P"
  by (simp_all add: recording_def)

lemma recording_reads [simp]:
  "env_var_os (recording P) = env_var_os P" "env_var (recording P) = env_var P"
  "is_file (recording P) = is_file P" "expand_home (recording P) = expand_home P"
  "spec_profile (recording P) = spec_profile P" "validated_profile (recording P) = validated_profile P"
  "dotenv_read (recording P) = dotenv_read P" "empty_keys (recording P) = empty_keys P"
  "environment (recording P) = environment P" "reject_ambiguous (recording P) = reject_ambiguous P"
  "resolve_variable (recording P) = resolve_variable P" "dotenv_entry (recording P) = dotenv_entry P"
  unfolding fun_eq_iff env_var_os_def env_var_def is_file_def expand_home_def spec_profile_def
    validated_profile_def dotenv_read_def empty_keys_def environment_def reject_ambiguous_def
    resolve_variable_def dotenv_entry_def recording_simps by (rule allI refl)+

lemma recording_search [simp]: "search_resolve (recording P) = search_resolve P"
proof -
  have *: "first_candidate (recording P) d n es = first_candidate P d n es" for d n es
  proof (induction es)
    case (Cons e es)
    then show ?case by (cases e) (simp only: first_candidate.simps recording_reads)
  qed simp
  show ?thesis unfolding fun_eq_iff search_resolve_def recording_simps recording_reads * by simp
qed

lemma recording_secrets [simp]: "secrets_read (recording P) = secrets_read P"
proof -
  have *: "read_secrets (recording P) spec ps = read_secrets P spec ps" for spec ps
  proof (induction ps)
    case (Cons p ps)
    show ?case unfolding read_secrets.simps recording_simps Cons.IH ..
  qed simp
  show ?thesis unfolding fun_eq_iff secrets_read_def recording_simps * by simp
qed

lemma recording_env_files [simp]: "env_file_entries (recording P) = env_file_entries P"
proof -
  have *: "read_env_files (recording P) es fs = read_env_files P es fs" for es fs
    by (induction fs arbitrary: es) (simp_all only: read_env_files.simps recording_reads)
  show ?thesis unfolding fun_eq_iff env_file_entries_def recording_simps * by simp
qed

lemma recording_providers [simp]:
  "binding_providers (recording P) = binding_providers P" "dotenv_provider (recording P) = dotenv_provider P"
  unfolding fun_eq_iff binding_providers_def binding_provider_def dotenv_provider_def recording_reads
  by (rule allI refl)+

lemma refines_merge_file [refines_intros]:
  "refines (ops P) (\<lambda>f. merge_file P f path fmt layout) (\<lambda>ps. merge_file (recording P) ps path fmt layout)"
  unfolding merge_file_def recording_simps by (intro refines_intros)

lemma refines_merge_text [refines_intros]:
  "refines (ops P) (\<lambda>f. merge_text P f t fmt layout) (\<lambda>ps. merge_text (recording P) ps t fmt layout)"
  unfolding merge_text_def recording_simps by (intro refines_intros)

lemma refines_merge_named_text [refines_intros]:
  "refines (ops P) (\<lambda>f. merge_named_text P f t fmt name path layout)
     (\<lambda>ps. merge_named_text (recording P) ps t fmt name path layout)"
  unfolding merge_named_text_def recording_simps by (intro refines_intros)

lemma refines_merge_encrypted [refines_intros]:
  "refines (ops P) (\<lambda>f. merge_encrypted_file P f path fmt layout)
     (\<lambda>ps. merge_encrypted_file (recording P) ps path fmt layout)"
  unfolding merge_encrypted_file_def recording_simps by (intro refines_intros)

lemma refines_merge_source [refines_intros]:
  "refines (ops P) (\<lambda>f. merge_source P f src layout) (\<lambda>ps. merge_source (recording P) ps src layout)"
  unfolding merge_source_def recording_simps by (intro refines_intros)

lemma refines_merge_variant [refines_intros]:
  "refines (ops P) (\<lambda>f. merge_profile_variant P f path fmt profile layout)
     (\<lambda>ps. merge_profile_variant (recording P) ps path fmt profile layout)"
  unfolding merge_profile_variant_def by (intro refines_intros)

lemma refines_merge_found [refines_intros]:
  "refines (ops P) (\<lambda>f. merge_found P f found profile layout)
     (\<lambda>ps. merge_found (recording P) ps found profile layout)"
proof (induction found)
  case (Cons pf found)
  then show ?case by (cases pf) (simp only: merge_found.simps, intro refines_intros)
qed (simp add: refines_intros)

lemma refines_merge_sources [refines_intros]:
  "refines (ops P) (\<lambda>f. merge_sources P f srcs profile layout)
     (\<lambda>ps. merge_sources (recording P) ps srcs profile layout)"
proof (induction srcs)
  case (Cons src srcs)
  then show ?case
    by (cases "source_path src"; cases "source_format src")
      (simp_all only: merge_sources.simps prod.case option.case, (intro refines_intros; assumption?)+)
qed (simp add: refines_intros)

lemma refines_env_files:
  "refines (ops P) (\<lambda>f. merge_env_files_from P spec env_pre f files)
     (\<lambda>ps. merge_env_files_from (recording P) spec env_pre ps files)"
proof (induction files)
  case (Cons p ps)
  show ?case
    unfolding merge_env_files_from.simps recording_simps recording_reads recording_providers
    by (intro refines_guard refines_if refines_case_option refines_case_prod refines_Inl
        refines_after [OF Cons.IH] Cons.IH)
qed (simp add: refines_Inr)

lemma refines_layers:
  "refines (ops P) (\<lambda>f. merge_defaults P f spec) (\<lambda>ps. merge_defaults (recording P) ps spec)"
  "refines (ops P) (\<lambda>f. merge_discovered P f spec) (\<lambda>ps. merge_discovered (recording P) ps spec)"
  "refines (ops P) (\<lambda>f. merge_listed P f spec) (\<lambda>ps. merge_listed (recording P) ps spec)"
  "refines (ops P) (\<lambda>f. merge_remote P f spec) (\<lambda>ps. merge_remote (recording P) ps spec)"
  "refines (ops P) (\<lambda>f. merge_secrets_dir P f spec) (\<lambda>ps. merge_secrets_dir (recording P) ps spec)"
  "refines (ops P) (\<lambda>f. merge_env_files P f spec) (\<lambda>ps. merge_env_files (recording P) ps spec)"
  "refines (ops P) (\<lambda>f. merge_environment P f spec) (\<lambda>ps. merge_environment (recording P) ps spec)"
  "refines (ops P) (\<lambda>f. merge_bindings P f spec) (\<lambda>ps. merge_bindings (recording P) ps spec)"
  "refines (ops P) (\<lambda>f. merge_flags P f spec) (\<lambda>ps. merge_flags (recording P) ps spec)"
  "refines (ops P) (\<lambda>f. merge_overrides P f spec) (\<lambda>ps. merge_overrides (recording P) ps spec)"
  unfolding merge_defaults_def merge_discovered_def merge_listed_def merge_remote_def merge_secrets_dir_def
    merge_env_files_def merge_environment_def merge_bindings_def merge_flags_def merge_overrides_def
    recording_simps recording_reads recording_search recording_secrets recording_env_files recording_providers
  by (intro refines_intros refines_env_files)+


text \<open>The stack: the name of every active layer and the providers it adds, lowest first.\<close>

definition layer_stack :: "'f platform \<Rightarrow> load_spec \<Rightarrow> (error, (string \<times> provider list) list) result" where
  "layer_stack P spec = layer_figments (recording P) spec"

definition stack_providers :: "(string \<times> provider list) list \<Rightarrow> provider list" where
  "stack_providers stack = concat (map snd stack)"

definition same_layer :: "'f platform \<Rightarrow> load_spec \<Rightarrow> 'f layer_def \<Rightarrow> provider list layer_def \<Rightarrow> bool" where
  "same_layer P spec l r \<longleftrightarrow> ld_name l = ld_name r \<and> ld_active l spec = ld_active r spec \<and>
     refines (ops P) (\<lambda>f. ld_merge l f spec) (\<lambda>ps. ld_merge r ps spec)"

lemma layers_same: "list_all2 (same_layer P spec) (layers P) (layers (recording P))"
  by (simp add: layers_def same_layer_def refines_layers)

lemma merge_layers_refines:
  "list_all2 (same_layer P spec) ls rs \<Longrightarrow>
   refines (ops P) (\<lambda>f. merge_layers ls f spec) (\<lambda>ps. merge_layers rs ps spec)"
proof (induction rule: list_all2_induct)
  case Nil
  then show ?case by (simp add: refines_Inr)
next
  case (Cons l ls r rs)
  then have lr: "ld_active l spec = ld_active r spec"
    "refines (ops P) (\<lambda>f. ld_merge l f spec) (\<lambda>ps. ld_merge r ps spec)" by (simp_all add: same_layer_def)
  show ?case unfolding merge_layers.simps lr(1)
    by (intro refines_if refines_then lr(2) Cons.IH)
qed

lemma figments_of_refines:
  "list_all2 (same_layer P spec) ls rs \<Longrightarrow>
   figments_of P ls spec = map_ok (map (\<lambda>(n, ps). (n, fselect (ops P) (foldl (fmerge (ops P)) (fnew (ops P)) ps)
      (section_of (spec_key spec))))) (figments_of (recording P) rs spec) \<and>
   merge_layers rs [] spec = map_ok stack_providers (figments_of (recording P) rs spec)"
proof (induction rule: list_all2_induct)
  case Nil
  then show ?case by (simp add: stack_providers_def)
next
  case (Cons l ls r rs)
  then have lr: "ld_active l spec = ld_active r spec" "ld_name l = ld_name r"
    and m: "ld_merge l (fnew (ops P)) spec = map_ok (foldl (fmerge (ops P)) (fnew (ops P))) (ld_merge r [] spec)"
    using refinesD [of "ops P" "\<lambda>f. ld_merge l f spec" "\<lambda>ps. ld_merge r ps spec"] by (simp_all add: same_layer_def)
  have rec: "merge_layers rs ps spec = map_ok ((@) ps) (merge_layers rs [] spec)" for ps
    using refinesD_append [OF merge_layers_refines [OF Cons.hyps(2)], of ps] .
  have n: "fnew (ops (recording P)) = []" "fselect (ops (recording P)) ps s = ps" for ps s
    by (simp_all add: recorder_def)
  show ?case
  proof (cases "ld_active r spec")
    case False
    with Cons.IH lr show ?thesis by simp
  next
    case True
    show ?thesis
    proof (cases "ld_merge r [] spec")
      case (Inl e)
      with True lr m n show ?thesis by simp
    next
      case (Inr ps)
      with Cons.IH True lr m n rec [of ps] show ?thesis
        by (cases "figments_of (recording P) rs spec") (simp_all add: stack_providers_def)
    qed
  qed
qed

lemma build_is_stack:
  "build P spec = map_ok (\<lambda>stack. foldl (fmerge (ops P)) (fnew (ops P)) (stack_providers stack)) (layer_stack P spec)"
  and layer_figments_is_stack:
  "layer_figments P spec = map_ok (map (\<lambda>(n, ps). (n, fselect (ops P)
     (foldl (fmerge (ops P)) (fnew (ops P)) ps) (section_of (spec_key spec))))) (layer_stack P spec)"
proof -
  have 1: "merge_layers (layers P) (fnew (ops P)) spec =
      map_ok (foldl (fmerge (ops P)) (fnew (ops P))) (merge_layers (layers (recording P)) [] spec)"
    using refinesD [OF merge_layers_refines [OF layers_same [of P spec]], of "fnew (ops P)"] .
  note 2 = figments_of_refines [OF layers_same [of P spec]]
  show "build P spec = map_ok (\<lambda>stack. foldl (fmerge (ops P)) (fnew (ops P)) (stack_providers stack)) (layer_stack P spec)"
    "layer_figments P spec = map_ok (map (\<lambda>(n, ps). (n, fselect (ops P)
      (foldl (fmerge (ops P)) (fnew (ops P)) ps) (section_of (spec_key spec))))) (layer_stack P spec)"
    unfolding build_def layer_figments_def layer_stack_def recording_reads 1 2 [THEN conjunct2] 2 [THEN conjunct1]
    by (cases "validated_profile P spec"; cases "figments_of (recording P) (layers (recording P)) spec"; simp)+
qed


lemma figments_of_names:
  "figments_of P ls spec = Inr stack \<Longrightarrow> map fst stack = map ld_name (filter (\<lambda>l. ld_active l spec) ls)"
  by (induction ls arbitrary: stack) (auto simp: and_then_Inr_iff split: if_splits)

text \<open>The order of the stack is the order of precedence.\<close>

lemma stack_order:
  "layer_stack P spec = Inr stack \<Longrightarrow>
   subseq (map fst stack) [''default'', ''discovered'', ''file'', ''remote'', ''secrets'', ''.env'',
     ''environment'', ''binding'', ''flag'', ''override'']"
proof -
  assume "layer_stack P spec = Inr stack"
  then have "map fst stack = map ld_name (filter (\<lambda>l. ld_active l spec) (layers (recording P)))"
    by (auto simp: layer_stack_def layer_figments_def and_then_Inr_iff dest: figments_of_names)
  moreover have "subseq (map ld_name (filter (\<lambda>l. ld_active l spec) (layers (recording P)))) (map ld_name (layers (recording P)))"
    by (intro subseq_map) simp
  ultimately show ?thesis by (simp add: layers_def)
qed

end
