(* ===== verification/Recover.thy ===== *)
theory Recover imports Precedence begin

text \<open>
  \<open>dynamic-config/src/loader/recover.rs\<close>: the load that stands in when a configuration file is
  broken. The last configuration that worked takes the place of the documents; the layers of the
  environment are applied over it, then the runtime layers, then the aliases.
\<close>

definition recovered :: "'f platform \<Rightarrow> load_spec \<Rightarrow> snapshot \<Rightarrow> (error, 'f) result" where
  "recovered P spec cached =
     and_then (merge_env_files P
       (fmerge (ops P) (fnew (ops P)) (cached_provider (snap_values cached) (profile_from (section_profile (spec_key spec)))))
       spec) (\<lambda>f.
     and_then
       (case full_env_prefix spec of
          None \<Rightarrow> Inr f
        | Some env_pre \<Rightarrow>
            and_then (if spec_strict_env spec then reject_ambiguous P env_pre else Inr ()) (\<lambda>_.
              Inr (fmerge (ops P) f
                (environment P env_pre (spec_key spec) (spec_nest spec) (spec_allow_empty_env spec))))) (\<lambda>f.
     and_then
       (case spec_env_bindings spec of
          None \<Rightarrow> Inr f
        | Some b \<Rightarrow>
            and_then (env_file_entries P spec) (\<lambda>fallback.
              Inr (foldl (fmerge (ops P)) f
                (binding_providers P b (spec_key spec) (spec_allow_empty_env spec) fallback)))) (\<lambda>f.
     let f = (case spec_flags spec of
            Some l \<Rightarrow> fmerge (ops P) f (layer_provider l (spec_key spec) flags_name) | None \<Rightarrow> f);
         f = (case spec_overrides spec of
            Some l \<Rightarrow> fmerge (ops P) f (layer_provider l (spec_key spec) overrides_name) | None \<Rightarrow> f)
     in Inr f)))"

definition recover :: "'f platform \<Rightarrow> ('f \<Rightarrow> (ferror, 't) result) \<Rightarrow> load_spec \<Rightarrow> snapshot \<Rightarrow> (error, 't \<times> snapshot) result" where
  "recover P extract spec cached =
     and_then (recovered P spec cached) (\<lambda>f.
       let f = fselect (ops P) (apply_aliases P f spec) (profile_from (section_profile (spec_key spec))) in
       and_then (map_err (\<lambda>e. convert P e spec) (extract_dict (ops P) f)) (\<lambda>values.
       and_then (map_err (\<lambda>e. convert P e spec) (extract f)) (\<lambda>config.
         Inr (config, snapshot_new values))))"

section \<open>The layers of a recovery\<close>

text \<open>The environment's part of the stack, as the loader's own merges record it.\<close>

definition environment_stack :: "'f platform \<Rightarrow> load_spec \<Rightarrow> (error, provider list) result" where
  "environment_stack P spec =
     and_then (merge_env_files (recording P) [] spec) (\<lambda>ps.
     and_then (merge_environment (recording P) ps spec) (\<lambda>ps. merge_bindings (recording P) ps spec))"

definition runtime_stack :: "load_spec \<Rightarrow> provider list" where
  "runtime_stack spec =
     (case spec_flags spec of Some l \<Rightarrow> [layer_provider l (spec_key spec) flags_name] | None \<Rightarrow> []) @
     (case spec_overrides spec of Some l \<Rightarrow> [layer_provider l (spec_key spec) overrides_name] | None \<Rightarrow> [])"

abbreviation cache_layer :: "load_spec \<Rightarrow> snapshot \<Rightarrow> provider" where
  "cache_layer spec cached \<equiv> cached_provider (snap_values cached) (section_of (spec_key spec))"

lemma recovered_merges:
  "recovered P spec cached =
     and_then (merge_env_files P (fmerge (ops P) (fnew (ops P)) (cache_layer spec cached)) spec) (\<lambda>f.
     and_then (merge_environment P f spec) (\<lambda>f.
     and_then (merge_bindings P f spec) (\<lambda>f.
       Inr (foldl (fmerge (ops P)) f (runtime_stack spec)))))"
  unfolding recovered_def merge_environment_def merge_bindings_def runtime_stack_def
  by (simp add: Let_def split: option.split)

lemma recovered_is_stack:
  "recovered P spec cached = map_ok (\<lambda>ps. foldl (fmerge (ops P)) (fnew (ops P)) (cache_layer spec cached # ps @ runtime_stack spec))
     (environment_stack P spec)"
proof -
  let ?m = "\<lambda>f. and_then (merge_env_files P f spec) (\<lambda>f. and_then (merge_environment P f spec) (\<lambda>f. merge_bindings P f spec))"
  let ?r = "\<lambda>ps. and_then (merge_env_files (recording P) ps spec) (\<lambda>ps.
      and_then (merge_environment (recording P) ps spec) (\<lambda>ps. merge_bindings (recording P) ps spec))"
  have r: "refines (ops P) ?m ?r" by (intro refines_then refines_layers)
  have "recovered P spec cached =
      map_ok (\<lambda>f. foldl (fmerge (ops P)) f (runtime_stack spec)) (?m (fmerge (ops P) (fnew (ops P)) (cache_layer spec cached)))"
    unfolding recovered_merges and_then_def map_ok_def by (auto split: sum.splits)
  also have "\<dots> = map_ok (\<lambda>ps. foldl (fmerge (ops P)) (fnew (ops P)) (cache_layer spec cached # ps @ runtime_stack spec))
      (?r [])"
    unfolding refinesD [OF r] by (cases "?r []") simp_all
  finally show ?thesis by (simp add: environment_stack_def)
qed

text \<open>
  Also (recovery_layers_over_cache): a recovery reads no document: it merges the cached values first and then
  exactly the providers the \<open>.env\<close> files, the environment and the bindings add in an ordinary
  load, in the same order, failing with the error they would fail with; the flags and the
  overrides come last.
\<close>

theorem recovery_layers_over_cache:
  "recovered P spec cached = map_ok (\<lambda>ps. foldl (fmerge (ops P)) (fnew (ops P)) (cache_layer spec cached # ps @ runtime_stack spec))
     (environment_stack P spec)"
  by (rule recovered_is_stack)

lemma runtime_profile: "profile_from (spec_key spec) \<noteq> section_of (spec_key spec)"
proof
  assume "profile_from (spec_key spec) = section_of (spec_key spec)"
  then have "length (spec_key spec) = length (section_profile (spec_key spec))"
    unfolding profile_from_def by (metis length_to_lower)
  then show False by (simp add: section_profile_def section_prefix_def)
qed

lemma runtime_silent:
  "p \<in> set (runtime_stack spec) \<Longrightarrow> section_dict p (section_of (spec_key spec)) = []"
  using runtime_profile [of spec]
  by (auto simp: runtime_stack_def layer_provider_def section_dict_def split: option.splits)

lemma runtime_sectioned:
  assumes "tidy_layer (spec_flags spec)" "tidy_layer (spec_overrides spec)" "is_section (profile_from (spec_key spec))"
  shows "p \<in> set (runtime_stack spec) \<Longrightarrow> sectioned p"
proof -
  have "dict_ok (layer_dict l)" if "spec_flags spec = Some l \<or> spec_overrides spec = Some l" for l
    using assms(1,2) that by (auto simp: tidy_layer_def intro!: layer_dict_ok)
  with assms(3) show "p \<in> set (runtime_stack spec) \<Longrightarrow> sectioned p"
    by (auto simp: runtime_stack_def layer_provider_def sectioned_def split: option.splits)
qed

lemma environment_stack_flags:
  "environment_stack P (spec\<lparr>spec_flags := x, spec_overrides := y\<rparr>) = environment_stack P spec"
proof -
  let ?spec = "spec\<lparr>spec_flags := x, spec_overrides := y\<rparr>"
  have 1: "full_env_prefix ?spec = full_env_prefix spec" "env_file_entries Q ?spec = env_file_entries Q spec" for Q :: "provider list platform"
    by (simp_all add: full_env_prefix_def env_file_entries_def bindings_of_def cong: if_cong)
  have 3: "spec_key ?spec = spec_key spec" "spec_nest ?spec = spec_nest spec" "spec_env_files ?spec = spec_env_files spec"
    "spec_allow_empty_env ?spec = spec_allow_empty_env spec" "spec_strict_env ?spec = spec_strict_env spec"
    "spec_env_bindings ?spec = spec_env_bindings spec" by simp_all
  have 2: "merge_env_files_from Q ?spec pre f files = merge_env_files_from Q spec pre f files"
    for Q :: "provider list platform" and pre f files
    by (induction files arbitrary: f) (simp_all cong: if_cong option.case_cong)
  show ?thesis
    unfolding environment_stack_def merge_env_files_def merge_environment_def merge_bindings_def 1 2 3 ..
qed

text \<open>
  C14 (recovery_loses_runtime_layers): the flags and the overrides are filed under the section's
  bare key, which is not the profile the section is read from, so a recovery serves, at every
  path, the value and the source it would serve if neither had been set. (An ordinary load files
  them under the section's profile, and there an override always wins.)
\<close>

theorem recovery_loses_runtime_layers:
  assumes "backend (ops P) good" "environment_stack P spec = Inr env" "\<forall>p \<in> set env. sectioned p"
    and "dict_ok (snap_values cached)" "tidy_layer (spec_flags spec)" "tidy_layer (spec_overrides spec)"
    and "is_section (profile_from (spec_key spec))" "usable_path path"
  shows "\<exists>f g. recovered P spec cached = Inr f \<and>
    recovered P (spec\<lparr>spec_flags := None, spec_overrides := None\<rparr>) cached = Inr g \<and>
    find_value (ops P) (fselect (ops P) f (section_of (spec_key spec))) path =
      find_value (ops P) (fselect (ops P) g (section_of (spec_key spec))) path \<and>
    find_metadata (ops P) (fselect (ops P) f (section_of (spec_key spec))) path =
      find_metadata (ops P) (fselect (ops P) g (section_of (spec_key spec))) path"
proof -
  let ?s = "section_of (spec_key spec)" and ?spec = "spec\<lparr>spec_flags := None, spec_overrides := None\<rparr>"
  define g where "g = foldl (fmerge (ops P)) (fnew (ops P)) (cache_layer spec cached # env)"
  have g: "recovered P ?spec cached = Inr g"
    unfolding recovered_is_stack environment_stack_flags assms(2) by (simp add: runtime_stack_def g_def)
  have f: "recovered P spec cached = Inr (foldl (fmerge (ops P)) g (runtime_stack spec))"
    unfolding recovered_is_stack assms(2) g_def by simp
  have "sectioned (cache_layer spec cached)" using assms(4) by (simp add: cached_provider_def sectioned_def)
  then have sec: "\<And>q. q \<in> set (cache_layer spec cached # env) \<Longrightarrow> sectioned q" using assms(3) by auto
  have "good g" unfolding g_def
    using assms(1) backend.good_new [OF assms(1)] sec by (rule backend.good_fold)
  from backend.fold_silent [OF assms(1) this is_section_of assms(8), of "runtime_stack spec" "spec_key spec"]
    runtime_sectioned [OF assms(5-7)] runtime_silent [of _ spec]
  show ?thesis using f g by auto
qed

theorem recovery_loses_runtime_layers_witness:
  "\<exists>f e. recovered (small_platform [] []) (with_overrides [(''port'', FBool Default_tag True)] (spec_new ''db'' [])) (snapshot_new []) = Inr f \<and>
     find_value ref_backend (fselect ref_backend f (section_of ''db'')) ''port'' = Inl e"
proof -
  let ?P = "small_platform [] []" and ?l = "[(''port'', FBool Default_tag True)]"
  let ?spec = "with_overrides ?l (spec_new ''db'' [])"
  have ops: "ops ?P = ref_backend" by (simp add: small_platform_def Let_def)
  have key: "spec_key ?spec = ''db''" by (simp add: with_overrides_def spec_new_def)
  have env: "environment_stack ?P ?spec = Inr []"
    by (simp add: environment_stack_def merge_env_files_def merge_environment_def merge_bindings_def
        full_env_prefix_def with_overrides_def spec_new_def)
  have sect: "is_section (profile_from (spec_key ?spec))" unfolding key by code_simp
  have "\<exists>f g. recovered ?P ?spec (snapshot_new []) = Inr f \<and>
    recovered ?P (?spec\<lparr>spec_flags := None, spec_overrides := None\<rparr>) (snapshot_new []) = Inr g \<and>
    find_value (ops ?P) (fselect (ops ?P) f (section_of (spec_key ?spec))) ''port'' =
      find_value (ops ?P) (fselect (ops ?P) g (section_of (spec_key ?spec))) ''port'' \<and>
    find_metadata (ops ?P) (fselect (ops ?P) f (section_of (spec_key ?spec))) ''port'' =
      find_metadata (ops ?P) (fselect (ops ?P) g (section_of (spec_key ?spec))) ''port''"
  proof (rule recovery_loses_runtime_layers [OF _ env _ _ _ _ sect])
    show "backend (ops ?P) ref_good" unfolding ops by (rule ref.backend_axioms)
  qed (simp_all add: snapshot_new_def tidy_layer_def with_overrides_def spec_new_def usable_path_def)
  then obtain f g where fg: "recovered ?P ?spec (snapshot_new []) = Inr f"
      "recovered ?P (?spec\<lparr>spec_flags := None, spec_overrides := None\<rparr>) (snapshot_new []) = Inr g"
      "find_value ref_backend (fselect ref_backend f (section_of ''db'')) ''port'' =
       find_value ref_backend (fselect ref_backend g (section_of ''db'')) ''port''"
    unfolding ops key by blast
  have "g = fmerge ref_backend ref_new (cached_provider [] (section_of ''db''))"
    using fg(2) unfolding recovered_is_stack environment_stack_flags env ops
    by (simp add: runtime_stack_def snapshot_new_def with_overrides_def spec_new_def ref_backend_def)
  moreover have "\<exists>e. find_value ref_backend (fselect ref_backend (fmerge ref_backend ref_new
      (cached_provider [] (section_of ''db''))) (section_of ''db'')) ''port'' = Inl e"
    by (rule exI [of _ "ferror_from ''missing field `port`''"]) code_simp
  ultimately show ?thesis using fg(1,3) by auto
qed

end
