(* ===== verification/Explain.thy ===== *)
theory Explain imports Precedence begin

text \<open>
  \<open>dynamic-config/src/explain.rs\<close>: what every layer has to say about one path, and who wins.
  The table \<open>Display\<close> prints is modelled by its parts: the headline, the two column widths (in
  bytes, the dash of an absent source being three), and per row the label, the source, the value
  and the mark of the winner. \<open>show_float\<close> stands for the standard library's rendering of a
  float.
\<close>

record contribution =
  con_layer :: string
  con_origin :: "origin option"
  con_value :: "string option"
  con_aliased_from :: "string option"

definition con_label :: "contribution \<Rightarrow> string" where
  "con_label c = (case con_aliased_from c of Some old \<Rightarrow> con_layer c @ '' '' @ old | None \<Rightarrow> con_layer c)"

record explanation =
  expl_path :: string
  expl_rows :: "contribution list"

definition winner :: "explanation \<Rightarrow> contribution option" where
  "winner e = List.find (\<lambda>row. con_value row \<noteq> None) (rev (expl_rows e))"

definition redacted :: "explanation \<Rightarrow> explanation" where
  "redacted e = e\<lparr>expl_rows := map (\<lambda>row. if con_value row \<noteq> None then row\<lparr>con_value := Some ''***''\<rparr> else row) (expl_rows e)\<rparr>"

text \<open>\<open>Debug\<close>: the layer, the origin, whether there is a value, and the old path.\<close>

definition contribution_debug :: "contribution \<Rightarrow> string \<times> origin option \<times> string option \<times> string option" where
  "contribution_debug c = (con_layer c, con_origin c, map_option (\<lambda>_. ''...'') (con_value c), con_aliased_from c)"

definition explanation_debug ::
  "explanation \<Rightarrow> string \<times> (string \<times> origin option \<times> string option \<times> string option) list" where
  "explanation_debug e = (expl_path e, map contribution_debug (expl_rows e))"

record table_line =
  line_label :: string
  line_source :: "string option"
  line_value :: string
  line_winner :: bool

record explanation_table =
  table_headline :: string
  table_layer_width :: nat
  table_source_width :: nat
  table_lines :: "table_line list"

definition dash_len :: nat where
  "dash_len = 3"

definition explanation_display :: "explanation \<Rightarrow> explanation_table" where
  "explanation_display e =
     (let rows = expl_rows e;
          sources = map (\<lambda>row. map_option origin_display (con_origin row)) rows;
          labels = map con_label rows;
          winner_at = List.find (\<lambda>i. con_value (rows ! i) \<noteq> None) (rev [0..<length rows])
      in \<lparr>table_headline = (case winner e of
            Some w \<Rightarrow> expl_path e @ '' = '' @ (case con_value w of Some v \<Rightarrow> v | None \<Rightarrow> ''***'')
          | None \<Rightarrow> expl_path e @ '': nothing supplies it''),
          table_layer_width = foldl max 0 (map utf8_len labels @ [length ''layer'']),
          table_source_width = foldl max 0
            (map (\<lambda>s. case s of Some t \<Rightarrow> utf8_len t | None \<Rightarrow> dash_len) sources @ [length ''source'']),
          table_lines = map (\<lambda>i. \<lparr>line_label = labels ! i, line_source = sources ! i,
            line_value = (case con_value (rows ! i) of Some v \<Rightarrow> v | None \<Rightarrow> ''absent''),
            line_winner = (Some i = winner_at)\<rparr>) [0..<length rows]\<rparr>)"

definition show_int :: "int \<Rightarrow> string" where
  "show_int i = (if i < 0 then CHR ''-'' # show_nat (nat (- i)) else show_nat (nat i))"

definition num_text :: "(f64 \<Rightarrow> string) \<Rightarrow> fnum \<Rightarrow> string" where
  "num_text show_float n = (case n of
       U8 w \<Rightarrow> show_int (uint w) | U16 w \<Rightarrow> show_int (uint w) | U32 w \<Rightarrow> show_int (uint w)
     | U64 w \<Rightarrow> show_int (uint w) | USize w \<Rightarrow> show_int (uint w) | U128 w \<Rightarrow> show_int (uint w)
     | I8 w \<Rightarrow> show_int (sint w) | I16 w \<Rightarrow> show_int (sint w) | I32 w \<Rightarrow> show_int (sint w)
     | I64 w \<Rightarrow> show_int (sint w) | ISize w \<Rightarrow> show_int (sint w) | I128 w \<Rightarrow> show_int (sint w)
     | F32 b \<Rightarrow> show_float (f32_to_f64 b) | F64 b \<Rightarrow> show_float b)"

definition render_value :: "(f64 \<Rightarrow> string) \<Rightarrow> fvalue \<Rightarrow> string" where
  "render_value show_float v = (case v of
       FString _ s \<Rightarrow> s
     | FChar _ c \<Rightarrow> [c]
     | FBool _ b \<Rightarrow> (if b then ''true'' else ''false'')
     | FNum _ n \<Rightarrow> num_text show_float n
     | FEmpty _ _ \<Rightarrow> ''null''
     | FDict _ d \<Rightarrow> ''a table ('' @ show_nat (length d) @ '' keys)''
     | FArray _ vs \<Rightarrow> ''a list ('' @ show_nat (length vs) @ '' items)'')"

definition aliased_from :: "load_spec \<Rightarrow> string \<Rightarrow> string option" where
  "aliased_from spec path =
     Option.bind (spec_aliases spec) (\<lambda>a. map_option fst (List.find (\<lambda>(_, new). new = path) (aliases_pairs a)))"

definition layer_row :: "'f platform \<Rightarrow> (f64 \<Rightarrow> string) \<Rightarrow> string \<Rightarrow> string \<Rightarrow> string \<times> 'f \<Rightarrow> contribution" where
  "layer_row P show_float path nest layer =
     (case layer of (name, f) \<Rightarrow>
        (case find_value (ops P) f path of
           Inl _ \<Rightarrow> \<lparr>con_layer = name, con_origin = None, con_value = None, con_aliased_from = None\<rparr>
         | Inr v \<Rightarrow> \<lparr>con_layer = name, con_origin = Some (origin_in P f path nest),
             con_value = Some (render_value show_float v), con_aliased_from = None\<rparr>))"

definition explain :: "'f platform \<Rightarrow> (f64 \<Rightarrow> string) \<Rightarrow> load_spec \<Rightarrow> string \<Rightarrow> (error, explanation) result" where
  "explain P show_float spec path =
     and_then (layer_figments P spec) (\<lambda>figments.
       let rows = map (layer_row P show_float path (spec_nest spec)) figments in
       and_then (merged P spec) (\<lambda>f.
         let rows' = (case find_value (ops P) f path of
               Inl _ \<Rightarrow> rows
             | Inr v \<Rightarrow>
                 let origin = origin_in P f path (spec_nest spec);
                     walk_winner = List.find (\<lambda>row. con_value row \<noteq> None) (rev rows);
                     disagrees = (case walk_winner of
                         None \<Rightarrow> True
                       | Some w \<Rightarrow> origin \<noteq> OUnknown \<and> con_origin w \<noteq> Some origin)
                 in if disagrees
                    then rows @ [\<lparr>con_layer = ''alias'', con_origin = Some origin,
                      con_value = Some (render_value show_float v), con_aliased_from = aliased_from spec path\<rparr>]
                    else rows)
         in Inr \<lparr>expl_path = path, expl_rows = rows'\<rparr>))"

section \<open>Redaction\<close>

text \<open>Two explanations that differ only in the values their rows hold.\<close>

definition same_but_values :: "explanation \<Rightarrow> explanation \<Rightarrow> bool" where
  "same_but_values e e' \<longleftrightarrow> expl_path e = expl_path e' \<and>
     list_all2 (\<lambda>r r'. con_layer r = con_layer r' \<and> con_origin r = con_origin r' \<and>
       con_aliased_from r = con_aliased_from r' \<and> (con_value r = None) = (con_value r' = None))
     (expl_rows e) (expl_rows e')"

lemma redacted_rows:
  "list_all2 (\<lambda>r r'. con_layer r = con_layer r' \<and> con_origin r = con_origin r' \<and>
       con_aliased_from r = con_aliased_from r' \<and> (con_value r = None) = (con_value r' = None)) rs rs' \<Longrightarrow>
   map (\<lambda>row. if con_value row \<noteq> None then row\<lparr>con_value := Some ''***''\<rparr> else row) rs =
     map (\<lambda>row. if con_value row \<noteq> None then row\<lparr>con_value := Some ''***''\<rparr> else row) rs' \<and>
   map contribution_debug rs = map contribution_debug rs'"
proof (induction rule: list_all2_induct)
  case (Cons r rs r' rs')
  then show ?case by (cases "con_value r"; cases "con_value r'"; cases r; cases r') (simp_all add: contribution_debug_def)
qed simp

text \<open>
  C30 (redaction_hides_values): a redacted explanation, however it is printed, and the debug output
  of one that is not redacted depend on which layers supply a value and from where, never on a
  value; and redaction keeps the winner's layer, source and old path.
\<close>

theorem redaction_hides_values:
  assumes "same_but_values e e'"
  shows "redacted e = redacted e' \<and> explanation_debug e = explanation_debug e' \<and>
    map_option (\<lambda>w. (con_layer w, con_origin w, con_aliased_from w)) (winner (redacted e)) =
      map_option (\<lambda>w. (con_layer w, con_origin w, con_aliased_from w)) (winner e)"
proof -
  have "map_option (\<lambda>w. (con_layer w, con_origin w, con_aliased_from w)) (List.find (\<lambda>row. con_value row \<noteq> None)
      (map (\<lambda>row. if con_value row \<noteq> None then row\<lparr>con_value := Some ''***''\<rparr> else row) rs)) =
    map_option (\<lambda>w. (con_layer w, con_origin w, con_aliased_from w)) (List.find (\<lambda>row. con_value row \<noteq> None) rs)" for rs
    by (induction rs) auto
  from this [of "rev (expl_rows e)"]
  have "map_option (\<lambda>w. (con_layer w, con_origin w, con_aliased_from w)) (winner (redacted e)) =
      map_option (\<lambda>w. (con_layer w, con_origin w, con_aliased_from w)) (winner e)"
    by (simp add: redacted_def winner_def rev_map)
  moreover have "redacted e = redacted e' \<and> explanation_debug e = explanation_debug e'"
    using assms redacted_rows [of "expl_rows e" "expl_rows e'"]
    by (cases e; cases e') (simp add: same_but_values_def redacted_def explanation_debug_def)
  ultimately show ?thesis by blast
qed

theorem redaction_hides_values_witness:
  "redacted \<lparr>expl_path = ''token'', expl_rows = [\<lparr>con_layer = ''file'', con_origin = Some OInline, con_value = Some ''hunter2'', con_aliased_from = None\<rparr>]\<rparr> =
   redacted \<lparr>expl_path = ''token'', expl_rows = [\<lparr>con_layer = ''file'', con_origin = Some OInline, con_value = Some ''swordfish'', con_aliased_from = None\<rparr>]\<rparr>"
  by (rule redaction_hides_values [THEN conjunct1]) (simp add: same_but_values_def)

section \<open>The explanation and the load\<close>

lemma render_untag [simp]: "render_value show_float (untag v) = render_value show_float v"
  by (cases v) (simp_all add: render_value_def)

lemma render_same: "untag w = untag v \<Longrightarrow> render_value show_float w = render_value show_float v"
  by (metis render_untag)

lemma origin_in_metadata:
  "find_metadata (ops P) f path = Some md \<Longrightarrow>
   origin_in P f path nest = refine_env P (origin_of P md) (path_segments path) nest"
  by (simp add: origin_in_def)

lemma find_last:
  "con_value r \<noteq> None \<Longrightarrow> (\<And>q. q \<in> set rs' \<Longrightarrow> con_value q = None) \<Longrightarrow>
   List.find (\<lambda>row. con_value row \<noteq> None) (rev (rs @ r # rs')) = Some r"
proof -
  assume r: "con_value r \<noteq> None" "\<And>q. q \<in> set rs' \<Longrightarrow> con_value q = None"
  have "List.find (\<lambda>row. con_value row \<noteq> None) (xs @ r # ys) = Some r"
    if "\<And>q. q \<in> set xs \<Longrightarrow> con_value q = None" for xs ys
    using that r(1) by (induction xs) auto
  from this [of "rev rs'" "rev rs"] r(2) show ?thesis by simp
qed

text \<open>
  C6 (explain_names_the_winner): the explanation and the load agree: when a layer above the
  defaults is the last to supply a path, and no alias leads above or below it, the explanation's winner
  is that layer, with the value the load serves and the source \<open>source_of\<close> reports.
\<close>

theorem explain_names_the_winner:
  assumes "backend (ops P) good"
    and "layer_stack P spec = Inr (lower @ (name, ps @ p # qs) # higher)"
    and "\<forall>q \<in> set (stack_providers (lower @ (name, ps @ p # qs) # higher)). sectioned q"
    and "usable_path path" "dict_supplies (section_dict p (section_of (spec_key spec))) (path_segments path) v"
    and "\<forall>q \<in> set (qs @ stack_providers higher). dict_silent (section_dict q (section_of (spec_key spec))) (path_segments path)"
    and "md_name (p_metadata p) \<noteq> defaults_name" "leads_past path (alias_map spec)"
  shows "\<exists>e origin. explain P show_float spec path = Inr e \<and> source_of P spec path = Inr (Some origin) \<and>
    winner e = Some \<lparr>con_layer = name, con_origin = Some origin, con_value = Some (render_value show_float v),
      con_aliased_from = None\<rparr>"
proof -
  let ?s = "section_of (spec_key spec)" and ?B = "ops P"
  define origin where "origin = refine_env P (origin_of P (p_metadata p)) (path_segments path) (spec_nest spec)"
  have new: "good (fnew ?B)" using assms(1) by (rule backend.good_new)
  have sp: "stack_providers (lower @ (name, ps @ p # qs) # higher) =
      (stack_providers lower @ ps) @ p # (qs @ stack_providers higher)"
    by (simp add: stack_providers_def)
  obtain f w where f: "merged P spec = Inr f" "find_value ?B f path = Inr w" "untag w = untag v"
    "source_of P spec path = Inr (Some origin)"
    using stack_serves_last [OF assms(1,2) sp assms(3-8)] unfolding origin_def by blast
  then have fo: "origin_in P f path (spec_nest spec) = origin"
    by (auto simp: source_of_def origin_in_def)
  define row where "row = layer_row P show_float path (spec_nest spec)"
  define fig where "fig = (\<lambda>(n :: string, ps). (n, fselect ?B (foldl (fmerge ?B) (fnew ?B) ps) ?s))"
  have figs: "layer_figments P spec = Inr (map fig lower @ fig (name, ps @ p # qs) # map fig higher)"
    unfolding layer_figments_is_stack assms(2) fig_def by simp
  have win: "row (fig (name, ps @ p # qs)) = \<lparr>con_layer = name, con_origin = Some origin,
      con_value = Some (render_value show_float v), con_aliased_from = None\<rparr>"
  proof -
    have sec: "\<And>q. q \<in> set (ps @ p # qs) \<Longrightarrow> sectioned q" using assms(3) unfolding sp by auto
    have silent: "\<And>q. q \<in> set qs \<Longrightarrow> dict_silent (section_dict q ?s) (path_segments path)" using assms(6) by auto
    obtain u where u: "find_value ?B (fselect ?B (foldl (fmerge ?B) (fnew ?B) (ps @ p # qs)) ?s) path = Inr u"
      "untag u = untag v"
      "find_metadata ?B (fselect ?B (foldl (fmerge ?B) (fnew ?B) (ps @ p # qs)) ?s) path = Some (p_metadata p)"
      using backend.last_supplier_wins [OF assms(1) new is_section_of assms(4) sec assms(5) silent] by blast
    show ?thesis
      unfolding row_def fig_def layer_row_def prod.case u(1) sum.case origin_def
        origin_in_metadata [OF u(3)] render_same [OF u(2)] ..
  qed
  have quiet: "con_value (row (fig l)) = None" if l: "l \<in> set higher" for l
  proof -
    obtain n rs where n: "l = (n, rs)" by (cases l)
    have "\<And>q. q \<in> set rs \<Longrightarrow> sectioned q \<and> dict_silent (section_dict q ?s) (path_segments path)"
    proof -
      fix q assume "q \<in> set rs"
      then have "q \<in> set (stack_providers higher)" using l n by (force simp: stack_providers_def)
      then show "sectioned q \<and> dict_silent (section_dict q ?s) (path_segments path)"
        using assms(3,6) unfolding sp by auto
    qed
    then have "find_value ?B (fselect ?B (foldl (fmerge ?B) (fnew ?B) rs) ?s) path = find_value ?B (fselect ?B (fnew ?B) ?s) path"
      using backend.fold_silent [OF assms(1) new is_section_of assms(4), of rs "spec_key spec"] by blast
    then show ?thesis
      using backend.new_value [OF assms(1) is_section_of assms(4), of "spec_key spec"]
      by (auto simp: row_def fig_def layer_row_def n)
  qed
  let ?rows = "map row (map fig lower @ fig (name, ps @ p # qs) # map fig higher)"
  have walk: "List.find (\<lambda>r. con_value r \<noteq> None) (rev ?rows) = Some (row (fig (name, ps @ p # qs)))"
    unfolding map_append list.map
  proof (rule find_last)
    show "con_value (row (fig (name, ps @ p # qs))) \<noteq> None" using win by simp
    show "con_value q = None" if "q \<in> set (map row (map fig higher))" for q using that quiet by auto
  qed
  have "explain P show_float spec path = Inr \<lparr>expl_path = path, expl_rows = ?rows\<rparr>"
    unfolding explain_def figs and_then_simps Let_def row_def [symmetric] walk using f(1,2) fo win by simp
  moreover have "winner \<lparr>expl_path = path, expl_rows = ?rows\<rparr> = Some (row (fig (name, ps @ p # qs)))"
    unfolding winner_def explanation.simps walk ..
  ultimately show ?thesis using f(4) win by simp
qed

theorem explain_names_the_winner_witness:
  "\<exists>e. explain (small_platform [] []) (\<lambda>_. ''0'') (with_defaults [(''port'', FBool Default_tag False)]
        (with_flags [(''port'', FBool Default_tag True)] (spec_new ''db'' []))) ''port'' = Inr e \<and>
     map_option con_layer (winner e) = Some ''flag'' \<and> map_option con_value (winner e) = Some (Some ''true'')"
proof -
  let ?P = "small_platform [] []"
  let ?d = "[(''port'', FBool Default_tag False)]" and ?l = "[(''port'', FBool Default_tag True)]"
  let ?spec = "with_defaults ?d (with_flags ?l (spec_new ''db'' []))"
  let ?pd = "layer_provider ?d (section_profile ''db'') defaults_name"
  let ?pf = "layer_provider ?l (section_profile ''db'') flags_name"
  have stack: "layer_stack ?P ?spec = Inr ([(''default'', [?pd])] @ (''flag'', [] @ ?pf # []) # [])"
    by (simp add: layer_stack_def layer_figments_def layers_def has_layer_def with_defaults_def with_flags_def
        spec_new_def validated_profile_def spec_profile_def layer_is_empty_def full_env_prefix_def
        merge_flags_def merge_defaults_def)
  have supplies: "dict_supplies (section_dict ?pf (section_of (spec_key ?spec))) (path_segments ''port'') (FBool Default_tag True)"
    by (simp add: layer_provider_section dict_supplies_def with_defaults_def with_flags_def spec_new_def
        layer_dict_def insert_path_def)
  have "\<exists>e origin. explain ?P (\<lambda>_. ''0'') ?spec ''port'' = Inr e \<and> source_of ?P ?spec ''port'' = Inr (Some origin) \<and>
    winner e = Some \<lparr>con_layer = ''flag'', con_origin = Some origin,
      con_value = Some (render_value (\<lambda>_. ''0'') (FBool Default_tag True)), con_aliased_from = None\<rparr>"
    by (rule explain_names_the_winner [OF small_backend stack _ _ supplies])
      (simp_all add: stack_providers_def layer_provider_section layer_dict_def insert_path_def usable_path_def
        flags_name_def defaults_name_def metadata_named_def alias_map_def with_defaults_def with_flags_def spec_new_def
        dict_ok_def leads_past_def)
  then show ?thesis by (auto simp: render_value_def)
qed



end
