(* ===== verification/Cell.thy ===== *)
theory Cell imports Errors "HOL-Library.Word" begin

text \<open>
  \<open>dynamic-config/src/cell.rs\<close> and \<open>reload.rs\<close>: the cell that holds the current configuration, its
  metadata, the callbacks of a reload and the record of failures.

  An \<open>Arc\<close> is an address and what it holds, so that pointer equality is equality of addresses; an
  \<open>Instant\<close> is a reading of a clock. Every atomic operation of the code is a function of its
  own, and \<open>store_with\<close> is their composition in the code's order; the theory \<open>Interleaving\<close>
  runs the same functions one at a time, interleaved with those of other threads. A callback is
  opaque: what it is called with is recorded, and \<open>panics\<close> says whether it unwinds.
\<close>

section \<open>Reasons, events and status\<close>

type_synonym instant = nat

datatype reload_reason = Initial | File_changed string | Remote_changed | Manual | Recovered

fun reason_as_str :: "reload_reason \<Rightarrow> string" where
  "reason_as_str Initial = ''initial''"
| "reason_as_str (File_changed _) = ''file-changed''"
| "reason_as_str Remote_changed = ''remote-changed''"
| "reason_as_str Manual = ''manual''"
| "reason_as_str Recovered = ''recovered''"

record snapshot_meta =
  meta_generation :: "64 word"
  meta_loaded_at :: instant

type_synonym 'v arc = "nat \<times> 'v"

definition ptr_eq :: "'v arc \<Rightarrow> 'v arc \<Rightarrow> bool" where
  "ptr_eq a b \<longleftrightarrow> fst a = fst b"

record 'v reload_event =
  ev_previous :: "'v arc option"
  ev_current :: "'v arc"
  ev_reason :: reload_reason
  ev_meta :: snapshot_meta

text \<open>What \<open>Debug\<close> shows of an event: the reason, the generation, and whether there was a previous snapshot.\<close>

definition event_debug :: "'v reload_event \<Rightarrow> reload_reason \<times> 64 word \<times> bool" where
  "event_debug e = (ev_reason e, meta_generation (ev_meta e), ev_previous e \<noteq> None)"

record failure_status =
  fail_at :: instant
  fail_kind :: error_kind
  fail_path :: string

definition failure_of :: "instant \<Rightarrow> error \<Rightarrow> failure_status" where
  "failure_of now e = \<lparr>fail_at = now, fail_kind = err_kind e, fail_path = path_of e\<rparr>"

record config_status =
  st_generation :: "64 word"
  st_loaded_at :: "instant option"
  st_last_reason :: "reload_reason option"
  st_last_failure :: "failure_status option"
  st_consecutive_failures :: "32 word"

definition is_healthy :: "config_status \<Rightarrow> bool" where
  "is_healthy st \<longleftrightarrow> st_consecutive_failures st = 0"

definition stale_for :: "instant \<Rightarrow> config_status \<Rightarrow> nat option" where
  "stale_for now st = map_option (\<lambda>at. now - at) (st_loaded_at st)"

section \<open>The cell\<close>

datatype 'h callback = Pair_hook 'h | Event_hook 'h

record 'h registered =
  reg_token :: "64 word"
  reg_callback :: "'h callback"

record ('v, 'h) cell =
  cell_inner :: "'v arc option"
  cell_hooks :: "'h registered list option"
  cell_next_token :: "64 word"
  cell_meta :: "snapshot_meta option"
  cell_last_reason :: "reload_reason option"
  cell_last_failure :: "failure_status option"
  cell_failures :: "32 word"
  cell_notify :: "64 word"

definition cell_new :: "('v, 'h) cell" where
  "cell_new = \<lparr>cell_inner = None, cell_hooks = None, cell_next_token = 0, cell_meta = None,
     cell_last_reason = None, cell_last_failure = None, cell_failures = 0, cell_notify = 0\<rparr>"

definition cell_load :: "('v, 'h) cell \<Rightarrow> 'v arc option" where
  "cell_load c = cell_inner c"

definition cell_generation :: "('v, 'h) cell \<Rightarrow> 64 word" where
  "cell_generation c = (case cell_meta c of None \<Rightarrow> 0 | Some m \<Rightarrow> meta_generation m)"

text \<open>\<open>None\<close> stands for the panic.\<close>

definition get_or_panic :: "('v, 'h) cell \<Rightarrow> 'v arc option" where
  "get_or_panic c = cell_load c"

definition cell_status :: "('v, 'h) cell \<Rightarrow> config_status" where
  "cell_status c = \<lparr>st_generation = cell_generation c, st_loaded_at = map_option meta_loaded_at (cell_meta c),
     st_last_reason = cell_last_reason c, st_last_failure = cell_last_failure c,
     st_consecutive_failures = cell_failures c\<rparr>"

section \<open>Installing\<close>

definition init_slot :: "'v arc \<Rightarrow> ('v, 'h) cell \<Rightarrow> ('v, 'h) cell" where
  "init_slot a c = (case cell_inner c of None \<Rightarrow> c\<lparr>cell_inner := Some a\<rparr> | Some _ \<Rightarrow> c)"

definition swap_slot :: "'v arc \<Rightarrow> ('v, 'h) cell \<Rightarrow> ('v, 'h) cell \<times> 'v arc" where
  "swap_slot a c = (c\<lparr>cell_inner := Some a\<rparr>, the (cell_inner c))"

definition publish_meta :: "instant \<Rightarrow> ('v, 'h) cell \<Rightarrow> ('v, 'h) cell \<times> snapshot_meta" where
  "publish_meta now c =
     (let m = \<lparr>meta_generation = (case cell_meta c of None \<Rightarrow> 0 | Some m \<Rightarrow> meta_generation m) + 1,
        meta_loaded_at = now\<rparr> in (c\<lparr>cell_meta := Some m\<rparr>, m))"

definition publish_reason :: "reload_reason \<Rightarrow> ('v, 'h) cell \<Rightarrow> ('v, 'h) cell" where
  "publish_reason r c = c\<lparr>cell_last_reason := Some r\<rparr>"

definition reset_failures :: "('v, 'h) cell \<Rightarrow> ('v, 'h) cell" where
  "reset_failures c = c\<lparr>cell_failures := 0\<rparr>"

definition bump_notify :: "('v, 'h) cell \<Rightarrow> ('v, 'h) cell" where
  "bump_notify c = c\<lparr>cell_notify := cell_notify c + 1\<rparr>"

datatype ('v, 'h) hook_call = Pair_call 'h "'v arc" "'v arc" | Event_call 'h "'v reload_event"

fun hook_call_of :: "'v reload_event \<Rightarrow> 'h callback \<Rightarrow> ('v, 'h) hook_call option" where
  "hook_call_of e (Pair_hook h) = map_option (\<lambda>p. Pair_call h p (ev_current e)) (ev_previous e)"
| "hook_call_of e (Event_hook h) = Some (Event_call h e)"

text \<open>The calls of a dispatch, in order, and how many of them were reported as panics.\<close>

definition cell_dispatch :: "(('v, 'h) hook_call \<Rightarrow> bool) \<Rightarrow> 'v arc option \<Rightarrow> 'v arc \<Rightarrow> reload_reason \<Rightarrow>
    snapshot_meta \<Rightarrow> ('v, 'h) cell \<Rightarrow> ('v, 'h) hook_call list \<times> nat" where
  "cell_dispatch panics previous current reason m c =
     (case cell_hooks c of
        None \<Rightarrow> ([], 0)
      | Some hooks \<Rightarrow>
          if hooks = [] then ([], 0)
          else
            let event = \<lparr>ev_previous = previous, ev_current = current, ev_reason = reason, ev_meta = m\<rparr>;
                calls = List.map_filter (\<lambda>r. hook_call_of event (reg_callback r)) hooks
            in (calls, length (filter panics calls)))"

definition store_with :: "(('v, 'h) hook_call \<Rightarrow> bool) \<Rightarrow> instant \<Rightarrow> 'v arc \<Rightarrow> reload_reason \<Rightarrow> ('v, 'h) cell \<Rightarrow>
    ('v, 'h) cell \<times> 'v arc \<times> ('v, 'h) hook_call list \<times> nat" where
  "store_with panics now a reason c =
     (let (c, previous) = swap_slot a (init_slot a c);
          (c, m) = publish_meta now c;
          c = bump_notify (reset_failures (publish_reason reason c));
          previous' = (if ptr_eq previous a then None else Some previous)
      in (c, a, cell_dispatch panics previous' a reason m c))"

definition cell_store :: "(('v, 'h) hook_call \<Rightarrow> bool) \<Rightarrow> instant \<Rightarrow> 'v arc \<Rightarrow> ('v, 'h) cell \<Rightarrow>
    ('v, 'h) cell \<times> 'v arc \<times> ('v, 'h) hook_call list \<times> nat" where
  "cell_store panics now a c = store_with panics now a Manual c"

section \<open>Failures\<close>

definition u32_max :: "32 word" where
  "u32_max = 4294967295"

definition count_failure :: "('v, 'h) cell \<Rightarrow> ('v, 'h) cell" where
  "count_failure c = (if cell_failures c < u32_max then c\<lparr>cell_failures := cell_failures c + 1\<rparr> else c)"

definition record_failure :: "instant \<Rightarrow> error \<Rightarrow> ('v, 'h) cell \<Rightarrow> ('v, 'h) cell" where
  "record_failure now e c = (count_failure c)\<lparr>cell_last_failure := Some (failure_of now e)\<rparr>"

section \<open>Hooks\<close>

definition take_token :: "('v, 'h) cell \<Rightarrow> ('v, 'h) cell \<times> 64 word" where
  "take_token c = (c\<lparr>cell_next_token := cell_next_token c + 1\<rparr>, cell_next_token c)"

definition push_hook :: "64 word \<Rightarrow> 'h callback \<Rightarrow> ('v, 'h) cell \<Rightarrow> ('v, 'h) cell" where
  "push_hook token cb c = c\<lparr>cell_hooks := Some ((case cell_hooks c of None \<Rightarrow> [] | Some hs \<Rightarrow> hs) @
     [\<lparr>reg_token = token, reg_callback = cb\<rparr>])\<rparr>"

definition register_hook :: "'h callback \<Rightarrow> ('v, 'h) cell \<Rightarrow> ('v, 'h) cell \<times> 64 word" where
  "register_hook cb c = (let (c, token) = take_token c in (push_hook token cb c, token))"

definition unregister_hook :: "64 word \<Rightarrow> ('v, 'h) cell \<Rightarrow> ('v, 'h) cell" where
  "unregister_hook token c =
     (case cell_hooks c of None \<Rightarrow> c
      | Some hooks \<Rightarrow> c\<lparr>cell_hooks := Some (filter (\<lambda>r. reg_token r \<noteq> token) hooks)\<rparr>)"

definition on_reload :: "'h \<Rightarrow> ('v, 'h) cell \<Rightarrow> ('v, 'h) cell" where
  "on_reload h c = fst (register_hook (Pair_hook h) c)"

definition on_reload_with :: "'h \<Rightarrow> ('v, 'h) cell \<Rightarrow> ('v, 'h) cell" where
  "on_reload_with h c = fst (register_hook (Event_hook h) c)"

text \<open>A scoped registration returns the guard's token; dropping the guard is \<open>unregister_hook\<close>.\<close>

definition on_reload_scoped :: "'h \<Rightarrow> ('v, 'h) cell \<Rightarrow> ('v, 'h) cell \<times> 64 word" where
  "on_reload_scoped h c = register_hook (Pair_hook h) c"

definition on_reload_with_scoped :: "'h \<Rightarrow> ('v, 'h) cell \<Rightarrow> ('v, 'h) cell \<times> 64 word" where
  "on_reload_with_scoped h c = register_hook (Event_hook h) c"

definition drop_guard :: "64 word \<Rightarrow> ('v, 'h) cell \<Rightarrow> ('v, 'h) cell" where
  "drop_guard token c = unregister_hook token c"

section \<open>What a store does\<close>

named_theorems cell_defs

lemmas cell_steps [cell_defs] = init_slot_def swap_slot_def publish_meta_def publish_reason_def reset_failures_def
  bump_notify_def count_failure_def take_token_def push_hook_def

definition hooks_of :: "('v, 'h) cell \<Rightarrow> 'h registered list" where
  "hooks_of c = (case cell_hooks c of None \<Rightarrow> [] | Some hs \<Rightarrow> hs)"

definition event_hook :: "'h callback \<Rightarrow> 'h option" where
  "event_hook cb = (case cb of Pair_hook _ \<Rightarrow> None | Event_hook h \<Rightarrow> Some h)"

lemma cell_dispatch_calls:
  "fst (cell_dispatch panics previous a reason m c) =
     List.map_filter (\<lambda>r. hook_call_of \<lparr>ev_previous = previous, ev_current = a, ev_reason = reason, ev_meta = m\<rparr>
       (reg_callback r)) (hooks_of c)"
  by (auto simp: cell_dispatch_def hooks_of_def Let_def map_filter_simps split: option.split)

lemma calls_first:
  "ev_previous e = None \<Longrightarrow> List.map_filter (\<lambda>r. hook_call_of e (reg_callback r)) hs =
     map (\<lambda>h. Event_call h e) (List.map_filter (\<lambda>r. event_hook (reg_callback r)) hs)"
  by (induction hs) (auto simp: map_filter_simps event_hook_def split: callback.splits)

lemma calls_reload:
  "ev_previous e = Some p \<Longrightarrow> List.map_filter (\<lambda>r. hook_call_of e (reg_callback r)) hs =
     map (\<lambda>r. case reg_callback r of Pair_hook h \<Rightarrow> Pair_call h p (ev_current e) | Event_hook h \<Rightarrow> Event_call h e) hs"
proof (induction hs)
  case (Cons r hs)
  then show ?case by (cases "reg_callback r") (simp_all add: map_filter_simps)
qed (simp add: map_filter_simps)

text \<open>
  C18 (store_installs): a store makes its value the current one, counts one more generation, records its
  reason, ends the streak of failures but keeps the last failure, and calls the callbacks in the
  order they were registered: every one with the outgoing and the incoming value on a reload, and
  only the event form, with no previous value, on the first install.
\<close>

theorem store_installs:
  "case store_with panics now a reason c of (c', returned, calls, _) \<Rightarrow>
     returned = a \<and> cell_load c' = Some a \<and> cell_generation c' = cell_generation c + 1 \<and>
     cell_notify c' = cell_notify c + 1 \<and>
     is_healthy (cell_status c') \<and> st_last_reason (cell_status c') = Some reason \<and>
     st_loaded_at (cell_status c') = Some now \<and> st_last_failure (cell_status c') = st_last_failure (cell_status c) \<and>
     hooks_of c' = hooks_of c \<and>
     (let m = \<lparr>meta_generation = cell_generation c + 1, meta_loaded_at = now\<rparr> in
      calls = (case cell_load c of
          Some p \<Rightarrow>
            if ptr_eq p a then map (\<lambda>h. Event_call h \<lparr>ev_previous = None, ev_current = a, ev_reason = reason, ev_meta = m\<rparr>)
              (List.map_filter (\<lambda>r. event_hook (reg_callback r)) (hooks_of c))
            else map (\<lambda>r. case reg_callback r of Pair_hook h \<Rightarrow> Pair_call h p a
              | Event_hook h \<Rightarrow> Event_call h \<lparr>ev_previous = Some p, ev_current = a, ev_reason = reason, ev_meta = m\<rparr>) (hooks_of c)
        | None \<Rightarrow> map (\<lambda>h. Event_call h \<lparr>ev_previous = None, ev_current = a, ev_reason = reason, ev_meta = m\<rparr>)
            (List.map_filter (\<lambda>r. event_hook (reg_callback r)) (hooks_of c))))"
proof (cases "cell_inner c")
  case None
  then show ?thesis
    by (simp add: store_with_def cell_steps cell_load_def cell_generation_def cell_status_def is_healthy_def
        ptr_eq_def cell_dispatch_calls hooks_of_def calls_first Let_def split_beta)
next
  case (Some p)
  then show ?thesis
    by (cases "ptr_eq p a") (simp_all add: store_with_def cell_steps cell_load_def cell_generation_def
        cell_status_def is_healthy_def cell_dispatch_calls hooks_of_def calls_first calls_reload Let_def split_beta cong: callback.case_cong)
qed

section \<open>Failures and hooks\<close>

text \<open>
  C19 (failures_are_counted): recording a failure installs nothing and leaves the status unhealthy; the
  streak grows by one until it saturates and never wraps to zero, and only the failure's category,
  key path and time are kept.
\<close>

theorem failures_are_counted:
  "cell_load (record_failure now e c) = cell_load c \<and> cell_generation (record_failure now e c) = cell_generation c \<and>
   hooks_of (record_failure now e c) = hooks_of c \<and>
   \<not> is_healthy (cell_status (record_failure now e c)) \<and>
   unat (cell_failures (record_failure now e c)) = min (unat (cell_failures c) + 1) (2 ^ 32 - 1) \<and>
   st_last_failure (cell_status (record_failure now e c)) =
     Some \<lparr>fail_at = now, fail_kind = err_kind e, fail_path = join_with ''.'' (err_path e)\<rparr>"
proof -
  have lt: "cell_failures c < u32_max \<longleftrightarrow> unat (cell_failures c) < 2 ^ 32 - 1"
    by (simp add: word_less_nat_alt u32_max_def)
  have inc: "unat (cell_failures c + 1) = unat (cell_failures c) + 1" if "unat (cell_failures c) < 2 ^ 32 - 1"
    using that by (simp add: unat_word_ariths)
  have le: "unat (cell_failures c) \<le> 2 ^ 32 - 1" using unsigned_less [of "cell_failures c", where ?'a = nat] by simp
  have u: "unat (cell_failures (record_failure now e c)) = min (unat (cell_failures c) + 1) (2 ^ 32 - 1)"
    using lt inc le by (auto simp: record_failure_def count_failure_def)
  then have "unat (cell_failures (record_failure now e c)) \<noteq> 0" by simp
  then have "cell_failures (record_failure now e c) \<noteq> 0" by (metis unat_0)
  then show ?thesis using u
    by (simp add: record_failure_def count_failure_def cell_load_def cell_generation_def hooks_of_def is_healthy_def
        cell_status_def failure_of_def path_of_def)
qed

text \<open>Tokens are handed out in order, so they are distinct until the counter has gone all the way round.\<close>

definition hooks_ok :: "('v, 'h) cell \<Rightarrow> bool" where
  "hooks_ok c \<longleftrightarrow> distinct (map reg_token (hooks_of c)) \<and> (\<forall>r \<in> set (hooks_of c). reg_token r < cell_next_token c)"

lemma hooks_of_new [simp]: "hooks_ok cell_new"
  by (simp add: hooks_ok_def hooks_of_def cell_new_def)

lemma hooks_of_unregister [simp]:
  "hooks_of (unregister_hook token c) = filter (\<lambda>r. reg_token r \<noteq> token) (hooks_of c)"
  by (simp add: unregister_hook_def hooks_of_def split: option.split)

lemma hooks_of_push [simp]:
  "hooks_of (push_hook token cb c) = hooks_of c @ [\<lparr>reg_token = token, reg_callback = cb\<rparr>]"
  by (simp add: push_hook_def hooks_of_def split: option.split)

text \<open>
  C35 (guard_removes_only_its_hook): a registration appends one callback under a fresh token, and
  dropping its guard removes that callback and no other, keeping the rest in order, so that a
  subsystem that registers and is torn down leaves the callbacks as they were.
\<close>

theorem guard_removes_only_its_hook:
  assumes "hooks_ok c" "cell_next_token c \<noteq> 0xFFFFFFFFFFFFFFFF" "on_reload_scoped h c = (c', token)"
  shows "hooks_ok c' \<and> hooks_of c' = hooks_of c @ [\<lparr>reg_token = token, reg_callback = Pair_hook h\<rparr>] \<and>
    hooks_of (drop_guard token c') = hooks_of c \<and>
    hooks_of (drop_guard token (on_reload_with h' c')) =
      hooks_of c @ [\<lparr>reg_token = token + 1, reg_callback = Event_hook h'\<rparr>]"
proof -
  have t: "token = cell_next_token c" and c': "c' = push_hook token (Pair_hook h) (fst (take_token c))"
    using assms(3) by (auto simp: on_reload_scoped_def register_hook_def take_token_def Let_def)
  have hooks: "hooks_of (fst (take_token c)) = hooks_of c" "cell_next_token c' = token + 1"
    by (simp_all add: take_token_def hooks_of_def c' t push_hook_def)
  have up: "token < token + 1"
    using assms(2) unsigned_less [of token, where ?'a = nat] unfolding t word_less_nat_alt
    by (auto simp: unat_word_ariths word_unat_eq_iff)
  have lt: "r \<in> set (hooks_of c) \<Longrightarrow> reg_token r < token" for r using assms(1) by (simp add: hooks_ok_def t)
  then have ne: "filter (\<lambda>r. reg_token r \<noteq> token) (hooks_of c) = hooks_of c"
    by (intro filter_True) auto
  have eq: "hooks_of c' = hooks_of c @ [\<lparr>reg_token = token, reg_callback = Pair_hook h\<rparr>]"
    by (simp add: c' hooks)
  have "hooks_ok c'"
    using assms(1) lt up by (auto simp: hooks_ok_def eq hooks(2) dest: lt less_trans)
  moreover have "hooks_of (on_reload_with h' c') = hooks_of c' @ [\<lparr>reg_token = token + 1, reg_callback = Event_hook h'\<rparr>]"
    using hooks(2) by (simp add: on_reload_with_def register_hook_def take_token_def Let_def) (simp add: hooks_of_def)
  ultimately show ?thesis using ne up eq by (auto simp: drop_guard_def)
qed

theorem guard_removes_only_its_hook_witness:
  "hooks_of (drop_guard 0 (fst (on_reload_scoped (7 :: nat) (cell_new :: (nat, nat) cell)))) = []"
proof -
  have "on_reload_scoped (7 :: nat) (cell_new :: (nat, nat) cell) = (fst (on_reload_scoped 7 cell_new), 0)"
    by (simp add: on_reload_scoped_def register_hook_def take_token_def cell_new_def Let_def)
  from guard_removes_only_its_hook [OF hooks_of_new _ this, of 8] show ?thesis
    by (simp add: cell_new_def hooks_of_def)
qed

end
