(* ===== verification/Interleaving.thy ===== *)
theory Interleaving imports Cell begin

text \<open>
  The cell of \<open>dynamic-config/src/cell.rs\<close> shared by threads that do not wait for one another. A
  step of the system is one atomic operation of one activity: a store, a failure being recorded,
  or a registration, each at its own point of the code (\<open>phase\<close>). A store begun from inside a
  callback is an activity like any other, so re-entrant stores are covered.

  The system also keeps what has happened, which no step reads: every value the cell has held, in
  order (\<open>sys_history\<close>), the number of swaps, the metadata published, and the callbacks called.
\<close>

section \<open>The steps\<close>

datatype ('v, 'h) phase =
    Idle
  | Initialise "'v arc" reload_reason
  | Swap "'v arc" reload_reason
  | Publish "'v arc" reload_reason "'v arc"
  | Reason "'v arc" reload_reason "'v arc" snapshot_meta
  | Reset "'v arc" reload_reason "'v arc" snapshot_meta
  | Bump "'v arc" reload_reason "'v arc" snapshot_meta
  | Hooks "'v arc" reload_reason "'v arc" snapshot_meta
  | Calling "('v, 'h) hook_call list"
  | Fail_load error
  | Fail_exchange error "32 word"
  | Fail_status error
  | Push_hook "64 word" "'h callback"

record ('v, 'h) sys =
  sys_cell :: "('v, 'h) cell"
  sys_phase :: "nat \<Rightarrow> ('v, 'h) phase"
  sys_next :: nat
  sys_clock :: instant
  sys_history :: "'v arc list"
  sys_swaps :: nat
  sys_metas :: "snapshot_meta list"
  sys_calls :: "('v, 'h) hook_call list"

definition sys_new :: "('v, 'h) sys" where
  "sys_new = \<lparr>sys_cell = cell_new, sys_phase = \<lambda>_. Idle, sys_next = 0, sys_clock = 0, sys_history = [],
     sys_swaps = 0, sys_metas = [], sys_calls = []\<rparr>"

abbreviation goes :: "('v, 'h) sys \<Rightarrow> nat \<Rightarrow> ('v, 'h) phase \<Rightarrow> ('v, 'h) cell \<Rightarrow> ('v, 'h) sys" where
  "goes s i p c \<equiv> s\<lparr>sys_cell := c, sys_phase := (sys_phase s)(i := p)\<rparr>"

definition previous_of :: "'v arc \<Rightarrow> 'v arc \<Rightarrow> 'v arc option" where
  "previous_of p a = (if ptr_eq p a then None else Some p)"

inductive step :: "('v, 'h) sys \<Rightarrow> ('v, 'h) sys \<Rightarrow> bool" where
  store_begin: "sys_phase s i = Idle \<Longrightarrow>
    step s (goes s i (Initialise (sys_next s, v) r) (sys_cell s) \<lparr>sys_next := sys_next s + 1\<rparr>)"
| store_initialise: "sys_phase s i = Initialise a r \<Longrightarrow>
    step s (goes s i (Swap a r) (init_slot a (sys_cell s))
      \<lparr>sys_history := (if cell_inner (sys_cell s) = None then sys_history s @ [a] else sys_history s)\<rparr>)"
| store_swap: "sys_phase s i = Swap a r \<Longrightarrow> swap_slot a (sys_cell s) = (c, p) \<Longrightarrow>
    step s (goes s i (Publish a r p) c \<lparr>sys_history := sys_history s @ [a], sys_swaps := sys_swaps s + 1\<rparr>)"
| store_publish: "sys_phase s i = Publish a r p \<Longrightarrow> publish_meta (sys_clock s) (sys_cell s) = (c, m) \<Longrightarrow>
    step s (goes s i (Reason a r p m) c \<lparr>sys_metas := sys_metas s @ [m]\<rparr>)"
| store_reason: "sys_phase s i = Reason a r p m \<Longrightarrow>
    step s (goes s i (Reset a r p m) (publish_reason r (sys_cell s)))"
| store_reset: "sys_phase s i = Reset a r p m \<Longrightarrow>
    step s (goes s i (Bump a r p m) (reset_failures (sys_cell s)))"
| store_bump: "sys_phase s i = Bump a r p m \<Longrightarrow>
    step s (goes s i (Hooks a r p m) (bump_notify (sys_cell s)))"
| store_hooks: "sys_phase s i = Hooks a r p m \<Longrightarrow>
    step s (goes s i (Calling (fst (cell_dispatch (\<lambda>_. False) (previous_of p a) a r m (sys_cell s)))) (sys_cell s))"
| store_call: "sys_phase s i = Calling (x # xs) \<Longrightarrow>
    step s (goes s i (Calling xs) (sys_cell s) \<lparr>sys_calls := sys_calls s @ [x]\<rparr>)"
| store_end: "sys_phase s i = Calling [] \<Longrightarrow> step s (goes s i Idle (sys_cell s))"
| fail_begin: "sys_phase s i = Idle \<Longrightarrow> step s (goes s i (Fail_load e) (sys_cell s))"
| fail_load: "sys_phase s i = Fail_load e \<Longrightarrow>
    step s (goes s i (if cell_failures (sys_cell s) < u32_max then Fail_exchange e (cell_failures (sys_cell s)) else Fail_status e)
      (sys_cell s))"
| fail_exchanged: "sys_phase s i = Fail_exchange e n \<Longrightarrow> cell_failures (sys_cell s) = n \<Longrightarrow>
    step s (goes s i (Fail_status e) ((sys_cell s)\<lparr>cell_failures := n + 1\<rparr>))"
| fail_again: "sys_phase s i = Fail_exchange e n \<Longrightarrow>
    step s (goes s i (if cell_failures (sys_cell s) < u32_max then Fail_exchange e (cell_failures (sys_cell s)) else Fail_status e)
      (sys_cell s))"
| fail_status: "sys_phase s i = Fail_status e \<Longrightarrow>
    step s (goes s i Idle ((sys_cell s)\<lparr>cell_last_failure := Some (failure_of (sys_clock s) e)\<rparr>))"
| register_token: "sys_phase s i = Idle \<Longrightarrow> take_token (sys_cell s) = (c, t) \<Longrightarrow>
    step s (goes s i (Push_hook t cb) c)"
| register_push: "sys_phase s i = Push_hook t cb \<Longrightarrow> step s (goes s i Idle (push_hook t cb (sys_cell s)))"
| unregister: "sys_phase s i = Idle \<Longrightarrow> step s (goes s i Idle (unregister_hook t (sys_cell s)))"
| tick: "sys_clock s \<le> t \<Longrightarrow> step s (s\<lparr>sys_clock := t\<rparr>)"

inductive reachable :: "('v, 'h) sys \<Rightarrow> bool" where
  reachable_new: "reachable sys_new"
| reachable_step: "reachable s \<Longrightarrow> step s t \<Longrightarrow> reachable t"

inductive_cases stepE: "step s t"

section \<open>Generations\<close>

fun publishing :: "('v, 'h) phase \<Rightarrow> bool" where
  "publishing (Publish _ _ _) = True"
| "publishing _ = False"

lemma cell_meta_simps [simp]:
  "cell_meta (init_slot a c) = cell_meta c" "cell_meta (fst (swap_slot a c)) = cell_meta c"
  "cell_meta (publish_reason r c) = cell_meta c" "cell_meta (reset_failures c) = cell_meta c"
  "cell_meta (bump_notify c) = cell_meta c" "cell_meta (push_hook t cb c) = cell_meta c"
  "cell_meta (unregister_hook t c) = cell_meta c" "cell_meta (fst (take_token c)) = cell_meta c"
  by (simp_all add: cell_steps unregister_hook_def split: option.split)

definition metas_ok :: "('v, 'h) sys \<Rightarrow> bool" where
  "metas_ok s \<longleftrightarrow> map meta_generation (sys_metas s) = map (\<lambda>k. of_nat k + 1) [0..<length (sys_metas s)] \<and>
     cell_meta (sys_cell s) = (if sys_metas s = [] then None else Some (last (sys_metas s)))"

lemma metas_generation: "metas_ok s \<Longrightarrow> cell_generation (sys_cell s) = of_nat (length (sys_metas s))"
proof (cases "sys_metas s" rule: rev_cases)
  case (snoc ms m)
  assume "metas_ok s"
  with snoc show ?thesis by (auto simp: metas_ok_def cell_generation_def)
qed (auto simp: metas_ok_def cell_generation_def)

lemma step_metas: "step s t \<Longrightarrow> metas_ok s \<Longrightarrow> metas_ok t"
proof (induction rule: step.induct)
  case (store_publish s i a r p c m)
  then have g: "cell_generation (sys_cell s) = of_nat (length (sys_metas s))" by (intro metas_generation)
  then have "meta_generation m = of_nat (length (sys_metas s)) + 1" "cell_meta c = Some m"
    using store_publish(2) by (auto simp: publish_meta_def cell_generation_def Let_def)
  with store_publish show ?case by (simp add: metas_ok_def)
next
  case (store_swap s i a r c p)
  then have "cell_meta c = cell_meta (sys_cell s)" by (auto simp: swap_slot_def)
  with store_swap show ?case by (simp add: metas_ok_def)
next
  case (register_token s i c t cb)
  then have "cell_meta c = cell_meta (sys_cell s)" by (auto simp: take_token_def)
  with register_token show ?case by (simp add: metas_ok_def)
qed (auto simp: metas_ok_def)

definition in_flight :: "(nat \<Rightarrow> ('v, 'h) phase) \<Rightarrow> nat set" where
  "in_flight f = {i. publishing (f i)}"

lemma in_flight_upd [simp]:
  "in_flight (f(i := p)) = (if publishing p then insert i (in_flight f) else in_flight f - {i})"
  by (auto simp: in_flight_def)

definition count_ok :: "('v, 'h) sys \<Rightarrow> bool" where
  "count_ok s \<longleftrightarrow> finite (in_flight (sys_phase s)) \<and> sys_swaps s = length (sys_metas s) + card (in_flight (sys_phase s))"

lemma not_in_flight: "sys_phase s i = p \<Longrightarrow> \<not> publishing p \<Longrightarrow> i \<notin> in_flight (sys_phase s)"
  by (simp add: in_flight_def)

lemma step_count: "step s t \<Longrightarrow> count_ok s \<Longrightarrow> count_ok t"
proof (induction rule: step.induct)
  case (store_swap s i a r c p)
  with not_in_flight [OF store_swap(1)] show ?case by (simp add: count_ok_def)
next
  case (store_publish s i a r p c m)
  then have "i \<in> in_flight (sys_phase s)" by (simp add: in_flight_def)
  then have "0 < card (in_flight (sys_phase s))" using store_publish(3) by (auto simp: count_ok_def card_gt_0_iff)
  with \<open>i \<in> _\<close> store_publish show ?case by (simp add: count_ok_def)
qed (simp_all add: count_ok_def not_in_flight)

lemma reachable_counts: "reachable s \<Longrightarrow> metas_ok s \<and> count_ok s"
proof (induction rule: reachable.induct)
  case reachable_new
  show ?case by (simp add: metas_ok_def count_ok_def sys_new_def cell_new_def in_flight_def)
qed (blast dest: step_metas step_count)

text \<open>
  C4 (generation_counts_installs): in every interleaving of stores, failures and registrations, the
  generations published are 1, 2, 3 and so on, none skipped, none twice and never backwards; the
  metadata lags the value by the stores that have swapped and not yet published and never leads
  it, so once no store is between the two the generation is the number of installs.
\<close>

theorem generation_counts_installs:
  assumes "reachable s"
  shows "map meta_generation (sys_metas s) = map (\<lambda>k. of_nat k + 1) [0..<length (sys_metas s)] \<and>
    cell_generation (sys_cell s) = of_nat (length (sys_metas s)) \<and>
    sys_swaps s = length (sys_metas s) + card (in_flight (sys_phase s)) \<and>
    (in_flight (sys_phase s) = {} \<longrightarrow> cell_generation (sys_cell s) = of_nat (sys_swaps s))"
  using reachable_counts [OF assms] metas_generation by (auto simp: metas_ok_def count_ok_def)

section \<open>What the callbacks are handed\<close>

definition adjacent :: "'v arc list \<Rightarrow> 'v arc \<Rightarrow> 'v arc \<Rightarrow> bool" where
  "adjacent h p a \<longleftrightarrow> (\<exists>xs ys. h = xs @ p # a # ys)"

fun call_ok :: "'v arc list \<Rightarrow> ('v, 'h) hook_call \<Rightarrow> bool" where
  "call_ok h (Pair_call _ p a) \<longleftrightarrow> adjacent h p a \<and> \<not> ptr_eq p a"
| "call_ok h (Event_call _ e) \<longleftrightarrow> (case ev_previous e of
      Some p \<Rightarrow> adjacent h p (ev_current e) \<and> \<not> ptr_eq p (ev_current e)
    | None \<Rightarrow> h \<noteq> [] \<and> hd h = ev_current e)"

definition handed :: "'v arc list \<Rightarrow> 'v arc \<Rightarrow> 'v arc \<Rightarrow> bool" where
  "handed h p a \<longleftrightarrow> adjacent h p a \<and> (ptr_eq p a \<longrightarrow> p = a \<and> hd h = a)"

fun own_arc :: "('v, 'h) phase \<Rightarrow> 'v arc option" where
  "own_arc (Initialise a _) = Some a"
| "own_arc (Swap a _) = Some a"
| "own_arc _ = None"

fun phase_ok :: "'v arc list \<Rightarrow> nat \<Rightarrow> ('v, 'h) phase \<Rightarrow> bool" where
  "phase_ok h n (Initialise a _) \<longleftrightarrow> fst a < n \<and> (\<forall>x \<in> set h. fst x \<noteq> fst a)"
| "phase_ok h n (Swap a _) \<longleftrightarrow> fst a < n \<and> h \<noteq> [] \<and> (\<forall>x \<in> set h. fst x = fst a \<longrightarrow> x = a \<and> hd h = a)"
| "phase_ok h n (Publish a _ p) \<longleftrightarrow> handed h p a"
| "phase_ok h n (Reason a _ p _) \<longleftrightarrow> handed h p a"
| "phase_ok h n (Reset a _ p _) \<longleftrightarrow> handed h p a"
| "phase_ok h n (Bump a _ p _) \<longleftrightarrow> handed h p a"
| "phase_ok h n (Hooks a _ p _) \<longleftrightarrow> handed h p a"
| "phase_ok h n (Calling cs) \<longleftrightarrow> (\<forall>c \<in> set cs. call_ok h c)"
| "phase_ok h n _ \<longleftrightarrow> True"

lemma adjacent_not_Nil: "adjacent h p a \<Longrightarrow> h \<noteq> []"
  by (auto simp: adjacent_def)

lemma adjacent_append: "adjacent h p a \<Longrightarrow> adjacent (h @ k) p a"
  unfolding adjacent_def by force

lemma call_ok_append: "call_ok h c \<Longrightarrow> call_ok (h @ k) c"
  by (cases c) (auto simp: adjacent_append split: option.splits)

lemma handed_append: "handed h p a \<Longrightarrow> handed (h @ k) p a"
  using adjacent_not_Nil [of h p a] by (auto simp: handed_def adjacent_append)

lemma phase_ok_append:
  "phase_ok h n p \<Longrightarrow> (\<And>a. own_arc p = Some a \<Longrightarrow> fst a \<noteq> fst b) \<Longrightarrow> phase_ok (h @ [b]) n p"
  by (cases p) (auto simp: handed_append call_ok_append)

lemma phase_ok_Suc: "phase_ok h n p \<Longrightarrow> phase_ok h (Suc n) p"
  by (cases p) auto

lemma dispatch_calls_ok:
  assumes "handed h p a"
  shows "\<forall>c \<in> set (fst (cell_dispatch panics (previous_of p a) a r m cell)). call_ok h c"
proof -
  have "call_ok h c" if "hook_call_of \<lparr>ev_previous = previous_of p a, ev_current = a, ev_reason = r, ev_meta = m\<rparr> cb = Some c" for cb c
    using assms that adjacent_not_Nil [of h p a]
    by (cases cb) (auto simp: handed_def previous_of_def split: if_splits)
  then show ?thesis unfolding cell_dispatch_calls by (auto simp: List.map_filter_def)
qed

definition history_ok :: "('v, 'h) sys \<Rightarrow> bool" where
  "history_ok s \<longleftrightarrow> cell_inner (sys_cell s) = (if sys_history s = [] then None else Some (last (sys_history s))) \<and>
     (\<forall>x \<in> set (sys_history s). fst x < sys_next s) \<and>
     (\<forall>i j a b. i \<noteq> j \<longrightarrow> own_arc (sys_phase s i) = Some a \<longrightarrow> own_arc (sys_phase s j) = Some b \<longrightarrow> fst a \<noteq> fst b) \<and>
     (\<forall>i. phase_ok (sys_history s) (sys_next s) (sys_phase s i)) \<and>
     (\<forall>c \<in> set (sys_calls s). call_ok (sys_history s) c)"

lemma own_arc_fresh: "phase_ok h n p \<Longrightarrow> own_arc p = Some a \<Longrightarrow> fst a < n"
  by (cases p) auto

lemma cell_inner_simps [simp]:
  "cell_inner (fst (publish_meta now c)) = cell_inner c"
  "cell_inner (publish_reason r c) = cell_inner c" "cell_inner (reset_failures c) = cell_inner c"
  "cell_inner (bump_notify c) = cell_inner c" "cell_inner (push_hook t cb c) = cell_inner c"
  "cell_inner (unregister_hook t c) = cell_inner c" "cell_inner (fst (take_token c)) = cell_inner c"
  by (simp_all add: cell_steps unregister_hook_def Let_def split: option.split)

lemma history_okI:
  assumes "cell_inner (sys_cell s) = (if sys_history s = [] then None else Some (last (sys_history s)))"
    "\<And>x. x \<in> set (sys_history s) \<Longrightarrow> fst x < sys_next s"
    "\<And>i j a b. i \<noteq> j \<Longrightarrow> own_arc (sys_phase s i) = Some a \<Longrightarrow> own_arc (sys_phase s j) = Some b \<Longrightarrow> fst a \<noteq> fst b"
    "\<And>i. phase_ok (sys_history s) (sys_next s) (sys_phase s i)"
    "\<And>c. c \<in> set (sys_calls s) \<Longrightarrow> call_ok (sys_history s) c"
  shows "history_ok s"
  using assms unfolding history_ok_def by blast

lemma history_okD:
  assumes "history_ok s"
  shows "cell_inner (sys_cell s) = (if sys_history s = [] then None else Some (last (sys_history s)))"
    "x \<in> set (sys_history s) \<Longrightarrow> fst x < sys_next s"
    "i \<noteq> j \<Longrightarrow> own_arc (sys_phase s i) = Some a \<Longrightarrow> own_arc (sys_phase s j) = Some b \<Longrightarrow> fst a \<noteq> fst b"
    "phase_ok (sys_history s) (sys_next s) (sys_phase s i)"
    "c \<in> set (sys_calls s) \<Longrightarrow> call_ok (sys_history s) c"
  using assms unfolding history_ok_def by blast+

lemma history_ok_frame:
  assumes "history_ok s" "sys_history t = sys_history s" "sys_next t = sys_next s"
    "cell_inner (sys_cell t) = cell_inner (sys_cell s)" "sys_phase t = (sys_phase s)(i := p)" "own_arc p = None"
    "phase_ok (sys_history s) (sys_next s) (sys_phase s i) \<Longrightarrow> phase_ok (sys_history s) (sys_next s) p"
    "set (sys_calls t) \<subseteq> set (sys_calls s) \<union> {c. call_ok (sys_history s) c}"
  shows "history_ok t"
proof -
  have "call_ok (sys_history s) c" if "c \<in> set (sys_calls t)" for c
    using assms(1,8) that unfolding history_ok_def by blast
  then show ?thesis using assms(1-7) unfolding history_ok_def by auto
qed

lemma history_phase: "history_ok s \<Longrightarrow> sys_phase s i = p \<Longrightarrow> phase_ok (sys_history s) (sys_next s) p"
  unfolding history_ok_def by blast

lemma history_own_fresh: "history_ok s \<Longrightarrow> own_arc (sys_phase s j) = Some b \<Longrightarrow> fst b < sys_next s"
  using history_phase own_arc_fresh by blast

text \<open>A value enters the history: that of the activity at \<open>i\<close>, whose address no other activity has.\<close>

lemma history_ok_enters:
  assumes ok: "history_ok s" and own: "own_arc (sys_phase s i) = Some a"
    and t: "sys_history t = sys_history s @ [a]" "sys_next t = sys_next s" "cell_inner (sys_cell t) = Some a"
      "sys_phase t = (sys_phase s)(i := p)" "sys_calls t = sys_calls s"
    and p: "own_arc p = None \<or> own_arc p = Some a" "phase_ok (sys_history s @ [a]) (sys_next s) p"
  shows "history_ok t"
proof -
  have own_t: "own_arc (sys_phase t j) = Some b \<Longrightarrow> own_arc (sys_phase s j) = Some b" for j b
    using p(1) own t(4) by (auto split: if_splits)
  have distinct: "j \<noteq> i \<Longrightarrow> own_arc (sys_phase s j) = Some b \<Longrightarrow> fst b \<noteq> fst a" for j b
    using ok own unfolding history_ok_def by metis
  show ?thesis
  proof (rule history_okI)
    show "cell_inner (sys_cell t) = (if sys_history t = [] then None else Some (last (sys_history t)))"
      using t(1,3) by simp
    show "fst x < sys_next t" if "x \<in> set (sys_history t)" for x
      using that history_okD(2) [OF ok, of x] history_own_fresh [OF ok own] t(1,2) by auto
    show "fst b \<noteq> fst b'" if "j \<noteq> k" "own_arc (sys_phase t j) = Some b" "own_arc (sys_phase t k) = Some b'" for j k b b'
      using history_okD(3) [OF ok that(1) own_t [OF that(2)] own_t [OF that(3)]] .
    show "phase_ok (sys_history t) (sys_next t) (sys_phase t j)" for j
    proof (cases "j = i")
      case False
      then show ?thesis
        using history_phase [OF ok refl, of j] distinct [OF False] t(1,2,4) by (auto intro!: phase_ok_append)
    qed (use p(2) t(1,2,4) in simp)
    show "call_ok (sys_history t) c" if "c \<in> set (sys_calls t)" for c
      using that history_okD(5) [OF ok, of c] t(1,5) by (simp add: call_ok_append)
  qed
qed

lemma history_Swap: "history_ok s \<Longrightarrow> sys_phase s i = Swap a r \<Longrightarrow>
   sys_history s \<noteq> [] \<and> cell_inner (sys_cell s) = Some (last (sys_history s)) \<and>
   handed (sys_history s @ [a]) (last (sys_history s)) a"
proof -
  assume ok: "history_ok s" and i: "sys_phase s i = Swap a r"
  have p: "sys_history s \<noteq> []" "\<And>x. x \<in> set (sys_history s) \<Longrightarrow> fst x = fst a \<Longrightarrow> x = a \<and> hd (sys_history s) = a"
    using history_phase [OF ok i] by auto
  then obtain h where h: "sys_history s = h @ [last (sys_history s)]" by (metis append_butlast_last_id)
  then have "adjacent (sys_history s @ [a]) (last (sys_history s)) a" unfolding adjacent_def
    by (metis append.assoc append_Cons append_Nil)
  then have "handed (sys_history s @ [a]) (last (sys_history s)) a"
    using p(1) p(2) [OF last_in_set [OF p(1)]] by (auto simp: handed_def ptr_eq_def)
  then show ?thesis using ok p(1) by (simp add: history_ok_def)
qed

lemma step_history: "step s t \<Longrightarrow> history_ok s \<Longrightarrow> history_ok t"
proof (induction rule: step.induct)
  case (store_begin s i v r)
  let ?t = "goes s i (Initialise (sys_next s, v) r) (sys_cell s) \<lparr>sys_next := sys_next s + 1\<rparr>"
  have fresh: "own_arc (sys_phase s j) = Some b \<Longrightarrow> fst b < sys_next s" for j b
    using history_own_fresh [OF store_begin(2)] .
  note ok = history_okD [OF store_begin(2)]
  show ?case
  proof (rule history_okI)
    show "cell_inner (sys_cell ?t) = (if sys_history ?t = [] then None else Some (last (sys_history ?t)))"
      using ok(1) by simp
    show "fst x < sys_next ?t" if "x \<in> set (sys_history ?t)" for x
      using that ok(2) [of x] by simp
    show "fst b \<noteq> fst b'" if "j \<noteq> k" "own_arc (sys_phase ?t j) = Some b" "own_arc (sys_phase ?t k) = Some b'" for j k b b'
      using that ok(3) [of j k b b'] fresh [of j b] fresh [of k b'] by (cases "j = i"; cases "k = i") auto
    show "phase_ok (sys_history ?t) (sys_next ?t) (sys_phase ?t j)" for j
      using ok(2) phase_ok_Suc [OF ok(4), of j] by (cases "j = i") (auto dest: less_imp_neq)
    show "call_ok (sys_history ?t) c" if "c \<in> set (sys_calls ?t)" for c
      using that ok(5) [of c] by simp
  qed
next
  case (store_initialise s i a r)
  have n: "\<forall>x \<in> set (sys_history s). fst x \<noteq> fst a" "fst a < sys_next s"
    using history_phase [OF store_initialise(2,1)] by auto
  show ?case
  proof (cases "cell_inner (sys_cell s)")
    case None
    then have h: "sys_history s = []" using store_initialise(2) by (auto simp: history_ok_def split: if_splits)
    show ?thesis
      by (rule history_ok_enters [OF store_initialise(2), of i a _ "Swap a r"])
        (use store_initialise None h n in \<open>auto simp: init_slot_def\<close>)
  next
    case (Some q)
    note ok = history_okD [OF store_initialise(2)]
    have ne: "sys_history s \<noteq> []" using Some ok(1) by (auto split: if_splits)
    let ?t = "goes s i (Swap a r) (init_slot a (sys_cell s)) \<lparr>sys_history := sys_history s\<rparr>"
    have "history_ok ?t"
    proof (rule history_okI)
      show "cell_inner (sys_cell ?t) = (if sys_history ?t = [] then None else Some (last (sys_history ?t)))"
        using ok(1) ne unfolding init_slot_def by (simp add: Some)
      show "fst x < sys_next ?t" if "x \<in> set (sys_history ?t)" for x using that ok(2) [of x] by simp
      show "fst b \<noteq> fst b'" if "j \<noteq> k" "own_arc (sys_phase ?t j) = Some b" "own_arc (sys_phase ?t k) = Some b'" for j k b b'
        using that ok(3) [of j k b b'] store_initialise(1) by (cases "j = i"; cases "k = i") auto
      show "phase_ok (sys_history ?t) (sys_next ?t) (sys_phase ?t j)" for j
        using ok(4) [of j] n ne by (cases "j = i") auto
      show "call_ok (sys_history ?t) c" if "c \<in> set (sys_calls ?t)" for c using that ok(5) [of c] by simp
    qed
    then show ?thesis using Some by simp
  qed
next
  case (store_swap s i a r c p)
  note sw = history_Swap [OF store_swap(3,1)]
  have "p = last (sys_history s)" "cell_inner c = Some a" using store_swap(2) sw by (auto simp: swap_slot_def)
  with sw store_swap show ?case
    by (intro history_ok_enters [OF store_swap(3), of i a _ "Publish a r p"]) auto
next
  case (store_publish s i a r p c m)
  then have "cell_inner c = cell_inner (sys_cell s)" by (auto simp: publish_meta_def Let_def)
  with store_publish show ?case by (intro history_ok_frame [OF store_publish(3), of _ i "Reason a r p m"]) auto
next
  case (store_hooks s i a r p m)
  then have "handed (sys_history s) p a" using history_phase [OF store_hooks(2,1)] by simp
  with dispatch_calls_ok [OF this, of "\<lambda>_. False" r m "sys_cell s"] store_hooks show ?case
    by (intro history_ok_frame [OF store_hooks(2), of _ i]) auto
next
  case (register_token s i c t cb)
  then have "cell_inner c = cell_inner (sys_cell s)" by (auto simp: take_token_def)
  with register_token show ?case by (intro history_ok_frame [OF register_token(3), of _ i "Push_hook t cb"]) auto
next
  case (tick s t)
  have "sys_history (s\<lparr>sys_clock := t\<rparr>) = sys_history s" "sys_next (s\<lparr>sys_clock := t\<rparr>) = sys_next s"
    "sys_cell (s\<lparr>sys_clock := t\<rparr>) = sys_cell s" "sys_phase (s\<lparr>sys_clock := t\<rparr>) = sys_phase s"
    "sys_calls (s\<lparr>sys_clock := t\<rparr>) = sys_calls s" by simp_all
  note frame = this
  show ?case unfolding history_ok_def frame by (rule tick(2) [unfolded history_ok_def])
next
  case (store_call s i x xs)
  then show ?case using history_phase [OF store_call(2,1)]
    by (intro history_ok_frame [OF store_call(2), of _ i "Calling xs"]) auto
next
  case (store_reason s i a r p m)
  then show ?case by (intro history_ok_frame [OF store_reason(2), of _ i]) auto
next
  case (store_reset s i a r p m)
  then show ?case by (intro history_ok_frame [OF store_reset(2), of _ i]) auto
next
  case (store_bump s i a r p m)
  then show ?case by (intro history_ok_frame [OF store_bump(2), of _ i]) auto
next
  case (store_end s i)
  then show ?case by (intro history_ok_frame [OF store_end(2), of _ i]) auto
next
  case (fail_begin s i e)
  then show ?case by (intro history_ok_frame [OF fail_begin(2), of _ i]) auto
next
  case (fail_load s i e)
  then show ?case by (intro history_ok_frame [OF fail_load(2), of _ i]) auto
next
  case (fail_exchanged s i e n)
  then show ?case by (intro history_ok_frame [OF fail_exchanged(3), of _ i]) auto
next
  case (fail_again s i e n)
  then show ?case by (intro history_ok_frame [OF fail_again(2), of _ i]) auto
next
  case (fail_status s i e)
  then show ?case by (intro history_ok_frame [OF fail_status(2), of _ i]) auto
next
  case (register_push s i t cb)
  then show ?case by (intro history_ok_frame [OF register_push(2), of _ i]) auto
next
  case (unregister s i t)
  then show ?case by (intro history_ok_frame [OF unregister(2), of _ i]) auto
qed

lemma reachable_history: "reachable s \<Longrightarrow> history_ok s"
proof (induction rule: reachable.induct)
  case reachable_new
  show ?case by (rule history_okI) (simp_all add: sys_new_def cell_new_def)
qed (blast dest: step_history)

text \<open>
  C3 (callbacks_see_consistent_pairs): however stores interleave, every callback that was ever
  called got two values the cell held one right after the other, the outgoing before the
  incoming and never the same value twice; and an event without a previous value is that of the
  very first value the cell held.
\<close>

theorem callbacks_see_consistent_pairs:
  assumes "reachable s" "c \<in> set (sys_calls s)"
  shows "case c of
      Pair_call _ p a \<Rightarrow> (\<exists>xs ys. sys_history s = xs @ p # a # ys) \<and> \<not> ptr_eq p a
    | Event_call _ e \<Rightarrow> (case ev_previous e of
          Some p \<Rightarrow> (\<exists>xs ys. sys_history s = xs @ p # ev_current e # ys) \<and> \<not> ptr_eq p (ev_current e)
        | None \<Rightarrow> (\<exists>ys. sys_history s = ev_current e # ys))"
proof -
  have "call_ok (sys_history s) c" using history_okD(5) [OF reachable_history [OF assms(1)] assms(2)] .
  then show ?thesis
    by (cases c) (auto simp: adjacent_def split: option.splits intro: list.exhaust_sel [THEN sym] exI [of _ "tl (sys_history s)"])
qed

section \<open>Failures\<close>

definition exchanges_ok :: "('v, 'h) sys \<Rightarrow> bool" where
  "exchanges_ok s \<longleftrightarrow> (\<forall>i e n. sys_phase s i = Fail_exchange e n \<longrightarrow> n < u32_max)"

lemma reachable_exchanges: "reachable s \<Longrightarrow> exchanges_ok s"
proof (induction rule: reachable.induct)
  case reachable_new
  show ?case by (simp add: exchanges_ok_def sys_new_def)
next
  case (reachable_step s t)
  from reachable_step(2,3) show ?case
    by (induction rule: step.induct) (auto simp: exchanges_ok_def)
qed

lemma u32_Suc: "n < u32_max \<Longrightarrow> unat (n + 1) = unat n + 1"
  by (simp add: word_less_nat_alt u32_max_def unat_word_ariths)

lemma cell_failures_simps [simp]:
  "cell_failures (init_slot a c) = cell_failures c" "cell_failures (fst (swap_slot a c)) = cell_failures c"
  "cell_failures (fst (publish_meta now c)) = cell_failures c" "cell_failures (publish_reason r c) = cell_failures c"
  "cell_failures (bump_notify c) = cell_failures c" "cell_failures (push_hook t cb c) = cell_failures c"
  "cell_failures (unregister_hook t c) = cell_failures c" "cell_failures (fst (take_token c)) = cell_failures c"
  "cell_failures (reset_failures c) = 0"
  by (simp_all add: cell_steps unregister_hook_def Let_def split: option.split)

lemma step_failures:
  "step s t \<Longrightarrow> cell_failures (sys_cell t) = cell_failures (sys_cell s) \<or>
     (\<exists>i e n. sys_phase s i = Fail_exchange e n \<and> cell_failures (sys_cell s) = n \<and> cell_failures (sys_cell t) = n + 1) \<or>
     (cell_failures (sys_cell t) = 0 \<and> (\<exists>i a r p m. sys_phase s i = Reset a r p m))"
proof (induction rule: step.induct)
  case (store_swap s i a r c p)
  then show ?case using cell_failures_simps(2) [of a "sys_cell s"] by simp
next
  case (store_publish s i a r p c m)
  then show ?case using cell_failures_simps(3) [of "sys_clock s" "sys_cell s"] by simp
next
  case (register_token s i c t cb)
  then show ?case using cell_failures_simps(8) [of "sys_cell s"] by simp
next
  case (store_reset s i a r p m)
  show ?case by (intro disjI2 conjI exI, simp, rule store_reset)
next
  case (fail_exchanged s i e n)
  then show ?case by auto
qed simp_all

text \<open>
  C20 (failure_streak_never_wraps): no interleaving makes the streak of failures wrap: a step leaves
  it, adds one below the maximum, or is the reset of a store that has already published its value
  and its generation.
\<close>

theorem failure_streak_never_wraps:
  assumes "reachable s" "step s t"
  shows "cell_failures (sys_cell t) = cell_failures (sys_cell s) \<or>
    unat (cell_failures (sys_cell t)) = unat (cell_failures (sys_cell s)) + 1 \<or>
    (cell_failures (sys_cell t) = 0 \<and> (\<exists>i a r p m. sys_phase s i = Reset a r p m \<and> a \<in> set (sys_history s)))"
proof -
  consider "cell_failures (sys_cell t) = cell_failures (sys_cell s)"
    | i e n where "sys_phase s i = Fail_exchange e n" "cell_failures (sys_cell s) = n" "cell_failures (sys_cell t) = n + 1"
    | i a r p m where "cell_failures (sys_cell t) = 0" "sys_phase s i = Reset a r p m"
    using step_failures [OF assms(2)] by blast
  then show ?thesis
  proof cases
    case 2
    then have "n < u32_max" using reachable_exchanges [OF assms(1)] unfolding exchanges_ok_def by blast
    with 2 u32_Suc show ?thesis by simp
  next
    case 3
    then have "handed (sys_history s) p a" using history_phase [OF reachable_history [OF assms(1)] 3(2)] by simp
    then obtain xs ys where "sys_history s = xs @ p # a # ys" unfolding handed_def adjacent_def by blast
    then have "a \<in> set (sys_history s)" by simp
    with 3 show ?thesis by blast
  qed simp
qed

section \<open>A store on its own\<close>

lemma run_calls:
  "sys_phase s i = Calling xs \<Longrightarrow>
   step\<^sup>*\<^sup>* s (s\<lparr>sys_phase := (sys_phase s)(i := Idle), sys_calls := sys_calls s @ xs\<rparr>)"
proof (induction xs arbitrary: s)
  case Nil
  have "s\<lparr>sys_phase := (sys_phase s)(i := Idle), sys_calls := sys_calls s @ []\<rparr> = goes s i Idle (sys_cell s)" by simp
  with step.store_end [OF Nil] show ?case by (metis r_into_rtranclp)
next
  case (Cons x xs)
  let ?t = "goes s i (Calling xs) (sys_cell s) \<lparr>sys_calls := sys_calls s @ [x]\<rparr>"
  have "step s ?t" by (rule step.store_call [OF Cons.prems])
  moreover have "step\<^sup>*\<^sup>* ?t (s\<lparr>sys_phase := (sys_phase s)(i := Idle), sys_calls := sys_calls s @ x # xs\<rparr>)"
  proof -
    have e: "?t\<lparr>sys_phase := (sys_phase ?t)(i := Idle), sys_calls := sys_calls ?t @ xs\<rparr> =
        s\<lparr>sys_phase := (sys_phase s)(i := Idle), sys_calls := sys_calls s @ x # xs\<rparr>"
      by (rule sys.equality) (auto simp: fun_eq_iff)
    show ?thesis using Cons.IH [of ?t] unfolding e by simp
  qed
  ultimately show ?case by (rule converse_rtranclp_into_rtranclp)
qed

lemma store_run:
  assumes "sys_phase s i = Idle"
  shows "\<exists>t. step\<^sup>*\<^sup>* s t \<and> sys_phase t = sys_phase s \<and>
    sys_cell t = fst (store_with (\<lambda>_. False) (sys_clock s) (sys_next s, v) r (sys_cell s)) \<and>
    sys_calls t = sys_calls s @ fst (snd (snd (store_with (\<lambda>_. False) (sys_clock s) (sys_next s, v) r (sys_cell s))))"
proof -
  let ?a = "(sys_next s, v)" and ?c = "sys_cell s"
  define s1 where "s1 = goes s i (Initialise ?a r) ?c \<lparr>sys_next := sys_next s + 1\<rparr>"
  define s2 where "s2 = goes s1 i (Swap ?a r) (init_slot ?a ?c)
    \<lparr>sys_history := (if cell_inner (sys_cell s1) = None then sys_history s1 @ [?a] else sys_history s1)\<rparr>"
  obtain c3 p where c3: "swap_slot ?a (init_slot ?a ?c) = (c3, p)" by (cases "swap_slot ?a (init_slot ?a ?c)")
  define s3 where "s3 = goes s2 i (Publish ?a r p) c3 \<lparr>sys_history := sys_history s2 @ [?a], sys_swaps := sys_swaps s2 + 1\<rparr>"
  obtain c4 m where c4: "publish_meta (sys_clock s) c3 = (c4, m)" by (cases "publish_meta (sys_clock s) c3")
  define s4 where "s4 = goes s3 i (Reason ?a r p m) c4 \<lparr>sys_metas := sys_metas s3 @ [m]\<rparr>"
  define s5 where "s5 = goes s4 i (Reset ?a r p m) (publish_reason r c4)"
  define s6 where "s6 = goes s5 i (Bump ?a r p m) (reset_failures (publish_reason r c4))"
  define s7 where "s7 = goes s6 i (Hooks ?a r p m) (bump_notify (reset_failures (publish_reason r c4)))"
  define calls where "calls = fst (cell_dispatch (\<lambda>_. False) (previous_of p ?a) ?a r m (sys_cell s7))"
  define s8 where "s8 = goes s7 i (Calling calls) (sys_cell s7)"
  define s9 where "s9 = s8\<lparr>sys_phase := (sys_phase s8)(i := Idle), sys_calls := sys_calls s8 @ calls\<rparr>"
  have "step s s1" unfolding s1_def using assms by (rule step.store_begin)
  moreover have "step s1 s2"
    using step.store_initialise [of s1 i ?a r] by (simp add: s2_def s1_def)
  moreover have "step s2 s3" unfolding s3_def
    by (rule step.store_swap) (simp_all add: s2_def s1_def c3)
  moreover have "step s3 s4" unfolding s4_def
    by (rule step.store_publish) (simp_all add: s3_def s2_def s1_def c4)
  moreover have "step s4 s5"
    using step.store_reason [of s4 i ?a r p m] by (simp add: s5_def s4_def)
  moreover have "step s5 s6"
    using step.store_reset [of s5 i ?a r p m] by (simp add: s6_def s5_def)
  moreover have "step s6 s7"
    using step.store_bump [of s6 i ?a r p m] by (simp add: s7_def s6_def)
  moreover have "step s7 s8"
    using step.store_hooks [of s7 i ?a r p m] by (simp add: s8_def s7_def calls_def)
  moreover have "step\<^sup>*\<^sup>* s8 s9" unfolding s9_def by (rule run_calls) (simp add: s8_def)
  ultimately have "step\<^sup>*\<^sup>* s s9" by (meson converse_rtranclp_into_rtranclp)
  moreover have "store_with (\<lambda>_. False) (sys_clock s) ?a r ?c =
      (sys_cell s7, ?a, cell_dispatch (\<lambda>_. False) (previous_of p ?a) ?a r m (sys_cell s7))"
    by (simp add: store_with_def c3 c4 s7_def previous_of_def Let_def)
  moreover have "sys_phase s9 = sys_phase s" "sys_cell s9 = sys_cell s7" "sys_calls s9 = sys_calls s @ calls"
    using assms by (auto simp: s9_def s8_def s7_def s6_def s5_def s4_def s3_def s2_def s1_def fun_eq_iff)
  ultimately show ?thesis by (intro exI [of _ s9]) (simp add: calls_def)
qed



section \<open>The properties on a run\<close>

lemma reachable_run: "step\<^sup>*\<^sup>* s t \<Longrightarrow> reachable s \<Longrightarrow> reachable t"
  by (induction rule: rtranclp_induct) (auto intro: reachable_step)

text \<open>A cell with one event callback, after its first store.\<close>

lemma one_store:
  "\<exists>t. reachable t \<and> sys_phase t = (\<lambda>_. Idle) \<and> cell_load (sys_cell t) = Some (0, 7 :: nat) \<and>
     sys_calls t = [Event_call (5 :: nat) \<lparr>ev_previous = None, ev_current = (0, 7), ev_reason = Initial,
       ev_meta = \<lparr>meta_generation = 1, meta_loaded_at = 0\<rparr>\<rparr>]"
proof -
  let ?s0 = "sys_new :: (nat, nat) sys"
  define s1 where "s1 = goes ?s0 0 (Push_hook 0 (Event_hook 5)) (fst (take_token (sys_cell ?s0)))"
  define s2 where "s2 = goes s1 0 Idle (push_hook 0 (Event_hook 5) (sys_cell s1))"
  have "step ?s0 s1" unfolding s1_def
    by (rule step.register_token) (simp_all add: sys_new_def take_token_def cell_new_def)
  moreover have "step s1 s2" unfolding s2_def by (rule step.register_push) (simp add: s1_def)
  ultimately have r: "reachable s2" by (blast intro: reachable_new reachable_step)
  have s2: "sys_phase s2 = (\<lambda>_. Idle)" "sys_clock s2 = 0" "sys_next s2 = 0" "sys_calls s2 = []"
    "cell_inner (sys_cell s2) = None" "cell_meta (sys_cell s2) = None"
    "cell_hooks (sys_cell s2) = Some [\<lparr>reg_token = 0, reg_callback = Event_hook 5\<rparr>]"
    by (auto simp: s2_def s1_def sys_new_def cell_new_def take_token_def push_hook_def)
  obtain t where t: "step\<^sup>*\<^sup>* s2 t" "sys_phase t = sys_phase s2"
    "sys_cell t = fst (store_with (\<lambda>_. False) (sys_clock s2) (sys_next s2, 7) Initial (sys_cell s2))"
    "sys_calls t = sys_calls s2 @ fst (snd (snd (store_with (\<lambda>_. False) (sys_clock s2) (sys_next s2, 7) Initial (sys_cell s2))))"
    using store_run [of s2 0 7 Initial] s2(1) by auto
  have "cell_load (sys_cell t) = Some (0, 7)"
    unfolding t(3) by (simp add: s2 store_with_def cell_steps cell_load_def Let_def)
  moreover have "sys_calls t = [Event_call 5 \<lparr>ev_previous = None, ev_current = (0, 7), ev_reason = Initial,
       ev_meta = \<lparr>meta_generation = 1, meta_loaded_at = 0\<rparr>\<rparr>]"
    unfolding t(4) by (simp add: s2 store_with_def cell_steps cell_dispatch_calls hooks_of_def ptr_eq_def Let_def map_filter_simps)
  ultimately show ?thesis using reachable_run [OF t(1) r] t(2) s2(1) by auto
qed

theorem generation_counts_installs_witness:
  "\<exists>t :: (nat, nat) sys. reachable t \<and> cell_load (sys_cell t) \<noteq> None \<and>
     cell_generation (sys_cell t) = of_nat (sys_swaps t)"
proof -
  obtain t :: "(nat, nat) sys" where t: "reachable t" "sys_phase t = (\<lambda>_. Idle)" "cell_load (sys_cell t) = Some (0, 7)"
    using one_store by blast
  with generation_counts_installs [OF t(1)] show ?thesis by (auto simp: in_flight_def)
qed

theorem callbacks_see_consistent_pairs_witness:
  "\<exists>t :: (nat, nat) sys. reachable t \<and> sys_calls t \<noteq> [] \<and> (\<exists>ys. sys_history t = (0, 7) # ys)"
proof -
  obtain t :: "(nat, nat) sys" where t: "reachable t" "sys_calls t = [Event_call 5 \<lparr>ev_previous = None,
      ev_current = (0, 7), ev_reason = Initial, ev_meta = \<lparr>meta_generation = 1, meta_loaded_at = 0\<rparr>\<rparr>]"
    using one_store by blast
  with callbacks_see_consistent_pairs [OF t(1), of "hd (sys_calls t)"] show ?thesis by auto
qed

theorem failure_streak_never_wraps_witness:
  "cell_failures (sys_cell (goes (sys_new :: (nat, nat) sys) 0 (Fail_load (error_new KIo [])) (sys_cell sys_new))) = 0"
proof -
  have "step (sys_new :: (nat, nat) sys) (goes sys_new 0 (Fail_load (error_new KIo [])) (sys_cell sys_new))"
    by (rule step.fail_begin) (simp add: sys_new_def)
  from failure_streak_never_wraps [OF reachable_new this] show ?thesis by (simp add: sys_new_def cell_new_def)
qed

end
