(* ===== verification/Waiting.thy ===== *)
theory Waiting imports Errors "HOL-Library.Word" begin

text \<open>
  \<open>dynamic-config/src/asynchronous.rs\<close>: waiting for a reload, and for work handed to another thread,
  without naming a runtime.

  \<open>Notify\<close> is a counter and a list of wakers. A task polls by check, register, check again; a
  reload bumps the counter, then takes the list under its lock, then wakes what it took outside it.
  Tasks and reloads interleave one atomic operation at a time. A waker is named by its task, so
  \<open>will_wake\<close> is equality; waking a task is recorded until the executor polls it again, which it
  may also do unasked.
\<close>

section \<open>The counter and the wakers\<close>

datatype task_phase = Resting | Check_first | Registering | Check_again | Pending

datatype bump_phase = Quiet | Taking | Waking "nat list"

record notify =
  nt_generation :: "64 word"
  nt_waiting :: "nat list"
  nt_value :: bool
  nt_seen :: "nat \<Rightarrow> 64 word"
  nt_task :: "nat \<Rightarrow> task_phase"
  nt_bump :: "nat \<Rightarrow> bump_phase"
  nt_woken :: "nat set"
  nt_ready :: "nat list"

definition notify_new :: notify where
  "notify_new = \<lparr>nt_generation = 0, nt_waiting = [], nt_value = False, nt_seen = \<lambda>_. 0,
     nt_task = \<lambda>_. Resting, nt_bump = \<lambda>_. Quiet, nt_woken = {}, nt_ready = []\<rparr>"

definition notify_register :: "nat \<Rightarrow> nat list \<Rightarrow> nat list" where
  "notify_register t waiting = (if t \<in> set waiting then waiting else waiting @ [t])"

text \<open>
  One attempt of \<open>poll_with\<close>: the counter against what the task has seen. \<open>Some\<close> is the new
  \<open>seen\<close> with whether the load produced a value.
\<close>

definition attempt :: "notify \<Rightarrow> nat \<Rightarrow> (64 word \<times> bool) option" where
  "attempt n t = (if nt_generation n = nt_seen n t then None else Some (nt_generation n, nt_value n))"

definition after_attempt :: "notify \<Rightarrow> nat \<Rightarrow> task_phase \<Rightarrow> notify" where
  "after_attempt n t otherwise =
     (case attempt n t of
        None \<Rightarrow> n\<lparr>nt_task := (nt_task n)(t := otherwise)\<rparr>
      | Some (g, loaded) \<Rightarrow>
          if loaded then n\<lparr>nt_seen := (nt_seen n)(t := g), nt_task := (nt_task n)(t := Resting), nt_ready := nt_ready n @ [t]\<rparr>
          else n\<lparr>nt_seen := (nt_seen n)(t := g), nt_task := (nt_task n)(t := otherwise)\<rparr>)"

inductive nstep :: "notify \<Rightarrow> notify \<Rightarrow> bool" where
  subscribe: "nt_task n t = Resting \<Longrightarrow> nstep n (n\<lparr>nt_seen := (nt_seen n)(t := nt_generation n)\<rparr>)"
| poll: "nt_task n t = Resting \<or> nt_task n t = Pending \<Longrightarrow>
    nstep n (n\<lparr>nt_task := (nt_task n)(t := Check_first), nt_woken := nt_woken n - {t}\<rparr>)"
| check_first: "nt_task n t = Check_first \<Longrightarrow> nstep n (after_attempt n t Registering)"
| register: "nt_task n t = Registering \<Longrightarrow>
    nstep n (n\<lparr>nt_task := (nt_task n)(t := Check_again), nt_waiting := notify_register t (nt_waiting n)\<rparr>)"
| check_again: "nt_task n t = Check_again \<Longrightarrow> nstep n (after_attempt n t Pending)"
| install: "nstep n (n\<lparr>nt_value := True\<rparr>)"
| bump_count: "nt_bump n b = Quiet \<Longrightarrow> nt_value n \<Longrightarrow>
    nstep n (n\<lparr>nt_generation := nt_generation n + 1, nt_bump := (nt_bump n)(b := Taking)\<rparr>)"
| bump_take: "nt_bump n b = Taking \<Longrightarrow>
    nstep n (n\<lparr>nt_bump := (nt_bump n)(b := Waking (nt_waiting n)), nt_waiting := []\<rparr>)"
| bump_wake: "nt_bump n b = Waking (t # ts) \<Longrightarrow>
    nstep n (n\<lparr>nt_bump := (nt_bump n)(b := Waking ts), nt_woken := insert t (nt_woken n)\<rparr>)"
| bump_end: "nt_bump n b = Waking [] \<Longrightarrow> nstep n (n\<lparr>nt_bump := (nt_bump n)(b := Quiet)\<rparr>)"

inductive nreachable :: "notify \<Rightarrow> bool" where
  nreachable_new: "nreachable notify_new"
| nreachable_step: "nreachable n \<Longrightarrow> nstep n m \<Longrightarrow> nreachable m"

section \<open>No wake-up is lost\<close>

definition on_the_way :: "notify \<Rightarrow> nat \<Rightarrow> bool" where
  "on_the_way n t \<longleftrightarrow> t \<in> nt_woken n \<or> (\<exists>b ts. nt_bump n b = Waking ts \<and> t \<in> set ts)"

definition notify_ok :: "notify \<Rightarrow> bool" where
  "notify_ok n \<longleftrightarrow>
     (\<not> nt_value n \<longrightarrow> nt_generation n = 0 \<and> (\<forall>t. nt_seen n t = 0)) \<and>
     (\<forall>t. nt_task n t = Check_again \<or> nt_task n t = Pending \<longrightarrow> t \<in> set (nt_waiting n) \<or> on_the_way n t) \<and>
     (\<forall>t. nt_task n t = Pending \<longrightarrow> nt_generation n \<noteq> nt_seen n t \<longrightarrow> t \<in> set (nt_waiting n) \<longrightarrow>
        (\<exists>b. nt_bump n b = Taking))"

lemma on_the_way_frame:
  "nt_woken m = nt_woken n \<Longrightarrow> nt_bump m = nt_bump n \<Longrightarrow> on_the_way m t = on_the_way n t"
  by (simp add: on_the_way_def)

lemma on_the_way_upd:
  assumes "on_the_way n u" "nt_woken n \<subseteq> nt_woken m" "nt_bump m = (nt_bump n)(b := p)"
    "\<And>ts. nt_bump n b = Waking ts \<Longrightarrow> u \<in> set ts \<Longrightarrow> on_the_way m u"
  shows "on_the_way m u"
proof (cases "u \<in> nt_woken n")
  case False
  with assms(1) obtain b' ts where b': "nt_bump n b' = Waking ts" "u \<in> set ts" by (auto simp: on_the_way_def)
  show ?thesis
  proof (cases "b' = b")
    case False
    with b' assms(3) have "nt_bump m b' = Waking ts" by simp
    with b'(2) show ?thesis unfolding on_the_way_def by blast
  qed (use b' assms(4) in blast)
qed (use assms(2) in \<open>auto simp: on_the_way_def\<close>)

lemma notify_ok_bump:
  assumes "notify_ok n" "nt_bump n b \<noteq> Taking" "nt_value m = nt_value n" "nt_generation m = nt_generation n"
    "nt_seen m = nt_seen n" "nt_task m = nt_task n" "nt_waiting m = nt_waiting n" "nt_bump m = (nt_bump n)(b := p)"
    "\<And>u. on_the_way n u \<Longrightarrow> on_the_way m u"
  shows "notify_ok m"
proof -
  have "\<exists>b'. nt_bump m b' = Taking" if "nt_bump n b' = Taking" for b'
    using that assms(2,8) by (intro exI [of _ b']) auto
  then show ?thesis using assms(1,9) unfolding notify_ok_def assms(3-7) by blast
qed

lemma attempt_frame:
  "nt_woken (after_attempt n t p) = nt_woken n" "nt_bump (after_attempt n t p) = nt_bump n"
  "nt_waiting (after_attempt n t p) = nt_waiting n" "nt_generation (after_attempt n t p) = nt_generation n"
  "nt_value (after_attempt n t p) = nt_value n"
  by (auto simp: after_attempt_def split: option.split)

text \<open>With a value installed before every bump, an attempt either delivers or has seen the counter.\<close>

lemma after_attempt_cases:
  assumes "notify_ok n"
  shows "(nt_generation n = nt_seen n t \<and> after_attempt n t p = n\<lparr>nt_task := (nt_task n)(t := p)\<rparr>) \<or>
    (nt_generation n \<noteq> nt_seen n t \<and> nt_value n \<and> after_attempt n t p =
       n\<lparr>nt_seen := (nt_seen n)(t := nt_generation n), nt_task := (nt_task n)(t := Resting), nt_ready := nt_ready n @ [t]\<rparr>)"
  using assms by (auto simp: after_attempt_def attempt_def notify_ok_def)

lemma nstep_ok: "nstep n m \<Longrightarrow> notify_ok n \<Longrightarrow> notify_ok m"
proof (induction rule: nstep.induct)
  case (check_first n t)
  from after_attempt_cases [OF check_first(2), of t Registering] show ?case
  proof (elim disjE conjE)
    assume a: "after_attempt n t Registering = n\<lparr>nt_task := (nt_task n)(t := Registering)\<rparr>"
    show ?thesis using check_first unfolding a by (simp add: notify_ok_def on_the_way_def)
  next
    assume a: "nt_value n" "after_attempt n t Registering =
       n\<lparr>nt_seen := (nt_seen n)(t := nt_generation n), nt_task := (nt_task n)(t := Resting), nt_ready := nt_ready n @ [t]\<rparr>"
    show ?thesis using check_first a(1) unfolding a(2) by (simp add: notify_ok_def on_the_way_def)
  qed
next
  case (check_again n t)
  from after_attempt_cases [OF check_again(2), of t Pending] show ?case
  proof (elim disjE conjE)
    assume a: "nt_generation n = nt_seen n t" "after_attempt n t Pending = n\<lparr>nt_task := (nt_task n)(t := Pending)\<rparr>"
    show ?thesis using check_again a(1) unfolding a(2) by (simp add: notify_ok_def on_the_way_def)
  next
    assume a: "nt_value n" "after_attempt n t Pending =
       n\<lparr>nt_seen := (nt_seen n)(t := nt_generation n), nt_task := (nt_task n)(t := Resting), nt_ready := nt_ready n @ [t]\<rparr>"
    show ?thesis using check_again a(1) unfolding a(2) by (simp add: notify_ok_def on_the_way_def)
  qed
next
  case (register n t)
  then show ?case by (auto simp: notify_ok_def notify_register_def on_the_way_def)
next
  case (poll n t)
  then show ?case by (auto simp: notify_ok_def on_the_way_def)
next
  case (bump_take n b)
  then have "on_the_way (n\<lparr>nt_bump := (nt_bump n)(b := Waking (nt_waiting n)), nt_waiting := []\<rparr>) t"
    if "t \<in> set (nt_waiting n) \<or> on_the_way n t" for t
  proof (cases "t \<in> set (nt_waiting n)")
    case False
    with that have "on_the_way n t" by simp
    then show ?thesis by (rule on_the_way_upd) (use bump_take(1) in auto)
  qed (auto simp: on_the_way_def)
  with bump_take show ?case by (auto simp: notify_ok_def)
next
  case (bump_wake n b t ts)
  have "on_the_way (n\<lparr>nt_bump := (nt_bump n)(b := Waking ts), nt_woken := insert t (nt_woken n)\<rparr>) u"
    if "on_the_way n u" for u
    by (rule on_the_way_upd [OF that]) (use bump_wake(1) in \<open>auto simp: on_the_way_def\<close>)
  with bump_wake show ?case by (intro notify_ok_bump [OF bump_wake(2), of b _ "Waking ts"]) auto
next
  case (bump_end n b)
  have "on_the_way (n\<lparr>nt_bump := (nt_bump n)(b := Quiet)\<rparr>) u" if "on_the_way n u" for u
    by (rule on_the_way_upd [OF that]) (use bump_end(1) in auto)
  with bump_end show ?case by (intro notify_ok_bump [OF bump_end(2), of b _ Quiet]) auto
next
  case (bump_count n b)
  have "on_the_way (n\<lparr>nt_generation := nt_generation n + 1, nt_bump := (nt_bump n)(b := Taking)\<rparr>) u" if "on_the_way n u" for u
    by (rule on_the_way_upd [OF that]) (use bump_count(1) in auto)
  with bump_count show ?case by (auto simp: notify_ok_def)
qed (auto simp: notify_ok_def on_the_way_def)

lemma nreachable_ok: "nreachable n \<Longrightarrow> notify_ok n"
proof (induction rule: nreachable.induct)
  case nreachable_new
  show ?case by (simp add: notify_ok_def notify_new_def)
qed (rule nstep_ok)

text \<open>
  C5 (no_lost_wakeup): a task that went to sleep is never left behind by a reload: whenever the
  counter has moved past what a pending task has seen, the task has been woken, or a reload has
  taken its waker and has yet to call it, or its waker is still listed and a reload has counted and
  has yet to take the list. So once no reload is under way, it has been woken.
\<close>

theorem no_lost_wakeup:
  assumes "nreachable n" "nt_task n t = Pending" "nt_generation n \<noteq> nt_seen n t"
  shows "(t \<in> nt_woken n \<or> (\<exists>b ts. nt_bump n b = Waking ts \<and> t \<in> set ts) \<or>
      (t \<in> set (nt_waiting n) \<and> (\<exists>b. nt_bump n b = Taking))) \<and>
    ((\<forall>b. nt_bump n b = Quiet) \<longrightarrow> t \<in> nt_woken n)"
  using nreachable_ok [OF assms(1)] assms(2,3) unfolding notify_ok_def on_the_way_def
  by (metis bump_phase.distinct(1,3))

text \<open>Task 0 polls an empty cell and goes to sleep; then a value is installed and counted.\<close>

theorem no_lost_wakeup_witness:
  "\<exists>n. nreachable n \<and> nt_task n 0 = Pending \<and> nt_generation n = 1 \<and>
     (0 \<in> nt_woken n \<or> (\<exists>b. nt_bump n b \<noteq> Quiet))"
proof -
  define n1 where "n1 = notify_new\<lparr>nt_task := (nt_task notify_new)(0 := Check_first), nt_woken := nt_woken notify_new - {0}\<rparr>"
  define n2 where "n2 = after_attempt n1 0 Registering"
  define n3 where "n3 = n2\<lparr>nt_task := (nt_task n2)(0 := Check_again), nt_waiting := notify_register 0 (nt_waiting n2)\<rparr>"
  define n4 where "n4 = after_attempt n3 0 Pending"
  define n5 where "n5 = n4\<lparr>nt_value := True\<rparr>"
  define n6 where "n6 = n5\<lparr>nt_generation := nt_generation n5 + 1, nt_bump := (nt_bump n5)(0 := Taking)\<rparr>"
  note defs = n1_def n2_def n3_def n4_def n5_def n6_def notify_new_def after_attempt_def attempt_def
  have st_n1: "nstep notify_new n1" unfolding n1_def by (rule nstep.poll) (simp add: notify_new_def)
  have st_n2: "nstep n1 n2" unfolding n2_def by (rule nstep.check_first) (simp add: n1_def)
  have st_n3: "nstep n2 n3" unfolding n3_def by (rule nstep.register) (simp add: defs)
  have st_n4: "nstep n3 n4" unfolding n4_def by (rule nstep.check_again) (simp add: n3_def)
  have st_n5: "nstep n4 n5" unfolding n5_def by (rule nstep.install)
  have st_n6: "nstep n5 n6" unfolding n6_def by (rule nstep.bump_count) (simp_all add: defs)
  note r = nreachable_new [THEN nreachable_step, OF st_n1, THEN nreachable_step, OF st_n2, THEN nreachable_step, OF st_n3,
    THEN nreachable_step, OF st_n4, THEN nreachable_step, OF st_n5, THEN nreachable_step, OF st_n6]
  have n6: "nt_task n6 0 = Pending" "nt_generation n6 = 1" "nt_seen n6 0 = 0" by (simp_all add: defs)
  from no_lost_wakeup [OF r n6(1)] n6 r show ?thesis by (intro exI [of _ n6]) (auto)
qed

section \<open>Work on another thread\<close>

text \<open>
  \<open>off_thread\<close>: a slot for one outcome, filled by the work when it ends or, when the closure
  panics or is dropped without running, by the guard it captured. The waiter takes, leaves its
  waker, and takes again.
\<close>

datatype 'r job = Finishes "(error, 'r) result" | Panics | Is_dropped

definition job_outcome :: "'r job \<Rightarrow> (error, 'r) result" where
  "job_outcome j = (case j of
       Finishes r \<Rightarrow> r
     | _ \<Rightarrow> Inl (error_new KBackend ''the configuration load did not finish; the task panicked or was cancelled''))"

datatype fill_phase = Working | Value_stored | Filled

datatype 'r wait_phase = Wait_start | Wait_register | Wait_again | Wait_pending | Wait_ready "(error, 'r) result"

record 'r slot =
  slot_value :: "(error, 'r) result option"
  slot_waker :: bool
  slot_fill :: fill_phase
  slot_wait :: "'r wait_phase"
  slot_woken :: bool

definition slot_new :: "'r slot" where
  "slot_new = \<lparr>slot_value = None, slot_waker = False, slot_fill = Working, slot_wait = Wait_start, slot_woken = False\<rparr>"

definition slot_take :: "'r slot \<Rightarrow> 'r wait_phase \<Rightarrow> 'r slot" where
  "slot_take s otherwise = (case slot_value s of
       Some r \<Rightarrow> s\<lparr>slot_value := None, slot_wait := Wait_ready r\<rparr>
     | None \<Rightarrow> s\<lparr>slot_wait := otherwise\<rparr>)"

inductive sstep :: "'r job \<Rightarrow> 'r slot \<Rightarrow> 'r slot \<Rightarrow> bool" for j where
  fill_value: "slot_fill s = Working \<Longrightarrow> sstep j s (s\<lparr>slot_value := Some (job_outcome j), slot_fill := Value_stored\<rparr>)"
| fill_wake: "slot_fill s = Value_stored \<Longrightarrow>
    sstep j s (s\<lparr>slot_fill := Filled, slot_woken := slot_woken s \<or> slot_waker s, slot_waker := False\<rparr>)"
| wait_take: "slot_wait s = Wait_start \<or> slot_wait s = Wait_pending \<Longrightarrow>
    sstep j s (slot_take (s\<lparr>slot_woken := False\<rparr>) Wait_register)"
| wait_register: "slot_wait s = Wait_register \<Longrightarrow> sstep j s (s\<lparr>slot_waker := True, slot_wait := Wait_again\<rparr>)"
| wait_again: "slot_wait s = Wait_again \<Longrightarrow> sstep j s (slot_take s Wait_pending)"

inductive sreachable :: "'r job \<Rightarrow> 'r slot \<Rightarrow> bool" for j where
  sreachable_new: "sreachable j slot_new"
| sreachable_step: "sreachable j s \<Longrightarrow> sstep j s t \<Longrightarrow> sreachable j t"

definition slot_ok :: "'r job \<Rightarrow> 'r slot \<Rightarrow> bool" where
  "slot_ok j s \<longleftrightarrow> (slot_fill s = Working \<longrightarrow> slot_value s = None \<and> (\<forall>r. slot_wait s \<noteq> Wait_ready r)) \<and>
     (\<forall>r. slot_value s = Some r \<longrightarrow> r = job_outcome j) \<and> (\<forall>r. slot_wait s = Wait_ready r \<longrightarrow> r = job_outcome j) \<and>
     (slot_fill s \<noteq> Working \<longrightarrow> slot_value s = None \<longrightarrow> (\<exists>r. slot_wait s = Wait_ready r)) \<and>
     (slot_wait s = Wait_again \<or> slot_wait s = Wait_pending \<longrightarrow> slot_fill s \<noteq> Filled \<longrightarrow> slot_waker s) \<and>
     (slot_wait s = Wait_pending \<longrightarrow> slot_fill s = Filled \<longrightarrow> slot_woken s)"

lemma sstep_ok: "sstep j s t \<Longrightarrow> slot_ok j s \<Longrightarrow> slot_ok j t"
  by (induction rule: sstep.induct) (auto simp: slot_ok_def slot_take_def split: option.split)

lemma sreachable_ok: "sreachable j s \<Longrightarrow> slot_ok j s"
proof (induction rule: sreachable.induct)
  case sreachable_new
  show ?case by (simp add: slot_ok_def slot_new_def)
qed (rule sstep_ok)



end
