(* ===== verification/Group.thy ===== *)
theory Group imports Errors begin

text \<open>
  \<open>dynamic-config/src/group.rs\<close>: several configuration types reloaded together or not at all. A
  member prepares against the current state (everything that can fail) and hands back its commit,
  which changes the state and may panic half way through its callbacks; the panic is caught and
  counted. The group's lock is what keeps two reloads apart, so the second part interleaves the
  steps of any number of threads.
\<close>

section \<open>One reload\<close>

type_synonym 's commit = "'s \<Rightarrow> 's \<times> bool"

record 's member =
  member_name :: string
  member_prepare :: "'s \<Rightarrow> (error, 's commit) result"

type_synonym 's group = "'s member list"

definition group_new :: "'s group" where
  "group_new = []"

definition group_with :: "'s member \<Rightarrow> 's group \<Rightarrow> 's group" where
  "group_with m g = g @ [m]"

definition group_members :: "'s group \<Rightarrow> string list" where
  "group_members g = map member_name g"

definition group_is_empty :: "'s group \<Rightarrow> bool" where
  "group_is_empty g \<longleftrightarrow> g = []"

fun prepare_all :: "'s \<Rightarrow> 's member list \<Rightarrow> (error, 's commit list) result" where
  "prepare_all s [] = Inr []"
| "prepare_all s (m # ms) =
     and_then (map_err (prepend_key (member_name m)) (member_prepare m s)) (\<lambda>c.
     and_then (prepare_all s ms) (\<lambda>cs. Inr (c # cs)))"

fun commit_all :: "'s commit list \<Rightarrow> 's \<times> nat \<Rightarrow> 's \<times> nat" where
  "commit_all [] (s, warnings) = (s, warnings)"
| "commit_all (c # cs) (s, warnings) =
     (case c s of (s', panicked) \<Rightarrow> commit_all cs (s', if panicked then warnings + 1 else warnings))"

text \<open>The state after the reload, its outcome, and the panics reported.\<close>

definition group_reload :: "'s group \<Rightarrow> 's \<Rightarrow> 's \<times> (error, unit) result \<times> nat" where
  "group_reload g s =
     (case prepare_all s g of
        Inl e \<Rightarrow> (s, Inl e, 0)
      | Inr cs \<Rightarrow> (case commit_all cs (s, 0) of (s', warnings) \<Rightarrow> (s', Inr (), warnings)))"

lemma prepare_all_ok_iff:
  "prepare_all s ms = Inr cs \<longleftrightarrow> list_all2 (\<lambda>m c. member_prepare m s = Inr c) ms cs"
proof (induction ms arbitrary: cs)
  case (Cons m ms)
  then show ?case
    by (cases "member_prepare m s"; cases cs) (auto simp: and_then_Inr_iff)
qed auto

lemma prepare_all_error:
  "prepare_all s ms = Inl e \<Longrightarrow>
     \<exists>before m rest e'. ms = before @ m # rest \<and> (\<forall>b \<in> set before. \<exists>c. member_prepare b s = Inr c) \<and>
        member_prepare m s = Inl e' \<and> e = prepend_key (member_name m) e'"
proof (induction ms)
  case (Cons m ms)
  show ?case
  proof (cases "member_prepare m s")
    case (Inl e')
    with Cons.prems show ?thesis by (intro exI [of _ "[]"] exI [of _ m] exI [of _ ms] exI [of _ e']) simp
  next
    case (Inr c)
    with Cons.prems have "prepare_all s ms = Inl e" by (cases "prepare_all s ms") simp_all
    from Cons.IH [OF this] obtain before m' rest e' where
      "ms = before @ m' # rest" "\<forall>b \<in> set before. \<exists>c. member_prepare b s = Inr c"
      "member_prepare m' s = Inl e'" "e = prepend_key (member_name m') e'" by blast
    with Inr show ?thesis by (intro exI [of _ "m # before"] exI [of _ m'] exI [of _ rest] exI [of _ e']) simp
  qed
qed simp

lemma commit_all_fold: "fst (commit_all cs (s, w)) = foldl (\<lambda>s c. fst (c s)) s cs"
proof (induction cs arbitrary: s w)
  case (Cons c cs)
  then show ?case by (cases "c s") simp
qed simp

text \<open>
  C9 (group_is_all_or_nothing): a group's reload fails exactly when some member cannot prepare, and
  then with the error of the first such member under its name, leaving the state untouched, even
  where members before it had prepared; otherwise every member's commit is applied once, in order,
  also those after one whose callback panicked.
\<close>

theorem group_is_all_or_nothing:
  "case group_reload g s of (s', outcome, warnings) \<Rightarrow>
     (case outcome of
        Inl e \<Rightarrow> s' = s \<and> warnings = 0 \<and>
          (\<exists>before m rest e'. g = before @ m # rest \<and> (\<forall>b \<in> set before. \<exists>c. member_prepare b s = Inr c) \<and>
             member_prepare m s = Inl e' \<and> e = prepend_key (member_name m) e')
      | Inr _ \<Rightarrow> (\<exists>cs. list_all2 (\<lambda>m c. member_prepare m s = Inr c) g cs \<and> s' = foldl (\<lambda>s c. fst (c s)) s cs))"
proof (cases "prepare_all s g")
  case (Inl e)
  then show ?thesis using prepare_all_error [OF Inl] by (simp add: group_reload_def)
next
  case (Inr cs)
  then show ?thesis using prepare_all_ok_iff [of s g cs] commit_all_fold [of cs s 0]
    by (auto simp: group_reload_def split: prod.split)
qed

theorem group_is_all_or_nothing_witness:
  "fst (group_reload [\<lparr>member_name = ''Server'', member_prepare = \<lambda>s. Inr (\<lambda>s. (s + 1, False))\<rparr>,
     \<lparr>member_name = ''Db'', member_prepare = \<lambda>s. Inl (error_new KMissing [])\<rparr>] (7 :: nat)) = 7"
  using group_is_all_or_nothing [where g = "[\<lparr>member_name = ''Server'', member_prepare = \<lambda>s. Inr (\<lambda>s. (s + 1, False))\<rparr>,
     \<lparr>member_name = ''Db'', member_prepare = \<lambda>s. Inl (error_new KMissing [])\<rparr>]" and s = "7 :: nat"]
  by (simp add: group_reload_def)

section \<open>Two reloads at once\<close>

datatype reload_phase = Outside | Preparing nat | Committing nat

record reloads =
  rl_lock :: "nat option"
  rl_phase :: "nat \<Rightarrow> reload_phase"
  rl_log :: "(nat \<times> nat) list"

definition reloads_new :: reloads where
  "reloads_new = \<lparr>rl_lock = None, rl_phase = \<lambda>_. Outside, rl_log = []\<rparr>"

text \<open>\<open>n\<close> is the number of members. A prepare may fail whenever it runs.\<close>

inductive rstep :: "nat \<Rightarrow> reloads \<Rightarrow> reloads \<Rightarrow> bool" for n where
  acquire: "rl_phase r t = Outside \<Longrightarrow> rl_lock r = None \<Longrightarrow>
    rstep n r (r\<lparr>rl_lock := Some t, rl_phase := (rl_phase r)(t := Preparing 0)\<rparr>)"
| prepared: "rl_phase r t = Preparing k \<Longrightarrow> k < n \<Longrightarrow>
    rstep n r (r\<lparr>rl_phase := (rl_phase r)(t := Preparing (k + 1))\<rparr>)"
| refused: "rl_phase r t = Preparing k \<Longrightarrow> k < n \<Longrightarrow>
    rstep n r (r\<lparr>rl_lock := None, rl_phase := (rl_phase r)(t := Outside)\<rparr>)"
| all_prepared: "rl_phase r t = Preparing n \<Longrightarrow>
    rstep n r (r\<lparr>rl_phase := (rl_phase r)(t := Committing 0)\<rparr>)"
| committed: "rl_phase r t = Committing k \<Longrightarrow> k < n \<Longrightarrow>
    rstep n r (r\<lparr>rl_phase := (rl_phase r)(t := Committing (k + 1)), rl_log := rl_log r @ [(t, k)]\<rparr>)"
| release: "rl_phase r t = Committing n \<Longrightarrow>
    rstep n r (r\<lparr>rl_lock := None, rl_phase := (rl_phase r)(t := Outside)\<rparr>)"

inductive rreachable :: "nat \<Rightarrow> reloads \<Rightarrow> bool" for n where
  rreachable_new: "rreachable n reloads_new"
| rreachable_step: "rreachable n r \<Longrightarrow> rstep n r q \<Longrightarrow> rreachable n q"

definition rounds :: "nat \<Rightarrow> nat list \<Rightarrow> (nat \<times> nat) list" where
  "rounds n ts = concat (map (\<lambda>t. map (Pair t) [0..<n]) ts)"

definition reloads_ok :: "nat \<Rightarrow> reloads \<Rightarrow> bool" where
  "reloads_ok n r \<longleftrightarrow> (\<forall>t. rl_phase r t \<noteq> Outside \<longrightarrow> rl_lock r = Some t) \<and>
     (\<exists>ts. rl_log r = rounds n ts @ (case rl_lock r of None \<Rightarrow> [] | Some t \<Rightarrow>
        (case rl_phase r t of Committing k \<Rightarrow> map (Pair t) [0..<k] | _ \<Rightarrow> []))) \<and>
     (\<forall>t k. rl_phase r t = Committing k \<longrightarrow> k \<le> n)"

lemma rounds_snoc: "rounds n (ts @ [t]) = rounds n ts @ map (Pair t) [0..<n]"
  by (simp add: rounds_def)

lemma rstep_ok: "rstep n r q \<Longrightarrow> reloads_ok n r \<Longrightarrow> reloads_ok n q"
proof (induction rule: rstep.induct)
  case (acquire r t)
  then show ?case by (auto simp: reloads_ok_def)
next
  case (prepared r t k)
  then have "rl_lock r = Some t" by (auto simp: reloads_ok_def)
  with prepared show ?case by (auto simp: reloads_ok_def)
next
  case (refused r t k)
  then have "rl_lock r = Some t" by (auto simp: reloads_ok_def)
  with refused show ?case by (auto simp: reloads_ok_def)
next
  case (all_prepared r t)
  then have "rl_lock r = Some t" by (auto simp: reloads_ok_def)
  with all_prepared show ?case by (auto simp: reloads_ok_def)
next
  case (committed r t k)
  then have "rl_lock r = Some t" by (auto simp: reloads_ok_def)
  with committed show ?case by (auto simp: reloads_ok_def)
next
  case (release r t)
  then have l: "rl_lock r = Some t" by (auto simp: reloads_ok_def)
  with release obtain ts where "rl_log r = rounds n ts @ map (Pair t) [0..<n]" by (auto simp: reloads_ok_def)
  then have "\<exists>ts. rl_log r = rounds n ts" by (metis rounds_snoc)
  with l release show ?case by (auto simp: reloads_ok_def)
qed

text \<open>
  C16 (group_reloads_never_mix): whatever the number of threads reloading a group at once, the commits that
  have been applied are whole rounds, each all members in order by one thread, followed by at most
  one unfinished round, of the thread that holds the lock: two reloads never leave one member on
  one thread's configuration and the next on another's.
\<close>

theorem group_reloads_never_mix:
  assumes "rreachable n r"
  shows "\<exists>ts. (rl_lock r = None \<longrightarrow> rl_log r = rounds n ts) \<and>
    (\<forall>t. rl_lock r = Some t \<longrightarrow> (\<exists>k \<le> n. rl_log r = rounds n ts @ map (Pair t) [0..<k]))"
proof -
  have "reloads_ok n r" using assms
  proof (induction rule: rreachable.induct)
    case rreachable_new
    have "[] = rounds n []" by (simp add: rounds_def)
    then show ?case by (auto simp: reloads_ok_def reloads_new_def)
  qed (rule rstep_ok)
  then obtain ts where ts: "rl_log r = rounds n ts @ (case rl_lock r of None \<Rightarrow> [] | Some t \<Rightarrow>
        (case rl_phase r t of Committing k \<Rightarrow> map (Pair t) [0..<k] | _ \<Rightarrow> []))"
    and le: "\<And>t k. rl_phase r t = Committing k \<Longrightarrow> k \<le> n"
    unfolding reloads_ok_def by blast
  have "\<exists>k \<le> n. rl_log r = rounds n ts @ map (Pair t) [0..<k]" if "rl_lock r = Some t" for t
  proof (cases "rl_phase r t")
    case (Committing k)
    with ts le that show ?thesis by (intro exI [of _ k]) simp
  qed (use ts that in \<open>auto intro!: exI [of _ 0]\<close>)
  with ts show ?thesis by (intro exI [of _ ts]) simp
qed

theorem group_reloads_never_mix_witness:
  "\<exists>r. rreachable 1 r \<and> (\<exists>ts. rl_log r = rounds 1 ts) \<and> rl_log r = [(5, 0)]"
proof -
  define r1 where "r1 = reloads_new\<lparr>rl_lock := Some 5, rl_phase := (rl_phase reloads_new)(5 := Preparing 0)\<rparr>"
  define r2 where "r2 = r1\<lparr>rl_phase := (rl_phase r1)(5 := Preparing (0 + 1))\<rparr>"
  define r3 where "r3 = r2\<lparr>rl_phase := (rl_phase r2)(5 := Committing 0)\<rparr>"
  define r4 where "r4 = r3\<lparr>rl_phase := (rl_phase r3)(5 := Committing (0 + 1)), rl_log := rl_log r3 @ [(5, 0)]\<rparr>"
  define r5 where "r5 = r4\<lparr>rl_lock := None, rl_phase := (rl_phase r4)(5 := Outside)\<rparr>"
  note defs = r1_def r2_def r3_def r4_def r5_def reloads_new_def
  have s1: "rstep 1 reloads_new r1" unfolding r1_def by (rule rstep.acquire) (simp_all add: reloads_new_def)
  have s2: "rstep 1 r1 r2" unfolding r2_def by (rule rstep.prepared) (simp_all add: r1_def)
  have s3: "rstep 1 r2 r3" unfolding r3_def by (rule rstep.all_prepared) (simp add: r2_def)
  have s4: "rstep 1 r3 r4" unfolding r4_def by (rule rstep.committed) (simp_all add: r3_def)
  have s5: "rstep 1 r4 r5" unfolding r5_def by (rule rstep.release) (simp add: r4_def)
  note r = rreachable_new [THEN rreachable_step, OF s1, THEN rreachable_step, OF s2, THEN rreachable_step, OF s3,
    THEN rreachable_step, OF s4, THEN rreachable_step, OF s5]
  have "rl_lock r5 = None" "rl_log r5 = [(5, 0)]" by (simp_all add: defs)
  with group_reloads_never_mix [OF r] r show ?thesis by (intro exI [of _ r5]) auto
qed

end
