(* ===== verification/Units.thy ===== *)
theory Units imports Prelude "HOL-Library.Word" begin

text \<open>
  \<open>dynamic-config/src/units.rs\<close>: the serde adapters for durations and byte sizes.

  A \<open>u64\<close> is a \<open>64 word\<close> and a \<open>Duration\<close> is its seconds and its nanoseconds below
  \<open>10 ^ 9\<close>; the checked operations of the standard library are written out over \<open>unat\<close>. What
  serde hands a visitor is a \<open>serde_input\<close>.
\<close>

section \<open>Checked arithmetic\<close>

type_synonym u64 = "64 word"

definition u64_max :: nat where
  "u64_max = 2 ^ 64 - 1"

definition u64_of :: "nat \<Rightarrow> u64 option" where
  "u64_of n = (if n \<le> u64_max then Some (of_nat n) else None)"

definition u64_checked_mul :: "u64 \<Rightarrow> u64 \<Rightarrow> u64 option" where
  "u64_checked_mul a b = u64_of (unat a * unat b)"

definition u64_checked_add :: "u64 \<Rightarrow> u64 \<Rightarrow> u64 option" where
  "u64_checked_add a b = u64_of (unat a + unat b)"

lemma u64_of_Some: "u64_of n = Some w \<longleftrightarrow> unat w = n"
proof -
  have "n < 2 ^ 64 \<Longrightarrow> unat (of_nat n :: u64) = n" by (simp add: unsigned_of_nat take_bit_nat_eq_self)
  moreover have "unat w < 2 ^ 64" using unsigned_less [of w, where ?'a = nat] by simp
  ultimately show ?thesis by (auto simp: u64_of_def u64_max_def)
qed

lemma u64_of_None: "u64_of n = None \<longleftrightarrow> u64_max < n"
  by (auto simp: u64_of_def)

lemma unat_le_max: "unat (w :: u64) \<le> u64_max"
  using unsigned_less [of w, where ?'a = nat] by (simp add: u64_max_def)

section \<open>A number and its unit\<close>

definition split_unit :: "string \<Rightarrow> (string, u64 \<times> string) result" where
  "split_unit s =
     (let text = trim s;
          number = takeWhile is_digit text;
          rest = dropWhile is_digit text
      in if number = [] then Inl ''expected a number first, as in `30s`''
         else and_then (ok_or ''the number is too large for a 64-bit count'' (u64_of (digits_val number)))
           (\<lambda>v. Inr (v, trim rest)))"

section \<open>Durations\<close>

record duration =
  dur_secs :: u64
  dur_nanos :: nat

definition duration_ok :: "duration \<Rightarrow> bool" where
  "duration_ok d \<longleftrightarrow> dur_nanos d < 10 ^ 9"

definition from_secs :: "u64 \<Rightarrow> duration" where
  "from_secs s = \<lparr>dur_secs = s, dur_nanos = 0\<rparr>"

definition from_millis :: "u64 \<Rightarrow> duration" where
  "from_millis ms = \<lparr>dur_secs = of_nat (unat ms div 1000), dur_nanos = (unat ms mod 1000) * 10 ^ 6\<rparr>"

definition total_nanos :: "duration \<Rightarrow> nat" where
  "total_nanos d = unat (dur_secs d) * 10 ^ 9 + dur_nanos d"

definition as_millis :: "duration \<Rightarrow> nat" where
  "as_millis d = unat (dur_secs d) * 1000 + dur_nanos d div 10 ^ 6"

definition duration_checked_add :: "duration \<Rightarrow> duration \<Rightarrow> duration option" where
  "duration_checked_add a b =
     (let nanos = dur_nanos a + dur_nanos b in
      case u64_checked_add (dur_secs a) (dur_secs b) of
        None \<Rightarrow> None
      | Some secs \<Rightarrow>
          if nanos \<ge> 10 ^ 9
          then map_option (\<lambda>s. \<lparr>dur_secs = s, dur_nanos = nanos - 10 ^ 9\<rparr>) (u64_checked_add secs 1)
          else Some \<lparr>dur_secs = secs, dur_nanos = nanos\<rparr>)"

definition duration_checked :: "u64 \<Rightarrow> u64 \<Rightarrow> (string, u64) result" where
  "duration_checked v seconds_per_unit =
     ok_or ''a component overflows a 64-bit second count'' (u64_checked_mul v seconds_per_unit)"

definition duration_component :: "u64 \<Rightarrow> string \<Rightarrow> (string, duration) result" where
  "duration_component v unit =
     (if unit = ''ms'' then Inr (from_millis v)
      else if unit = ''s'' then Inr (from_secs v)
      else if unit = ''m'' then and_then (duration_checked v 60) (\<lambda>s. Inr (from_secs s))
      else if unit = ''h'' then and_then (duration_checked v (60 * 60)) (\<lambda>s. Inr (from_secs s))
      else if unit = ''d'' then and_then (duration_checked v (24 * 60 * 60)) (\<lambda>s. Inr (from_secs s))
      else if unit = '''' then Inl ''a component has no unit; expected one of ms, s, m, h, d''
      else Inl ''unknown duration unit; expected one of ms, s, m, h, d'')"

lemma split_unit_shorter: "split_unit s = Inr (v, rest) \<Longrightarrow> length rest < length s"
proof -
  assume "split_unit s = Inr (v, rest)"
  then have "takeWhile is_digit (trim s) \<noteq> []" "rest = trim (dropWhile is_digit (trim s))"
    by (auto simp: split_unit_def Let_def and_then_def split: if_splits sum.splits)
  then have "length rest \<le> length (dropWhile is_digit (trim s))"
    "length (dropWhile is_digit (trim s)) < length (trim s)"
    by (simp_all add: length_trim)
      (metis append_take_drop_id length_append length_greater_0_conv less_add_same_cancel2
        takeWhile_dropWhile_id)
  with length_trim [of s] show ?thesis by simp
qed

function duration_loop :: "duration \<Rightarrow> string \<Rightarrow> (string, duration) result" where
  "duration_loop acc rest =
     (if rest = [] then Inr acc
      else case split_unit rest of
        Inl e \<Rightarrow> Inl e
      | Inr (v, tail) \<Rightarrow>
          let unit = takeWhile (\<lambda>c. \<not> is_digit c) tail;
              tail' = dropWhile (\<lambda>c. \<not> is_digit c) tail
          in case duration_component v (trim unit) of
               Inl e \<Rightarrow> Inl e
             | Inr component \<Rightarrow>
                 (case duration_checked_add acc component of
                    None \<Rightarrow> Inl ''the total is longer than a `Duration` can hold''
                  | Some acc' \<Rightarrow> duration_loop acc' tail'))"
  by pat_completeness auto
termination
  by (relation "measure (\<lambda>(_, rest). length rest)")
    (auto dest!: split_unit_shorter intro: le_less_trans [OF length_dropWhile_le])

declare duration_loop.simps [simp del]

definition duration_parse :: "string \<Rightarrow> (string, duration) result" where
  "duration_parse s =
     (let text = trim s in
      if text = [] then Inl ''an empty string is not a duration''
      else duration_loop (from_secs 0) text)"

definition duration_serialize :: "duration \<Rightarrow> string" where
  "duration_serialize d = show_nat (as_millis d) @ ''ms''"

section \<open>Byte sizes\<close>

definition size_multiplier :: "string \<Rightarrow> nat option" where
  "size_multiplier unit = map_of
     [('''', 1), (''b'', 1),
      (''k'', 2 ^ 10), (''kib'', 2 ^ 10), (''m'', 2 ^ 20), (''mib'', 2 ^ 20),
      (''g'', 2 ^ 30), (''gib'', 2 ^ 30), (''t'', 2 ^ 40), (''tib'', 2 ^ 40),
      (''kb'', 10 ^ 3), (''mb'', 10 ^ 6), (''gb'', 10 ^ 9), (''tb'', 10 ^ 12)] unit"

definition bytes_parse :: "string \<Rightarrow> (string, u64) result" where
  "bytes_parse text =
     and_then (split_unit text) (\<lambda>(v, unit).
       case size_multiplier (to_lower (trim unit)) of
         None \<Rightarrow> Inl (''unknown size unit; expected one of B, KiB, MiB, GiB, TiB, '' @ ''KB, MB, GB, TB'')
       | Some m \<Rightarrow> ok_or ''the size overflows a 64-bit byte count'' (u64_checked_mul v (of_nat m)))"

definition bytes_serialize :: "u64 \<Rightarrow> u64" where
  "bytes_serialize v = v"

section \<open>The visitors\<close>

datatype serde_input =
    SStr string | SU64 u64 | SI64 "64 word" | SNone | SUnit | SOther

datatype serde_failure = Custom string | Invalid_signed int | Invalid_type

definition u64_try_from_i64 :: "64 word \<Rightarrow> u64 option" where
  "u64_try_from_i64 n = (if sint n < 0 then None else Some n)"

fun duration_deserialize :: "serde_input \<Rightarrow> (serde_failure, duration) result" where
  "duration_deserialize (SStr s) = map_err Custom (duration_parse s)"
| "duration_deserialize (SU64 n) = Inr (from_secs n)"
| "duration_deserialize (SI64 n) =
     ok_or (Invalid_signed (sint n)) (map_option from_secs (u64_try_from_i64 n))"
| "duration_deserialize _ = Inl Invalid_type"

fun duration_option_deserialize :: "serde_input \<Rightarrow> (serde_failure, duration option) result" where
  "duration_option_deserialize SNone = Inr None"
| "duration_option_deserialize SUnit = Inr None"
| "duration_option_deserialize v = and_then (duration_deserialize v) (\<lambda>d. Inr (Some d))"

fun duration_option_serialize :: "duration option \<Rightarrow> serde_input" where
  "duration_option_serialize (Some d) = SStr (duration_serialize d)"
| "duration_option_serialize None = SNone"

fun bytes_deserialize :: "serde_input \<Rightarrow> (serde_failure, u64) result" where
  "bytes_deserialize (SStr s) = map_err Custom (bytes_parse s)"
| "bytes_deserialize (SU64 n) = Inr n"
| "bytes_deserialize (SI64 n) = ok_or (Invalid_signed (sint n)) (u64_try_from_i64 n)"
| "bytes_deserialize _ = Inl Invalid_type"

section \<open>Durations as a count of nanoseconds\<close>

text \<open>The specification: a duration is a number of nanoseconds below \<open>2 ^ 64 * 10 ^ 9\<close>.\<close>

definition nanos_max :: nat where
  "nanos_max = u64_max * 10 ^ 9 + (10 ^ 9 - 1)"

definition dur_of :: "nat \<Rightarrow> duration" where
  "dur_of n = \<lparr>dur_secs = of_nat (n div 10 ^ 9), dur_nanos = n mod 10 ^ 9\<rparr>"

definition spec_duration :: "nat \<Rightarrow> duration option" where
  "spec_duration n = (if n \<le> nanos_max then Some (dur_of n) else None)"

lemma nanos_max_iff: "n \<le> nanos_max \<longleftrightarrow> n div 10 ^ 9 \<le> u64_max"
proof -
  have *: "n \<le> m * g + (g - 1) \<longleftrightarrow> n div g \<le> m" if "0 < g" for m g :: nat
  proof -
    have "n \<le> m * g + (g - 1) \<longleftrightarrow> n < Suc m * g" using that by auto
    then show ?thesis using that by (simp add: div_less_iff_less_mult flip: less_Suc_eq_le)
  qed
  show ?thesis using * [of "10 ^ 9" u64_max] by (simp add: nanos_max_def)
qed

lemma unat_of_nat_le: "n \<le> u64_max \<Longrightarrow> unat (of_nat n :: u64) = n"
  using u64_of_Some [of n "of_nat n"] by (simp add: u64_of_def)

lemma dur_of_ok [simp]: "duration_ok (dur_of n)"
  by (simp add: duration_ok_def dur_of_def)

lemma total_dur_of: "n \<le> nanos_max \<Longrightarrow> total_nanos (dur_of n) = n"
  by (simp add: total_nanos_def dur_of_def nanos_max_iff unat_of_nat_le)

lemma dur_of_total: "duration_ok d \<Longrightarrow> dur_of (total_nanos d) = d"
  by (cases d) (simp add: duration_ok_def dur_of_def total_nanos_def)

lemma total_le_max: "duration_ok d \<Longrightarrow> total_nanos d \<le> nanos_max"
  using unat_le_max [of "dur_secs d"] by (simp add: duration_ok_def total_nanos_def nanos_max_iff)

lemma total_nanos_split:
  "n < 10 ^ 9 \<Longrightarrow> (s * 10 ^ 9 + n) div 10 ^ 9 = s \<and> (s * 10 ^ 9 + n) mod 10 ^ 9 = (n :: nat)"
  by simp

lemma total_nanos_add:
  "total_nanos a + total_nanos b =
     (if 10 ^ 9 \<le> dur_nanos a + dur_nanos b
      then (unat (dur_secs a) + unat (dur_secs b) + 1) * 10 ^ 9 + (dur_nanos a + dur_nanos b - 10 ^ 9)
      else (unat (dur_secs a) + unat (dur_secs b)) * 10 ^ 9 + (dur_nanos a + dur_nanos b))"
  by (simp add: total_nanos_def algebra_simps)

lemma spec_duration_split:
  "n < 10 ^ 9 \<Longrightarrow> spec_duration (s * 10 ^ 9 + n) =
     map_option (\<lambda>w. \<lparr>dur_secs = w, dur_nanos = n\<rparr>) (u64_of s)"
  unfolding spec_duration_def nanos_max_iff dur_of_def u64_of_def
  by (simp only: total_nanos_split) simp

lemma u64_of_Some_eq: "u64_of n = Some w \<longleftrightarrow> n \<le> u64_max \<and> w = of_nat n"
  by (auto simp: u64_of_def)

lemma checked_add_spec:
  assumes "duration_ok a" "duration_ok b"
  shows "duration_checked_add a b = spec_duration (total_nanos a + total_nanos b)"
proof (cases "10 ^ 9 \<le> dur_nanos a + dur_nanos b")
  case True
  define m where "m = unat (dur_secs a) + unat (dur_secs b)"
  have "(case u64_of m of None \<Rightarrow> None | Some secs \<Rightarrow> u64_of (unat secs + 1)) = u64_of (m + 1)"
    by (auto simp: u64_of_def unat_of_nat_le)
  moreover have "dur_nanos a + dur_nanos b - 10 ^ 9 < 10 ^ 9"
    using assms by (simp add: duration_ok_def)
  ultimately show ?thesis
    unfolding duration_checked_add_def Let_def total_nanos_add if_P [OF True]
      u64_checked_add_def m_def [symmetric]
    by (simp only: spec_duration_split) (auto split: option.splits)
next
  case False
  then show ?thesis
    unfolding duration_checked_add_def Let_def total_nanos_add if_not_P [OF False] u64_checked_add_def
    by (subst spec_duration_split) (auto split: option.splits)
qed

definition unit_nanos :: "string \<Rightarrow> nat option" where
  "unit_nanos unit = map_of
     [(''ms'', 10 ^ 6), (''s'', 10 ^ 9), (''m'', 60 * 10 ^ 9), (''h'', 3600 * 10 ^ 9),
      (''d'', 86400 * 10 ^ 9)] unit"

lemma from_secs_simps [simp]: "duration_ok (from_secs s)" "total_nanos (from_secs s) = unat s * 10 ^ 9"
  by (simp_all add: duration_ok_def from_secs_def total_nanos_def)

lemma from_millis_simps [simp]:
  "duration_ok (from_millis s)" "total_nanos (from_millis s) = unat s * 10 ^ 6"
proof -
  have "unat s mod 1000 < 1000" by simp
  then show "duration_ok (from_millis s)" by (simp add: duration_ok_def from_millis_def)
  have "unat (of_nat (unat s div 1000) :: u64) = unat s div 1000"
    using unat_le_max [of s] div_le_dividend le_trans by (blast intro: unat_of_nat_le)
  moreover have *: "(10 :: nat) ^ 9 = 1000 * 10 ^ 6" by simp
  ultimately show "total_nanos (from_millis s) = unat s * 10 ^ 6"
    unfolding from_millis_def total_nanos_def
    by (simp only: duration.simps) (metis (no_types) * distrib_right div_mult_mod_eq mult.assoc)
qed

lemma duration_eqI: "duration_ok a \<Longrightarrow> duration_ok b \<Longrightarrow> total_nanos a = total_nanos b \<Longrightarrow> a = b"
  by (metis dur_of_total)

lemma component_seconds:
  "and_then (duration_checked v f) (\<lambda>s. Inr (from_secs s)) =
     ok_or ''a component overflows a 64-bit second count'' (spec_duration (unat v * (unat f * 10 ^ 9)))"
proof -
  have n: "unat v * (unat f * 10 ^ 9) \<le> nanos_max \<longleftrightarrow> unat v * unat f \<le> u64_max"
    by (simp add: nanos_max_iff)
  have "from_secs (of_nat (unat v * unat f)) = dur_of (unat v * (unat f * 10 ^ 9))"
    if "unat v * unat f \<le> u64_max"
    using that n by (intro duration_eqI) (simp_all add: total_dur_of unat_of_nat_le del: of_nat_mult)
  with n show ?thesis
    by (auto simp: duration_checked_def u64_checked_mul_def u64_of_def spec_duration_def simp del: of_nat_mult)
qed

lemma component_spec:
  assumes "unit_nanos unit = Some f"
  shows "case duration_component v unit of
      Inr d \<Rightarrow> spec_duration (unat v * f) = Some d | Inl _ \<Rightarrow> spec_duration (unat v * f) = None"
proof -
  have ms: "spec_duration (unat v * 10 ^ 6) = Some (from_millis v)"
    using total_le_max [OF from_millis_simps(1) [of v]] dur_of_total [OF from_millis_simps(1) [of v]]
    by (simp add: spec_duration_def)
  have s: "spec_duration (unat v * 10 ^ 9) = Some (from_secs v)"
    using total_le_max [OF from_secs_simps(1) [of v]] dur_of_total [OF from_secs_simps(1) [of v]]
    by (simp add: spec_duration_def)
  have *: "unat (60 :: u64) = 60" "unat (60 * 60 :: u64) = 3600" "unat (24 * 60 * 60 :: u64) = 86400"
    by simp_all
  from assms ms s show ?thesis
    by (auto simp: unit_nanos_def duration_component_def component_seconds * ok_or_def
        split: if_splits option.splits)
qed

section \<open>What \<open>duration::parse\<close> accepts\<close>

definition render :: "(nat \<times> string) list \<Rightarrow> string" where
  "render cs = concat (map (\<lambda>(n, unit). show_nat n @ unit) cs)"

definition spec_nanos :: "(nat \<times> string) list \<Rightarrow> nat" where
  "spec_nanos cs = sum_list (map (\<lambda>(n, unit). n * the (unit_nanos unit)) cs)"

lemma unit_letters:
  assumes "unit_nanos unit = Some f"
  shows "unit \<noteq> []" "\<forall>c \<in> set unit. \<not> is_digit c \<and> \<not> is_ws c" "0 < f"
proof -
  have "unit \<in> {''ms'', ''s'', ''m'', ''h'', ''d''}"
    using assms by (auto simp: unit_nanos_def split: if_splits)
  then show "unit \<noteq> []" "\<forall>c \<in> set unit. \<not> is_digit c \<and> \<not> is_ws c"
    by (auto simp: is_digit_def is_ws_def)
  show "0 < f" using assms by (auto simp: unit_nanos_def split: if_splits)
qed

lemma trim_no_ws: "\<forall>c \<in> set s. \<not> is_ws c \<Longrightarrow> trim s = s"
  by (cases "s = []") (auto intro: trim_id)

lemma hd_show_nat: "is_digit (hd (show_nat n))"
  using show_nat_digits [of n] by (cases "show_nat n") auto

lemma render_no_ws:
  "(\<And>n unit. (n, unit) \<in> set cs \<Longrightarrow> unit_nanos unit \<noteq> None) \<Longrightarrow> \<forall>c \<in> set (render cs). \<not> is_ws c"
  using show_nat_digits digit_not_ws by (fastforce simp: render_def dest: unit_letters(2))

lemma split_number:
  "u \<noteq> [] \<Longrightarrow> \<not> is_digit (hd u) \<Longrightarrow>
   takeWhile is_digit (show_nat n @ u) = show_nat n \<and> dropWhile is_digit (show_nat n @ u) = u"
  using show_nat_digits [of n] by (cases u) (auto simp: takeWhile_append dropWhile_append)

lemma split_unit_number:
  assumes "u \<noteq> []" "\<not> is_digit (hd u)" "\<forall>c \<in> set u. \<not> is_ws c"
  shows "split_unit (show_nat n @ u) =
      and_then (ok_or ''the number is too large for a 64-bit count'' (u64_of n)) (\<lambda>v. Inr (v, u))"
proof -
  have "trim (show_nat n @ u) = show_nat n @ u"
    using assms(3) show_nat_digits [of n] digit_not_ws by (intro trim_no_ws) auto
  with split_number [OF assms(1,2), of n] show ?thesis
    using trim_no_ws [OF assms(3)] by (simp add: split_unit_def digits_val_show)
qed

lemma unit_then_digits:
  assumes "\<forall>c \<in> set u. \<not> is_digit c" "r = [] \<or> is_digit (hd r)"
  shows "takeWhile (\<lambda>c. \<not> is_digit c) (u @ r) = u" "dropWhile (\<lambda>c. \<not> is_digit c) (u @ r) = r"
  using assms by (cases r; auto simp: takeWhile_append dropWhile_append)+

lemma loop_step:
  assumes u: "unit_nanos u = Some f" and r: "r = [] \<or> is_digit (hd r)" "\<forall>c \<in> set r. \<not> is_ws c"
  shows "duration_loop acc (show_nat n @ u @ r) =
     (case u64_of n of None \<Rightarrow> Inl ''the number is too large for a 64-bit count''
      | Some v \<Rightarrow> and_then (duration_component v u) (\<lambda>component.
          and_then (ok_or ''the total is longer than a `Duration` can hold''
              (duration_checked_add acc component)) (\<lambda>acc'. duration_loop acc' r)))"
proof -
  have "u @ r \<noteq> []" "\<not> is_digit (hd (u @ r))" "\<forall>c \<in> set (u @ r). \<not> is_ws c"
    using unit_letters [OF u] r(2) by (cases u; auto)+
  then have "split_unit (show_nat n @ u @ r) =
      and_then (ok_or ''the number is too large for a 64-bit count'' (u64_of n)) (\<lambda>v. Inr (v, u @ r))"
    by (rule split_unit_number)
  then show ?thesis
    using unit_then_digits [of u r] unit_letters [OF u] r(1) trim_no_ws [of u]
    by (subst duration_loop.simps) (auto simp: Let_def and_then_def ok_or_def split: option.splits sum.splits)
qed

lemma loop_spec:
  assumes "\<forall>(n, u) \<in> set cs. unit_nanos u \<noteq> None" "duration_ok acc"
  shows "case duration_loop acc (render cs) of
      Inr d \<Rightarrow> (\<forall>(n, u) \<in> set cs. n \<le> u64_max) \<and> spec_duration (total_nanos acc + spec_nanos cs) = Some d
    | Inl _ \<Rightarrow> (\<exists>(n, u) \<in> set cs. u64_max < n) \<or> nanos_max < total_nanos acc + spec_nanos cs"
  using assms
proof (induction cs arbitrary: acc)
  case Nil
  then show ?case
    by (subst duration_loop.simps)
      (simp add: render_def spec_nanos_def spec_duration_def total_le_max dur_of_total)
next
  case (Cons c cs)
  obtain n u where c: "c = (n, u)" by (cases c)
  with Cons.prems obtain f where f: "unit_nanos u = Some f" by auto
  have r: "render cs = [] \<or> is_digit (hd (render cs))"
    using hd_show_nat by (cases cs) (auto simp: render_def)
  have ws: "\<forall>c \<in> set (render cs). \<not> is_ws c"
    using Cons.prems(1) by (intro render_no_ws) auto
  have eq: "render (c # cs) = show_nat n @ u @ render cs" "spec_nanos (c # cs) = n * f + spec_nanos cs"
    by (simp_all add: render_def spec_nanos_def c f)
  show ?case
  proof (cases "u64_of n")
    case None
    then have "u64_max < n" by (simp add: u64_of_None)
    with None show ?thesis unfolding eq(1) loop_step [OF f r ws] by (simp add: c)
  next
    case (Some v)
    then have v: "unat v = n" "n \<le> u64_max" by (simp add: u64_of_Some, simp add: u64_of_Some_eq)
    show ?thesis
    proof (cases "duration_component v u")
      case (Inl e)
      then have "nanos_max < n * f"
        using component_spec [OF f, of v] v by (auto simp: spec_duration_def split: if_splits)
      then show ?thesis unfolding eq loop_step [OF f r ws] by (simp add: Some Inl)
    next
      case (Inr d)
      then have d: "n * f \<le> nanos_max" "d = dur_of (n * f)"
        using component_spec [OF f, of v] v by (auto simp: spec_duration_def split: if_splits)
      show ?thesis
      proof (cases "duration_checked_add acc d")
        case None
        then have "nanos_max < total_nanos acc + n * f"
          using checked_add_spec [of acc d] Cons.prems(2) d total_dur_of [OF d(1)]
          by (auto simp: spec_duration_def split: if_splits)
        then show ?thesis unfolding eq loop_step [OF f r ws] by (simp add: Some Inr None)
      next
        case (Some acc')
        then have a: "total_nanos acc + n * f \<le> nanos_max" "acc' = dur_of (total_nanos acc + n * f)"
          using checked_add_spec [of acc d] Cons.prems(2) d total_dur_of [OF d(1)]
          by (auto simp: spec_duration_def split: if_splits)
        have "duration_loop acc (render (c # cs)) = duration_loop acc' (render cs)"
          unfolding eq loop_step [OF f r ws] by (simp add: \<open>u64_of n = Some v\<close> Inr Some)
        moreover have "total_nanos acc + spec_nanos (c # cs) = total_nanos acc' + spec_nanos cs"
          unfolding eq using total_dur_of [OF a(1)] a(2) by simp
        ultimately show ?thesis
          using Cons.IH [of acc'] Cons.prems(1) a(2) v(2) by (auto simp: c split: sum.splits)
      qed
    qed
  qed
qed


lemma render_not_Nil: "cs \<noteq> [] \<Longrightarrow> render cs \<noteq> []"
  by (cases cs) (auto simp: render_def)

text \<open>
  C25 (duration_parse_meaning): \<open>duration::parse\<close> on a text of numbers each followed by a known unit
  returns exactly the sum of its components, in nanoseconds, when every number fits 64 bits and
  the sum fits a \<open>Duration\<close>; otherwise it is an error. No component and no sum is ever
  wrapped or saturated, whichever arithmetic step would overflow.
\<close>

theorem duration_parse_meaning:
  assumes "cs \<noteq> []" and "\<forall>(n, unit) \<in> set cs. unit_nanos unit \<noteq> None"
  shows "case duration_parse (render cs) of
      Inr d \<Rightarrow> (\<forall>(n, unit) \<in> set cs. n \<le> u64_max) \<and> duration_ok d \<and>
        total_nanos d = spec_nanos cs \<and> spec_nanos cs \<le> nanos_max
    | Inl _ \<Rightarrow> (\<exists>(n, unit) \<in> set cs. u64_max < n) \<or> nanos_max < spec_nanos cs"
proof -
  have "trim (render cs) = render cs"
    using assms(2) by (intro trim_no_ws render_no_ws) auto
  then have "duration_parse (render cs) = duration_loop (from_secs 0) (render cs)"
    using render_not_Nil [OF assms(1)] by (simp add: duration_parse_def)
  moreover have "total_nanos (from_secs 0) = 0" by simp
  ultimately show ?thesis
    using loop_spec [OF assms(2) from_secs_simps(1) [of 0]]
    by (auto simp: spec_duration_def total_dur_of split: sum.splits if_splits)
qed

theorem duration_parse_meaning_witness:
  "duration_parse ''1h30m'' = Inr (from_secs 5400)"
proof -
  have r: "render [(1, ''h''), (30, ''m'')] = ''1h30m''"
    by (simp add: render_def show_nat.simps) code_simp
  have u: "\<forall>(n, unit) \<in> set [(1 :: nat, ''h''), (30, ''m'')]. unit_nanos unit \<noteq> None"
    by (simp add: unit_nanos_def)
  have s: "spec_nanos [(1, ''h''), (30, ''m'')] = 5400 * 10 ^ 9"
    by (simp add: spec_nanos_def unit_nanos_def)
  show ?thesis
    using duration_parse_meaning [OF _ u] r s
    by (auto simp: u64_max_def nanos_max_def intro!: duration_eqI split: sum.splits)
qed

text \<open>
  C27 (duration_round_trip): what \<open>serialize\<close> writes is read back exactly when the duration is a
  whole number of milliseconds and that number fits 64 bits. A finer duration comes back
  truncated, and one of \<open>2 ^ 64\<close> milliseconds or more is written as text that \<open>parse\<close> rejects.
\<close>

theorem duration_round_trip:
  assumes "duration_ok d"
  shows "duration_parse (duration_serialize d) =
      (if as_millis d \<le> u64_max then Inr (from_millis (of_nat (as_millis d)))
       else Inl ''the number is too large for a 64-bit count'') \<and>
    (duration_parse (duration_serialize d) = Inr d \<longleftrightarrow>
      as_millis d \<le> u64_max \<and> 10 ^ 6 dvd dur_nanos d)"
proof -
  define n where "n = as_millis d"
  have f: "unit_nanos ''ms'' = Some (10 ^ 6)" by (simp add: unit_nanos_def)
  have s: "duration_serialize d = show_nat n @ ''ms'' @ []"
    by (simp add: duration_serialize_def n_def)
  have "trim (duration_serialize d) = duration_serialize d"
    unfolding s using show_nat_digits [of n] digit_not_ws
    by (intro trim_no_ws) (auto simp: is_ws_def)
  then have p: "duration_parse (duration_serialize d) = duration_loop (from_secs 0) (duration_serialize d)"
    by (simp add: duration_parse_def s)
  have add0: "duration_checked_add (from_secs 0) (from_millis v) = Some (from_millis v)" for v
    using total_le_max [of "from_millis v"] dur_of_total [of "from_millis v"]
    by (simp add: checked_add_spec spec_duration_def del: from_millis_simps(2))
  have fin: "duration_loop a [] = Inr a" for a
    by (subst duration_loop.simps) simp
  have first: "duration_parse (duration_serialize d) =
      (if n \<le> u64_max then Inr (from_millis (of_nat n))
       else Inl ''the number is too large for a 64-bit count'')"
    unfolding p unfolding s using loop_step [OF f, of "[]" "from_secs 0" n]
    by (auto simp: u64_of_def duration_component_def add0 fin)
  have "unat (of_nat n :: u64) * 10 ^ 6 = total_nanos d \<longleftrightarrow> 10 ^ 6 dvd dur_nanos d" if "n \<le> u64_max"
  proof -
    have "n * 10 ^ 6 = unat (dur_secs d) * 10 ^ 9 + (dur_nanos d - dur_nanos d mod 10 ^ 6)"
      by (simp add: n_def as_millis_def add_mult_distrib minus_mod_eq_div_mult)
    moreover have "dur_nanos d mod 10 ^ 6 \<le> dur_nanos d" by simp
    ultimately show ?thesis using that
      by (auto simp: unat_of_nat_le total_nanos_def dvd_eq_mod_eq_0)
  qed
  then have "from_millis (of_nat n) = d \<longleftrightarrow> 10 ^ 6 dvd dur_nanos d" if "n \<le> u64_max"
    using that assms duration_eqI [of "from_millis (of_nat n)" d] by (metis from_millis_simps)
  with first show ?thesis by (auto simp: n_def)
qed

theorem duration_round_trip_witness:
  "duration_parse (duration_serialize \<lparr>dur_secs = 1, dur_nanos = 500000001\<rparr>) \<noteq>
     Inr \<lparr>dur_secs = 1, dur_nanos = 500000001\<rparr>"
  using conjunct2 [OF duration_round_trip [of "\<lparr>dur_secs = 1, dur_nanos = 500000001\<rparr>"]]
  by (simp add: duration_ok_def)

section \<open>What \<open>bytes::parse\<close> accepts\<close>

lemma size_multiplier_bound: "size_multiplier unit = Some m \<Longrightarrow> 0 < m \<and> m \<le> u64_max"
  by (auto simp: size_multiplier_def u64_max_def split: if_splits)

lemma split_unit_Inr:
  "split_unit s = Inr (v, rest) \<longleftrightarrow>
     (\<exists>ds u. trim s = ds @ u \<and> ds \<noteq> [] \<and> (\<forall>c \<in> set ds. is_digit c) \<and> (u = [] \<or> \<not> is_digit (hd u)) \<and>
       unat v = digits_val ds \<and> rest = trim u)"
proof
  assume "split_unit s = Inr (v, rest)"
  then have "takeWhile is_digit (trim s) \<noteq> []" "u64_of (digits_val (takeWhile is_digit (trim s))) = Some v"
    "rest = trim (dropWhile is_digit (trim s))"
    by (auto simp: split_unit_def Let_def and_then_def ok_or_def split: if_splits option.splits)
  then show "\<exists>ds u. trim s = ds @ u \<and> ds \<noteq> [] \<and> (\<forall>c \<in> set ds. is_digit c) \<and> (u = [] \<or> \<not> is_digit (hd u)) \<and>
       unat v = digits_val ds \<and> rest = trim u"
    by (rule_tac x = "takeWhile is_digit (trim s)" in exI, rule_tac x = "dropWhile is_digit (trim s)" in exI)
      (use hd_dropWhile [of is_digit "trim s"] in \<open>auto simp: u64_of_Some dest: set_takeWhileD\<close>)
next
  assume "\<exists>ds u. trim s = ds @ u \<and> ds \<noteq> [] \<and> (\<forall>c \<in> set ds. is_digit c) \<and> (u = [] \<or> \<not> is_digit (hd u)) \<and>
       unat v = digits_val ds \<and> rest = trim u"
  then obtain ds u where h: "trim s = ds @ u" "ds \<noteq> []" "\<forall>c \<in> set ds. is_digit c"
    "u = [] \<or> \<not> is_digit (hd u)" "unat v = digits_val ds" "rest = trim u" by blast
  have "takeWhile is_digit (ds @ u) = ds" "dropWhile is_digit (ds @ u) = u"
    using h(3,4) by (cases u; auto simp: takeWhile_append dropWhile_append)+
  moreover have "u64_of (digits_val ds) = Some v" using h(5) by (simp add: u64_of_Some)
  ultimately show "split_unit s = Inr (v, rest)"
    using h(1,2,6) by (simp add: split_unit_def Let_def)
qed

text \<open>
  C26 (bytes_parse_meaning): \<open>bytes::parse\<close> returns a count exactly when the trimmed text is a number
  followed by a unit of the table, in any letter case and with any whitespace between them,
  and then the count is the number times the unit's multiplier: never a wrapped product.
\<close>

theorem bytes_parse_meaning:
  "bytes_parse s = Inr w \<longleftrightarrow>
     (\<exists>ds u m. trim s = ds @ u \<and> ds \<noteq> [] \<and> (\<forall>c \<in> set ds. is_digit c) \<and>
        (u = [] \<or> \<not> is_digit (hd u)) \<and> size_multiplier (to_lower (trim u)) = Some m \<and>
        unat w = digits_val ds * m)"
proof -
  have mul: "u64_checked_mul v (of_nat m) = Some w \<longleftrightarrow> unat w = unat v * m"
    if "size_multiplier unit = Some m" for v m unit
    using size_multiplier_bound [OF that] by (simp add: u64_checked_mul_def u64_of_Some unat_of_nat_le)
  have le: "digits_val ds \<le> u64_max" if "size_multiplier unit = Some m" "unat w = digits_val ds * m" for ds m unit
    using size_multiplier_bound [OF that(1)] that(2) unat_le_max [of w]
    by (cases m) auto
  have "bytes_parse s = Inr w \<longleftrightarrow>
      (\<exists>v u m. split_unit s = Inr (v, u) \<and> size_multiplier (to_lower (trim u)) = Some m \<and> unat w = unat v * m)"
  proof -
    have *: "(case size_multiplier unit of None \<Rightarrow> Inl e
        | Some m \<Rightarrow> ok_or e' (u64_checked_mul v (of_nat m))) = Inr w \<longleftrightarrow>
        (\<exists>m. size_multiplier unit = Some m \<and> unat w = unat v * m)" for unit e e' v
      by (cases "size_multiplier unit")
        (auto simp: ok_or_def mul simp flip: mul split: option.splits)
    show ?thesis unfolding bytes_parse_def and_then_Inr_iff by (simp only: split_paired_Ex prod.case *) blast
  qed
  also have "\<dots> \<longleftrightarrow> (\<exists>ds u m. trim s = ds @ u \<and> ds \<noteq> [] \<and> (\<forall>c \<in> set ds. is_digit c) \<and>
        (u = [] \<or> \<not> is_digit (hd u)) \<and> size_multiplier (to_lower (trim u)) = Some m \<and>
        unat w = digits_val ds * m)"
  proof
    assume "\<exists>v u m. split_unit s = Inr (v, u) \<and> size_multiplier (to_lower (trim u)) = Some m \<and> unat w = unat v * m"
    then show "\<exists>ds u m. trim s = ds @ u \<and> ds \<noteq> [] \<and> (\<forall>c \<in> set ds. is_digit c) \<and>
        (u = [] \<or> \<not> is_digit (hd u)) \<and> size_multiplier (to_lower (trim u)) = Some m \<and>
        unat w = digits_val ds * m"
      unfolding split_unit_Inr by (metis trim_idem)
  next
    assume "\<exists>ds u m. trim s = ds @ u \<and> ds \<noteq> [] \<and> (\<forall>c \<in> set ds. is_digit c) \<and>
        (u = [] \<or> \<not> is_digit (hd u)) \<and> size_multiplier (to_lower (trim u)) = Some m \<and>
        unat w = digits_val ds * m"
    then obtain ds u m where h: "trim s = ds @ u" "ds \<noteq> []" "\<forall>c \<in> set ds. is_digit c"
      "u = [] \<or> \<not> is_digit (hd u)" "size_multiplier (to_lower (trim u)) = Some m"
      "unat w = digits_val ds * m" by blast
    have "unat (of_nat (digits_val ds) :: u64) = digits_val ds"
      using le [OF h(5,6)] by (rule unat_of_nat_le)
    with h have "split_unit s = Inr (of_nat (digits_val ds), trim u)"
      unfolding split_unit_Inr by blast
    with h(5,6) \<open>unat (of_nat (digits_val ds) :: u64) = digits_val ds\<close>
    show "\<exists>v u m. split_unit s = Inr (v, u) \<and> size_multiplier (to_lower (trim u)) = Some m \<and> unat w = unat v * m"
      by (metis trim_idem)
  qed
  finally show ?thesis .
qed

text \<open>Numbers: a count of seconds or of bytes, and never a negative one.\<close>

lemma deserialize_numbers:
  "duration_deserialize (SU64 n) = Inr (from_secs n)"
  "sint i < 0 \<Longrightarrow> duration_deserialize (SI64 i) = Inl (Invalid_signed (sint i))"
  "0 \<le> sint i \<Longrightarrow> duration_deserialize (SI64 i) = Inr (from_secs i)"
  "sint i < 0 \<Longrightarrow> bytes_deserialize (SI64 i) = Inl (Invalid_signed (sint i))"
  "0 \<le> sint i \<Longrightarrow> bytes_deserialize (SI64 i) = Inr i"
  by (simp_all add: u64_try_from_i64_def)

lemma bytes_round_trip: "bytes_deserialize (SU64 (bytes_serialize n)) = Inr n"
  by (simp add: bytes_serialize_def)

theorem bytes_parse_meaning_witness:
  "bytes_parse ''10 KiB'' = Inr 10240"
proof (rule bytes_parse_meaning [THEN iffD2], intro exI conjI)
  show "trim ''10 KiB'' = ''10'' @ '' KiB''" by code_simp
  show "size_multiplier (to_lower (trim '' KiB'')) = Some 1024" 
  proof -
    have "to_lower (trim '' KiB'') = ''kib''" by code_simp
    then show ?thesis by (simp add: size_multiplier_def)
  qed
  show "unat (10240 :: 64 word) = digits_val ''10'' * 1024" by (simp add: digits_val_def digit_val_def)
  show "\<forall>c \<in> set ''10''. is_digit c" by code_simp
  show "'' KiB'' = [] \<or> \<not> is_digit (hd '' KiB'')" by code_simp
qed simp

end
