(* ===== verification/Spec2Isabelle.thy ===== *)
theory Spec2Isabelle imports Recover Explain Interleaving Waiting Group Units begin

text \<open>
  A verification development of the \<^verbatim>\<open>dynamic-config\<close> engine (crate
  \<^verbatim>\<open>dynamic-config/\<close>): layered configuration sections that are loaded, merged, published in a
  cell and reloaded.
\<close>

end
